(* ===== verification/Oxi_Prelude.thy ===== *)
theory Oxi_Prelude
  imports Main "HOL-Library.Word"
begin

unbundle bit_operations_syntax

text \<open>
  The prelude of the development: the machine types of the Rust sources, the result type that
  carries values, errors and panics, the slice and index operations of the standard library
  with their panics, the byte-stream reader and writer, and the list and word lemmas that the
  component theories share.

  Conventions. A \<open>u8\<close>, \<open>u32\<close>, \<open>u64\<close> is a word of that width, and its arithmetic wraps, which
  is what the release profile of \<open>Cargo.toml\<close> compiles (it leaves overflow checks off).
  A \<open>usize\<close> that counts bytes of an in-memory buffer is a \<open>nat\<close>; a \<open>usize\<close> obtained by
  casting untrusted 64-bit data is kept as a 64-bit word.
\<close>

section \<open>Machine types\<close>

type_synonym byte = "8 word"
type_synonym u16 = "16 word"
type_synonym u32 = "32 word"
type_synonym u64 = "64 word"

section \<open>Results\<close>

text \<open>
  A Rust function that returns \<open>Result\<close> and may also panic: a value, an error, or a panic.
\<close>

datatype ('a, 'e) res = Ok 'a | Err 'e | Panic

fun bindR :: "('a, 'e) res \<Rightarrow> ('a \<Rightarrow> ('b, 'e) res) \<Rightarrow> ('b, 'e) res" where
  "bindR (Ok x) f = f x"
| "bindR (Err e) f = Err e"
| "bindR Panic f = Panic"

fun map_err :: "('e \<Rightarrow> 'f) \<Rightarrow> ('a, 'e) res \<Rightarrow> ('a, 'f) res" where
  "map_err f (Ok x) = Ok x"
| "map_err f (Err e) = Err (f e)"
| "map_err f Panic = Panic"

fun map_ok :: "('a \<Rightarrow> 'b) \<Rightarrow> ('a, 'e) res \<Rightarrow> ('b, 'e) res" where
  "map_ok f (Ok x) = Ok (f x)"
| "map_ok f (Err e) = Err e"
| "map_ok f Panic = Panic"

lemma bindR_cong [fundef_cong]:
  assumes "m = m'" and "\<And>x. m' = Ok x \<Longrightarrow> f x = f' x"
  shows "bindR m f = bindR m' f'"
  using assms by (cases m') auto

lemma bindR_eq_Ok: "bindR m f = Ok y \<longleftrightarrow> (\<exists>x. m = Ok x \<and> f x = Ok y)"
  by (cases m) auto

lemma bindR_eq_Err: "bindR m f = Err e \<longleftrightarrow> m = Err e \<or> (\<exists>x. m = Ok x \<and> f x = Err e)"
  by (cases m) auto

lemma bindR_eq_Panic: "bindR m f = Panic \<longleftrightarrow> m = Panic \<or> (\<exists>x. m = Ok x \<and> f x = Panic)"
  by (cases m) auto

lemma map_err_eq_Ok [simp]: "map_err f m = Ok x \<longleftrightarrow> m = Ok x"
  by (cases m) auto

lemma map_err_eq_Panic [simp]: "map_err f m = Panic \<longleftrightarrow> m = Panic"
  by (cases m) auto

lemma map_err_eq_Err: "map_err f m = Err e \<longleftrightarrow> (\<exists>e'. m = Err e' \<and> e = f e')"
  by (cases m) auto

lemma map_ok_eq_Ok: "map_ok f m = Ok y \<longleftrightarrow> (\<exists>x. m = Ok x \<and> y = f x)"
  by (cases m) auto

lemma bindR_split:
  "P (bindR m f) \<longleftrightarrow> (\<forall>x. m = Ok x \<longrightarrow> P (f x)) \<and> (\<forall>e. m = Err e \<longrightarrow> P (Err e)) \<and> (m = Panic \<longrightarrow> P Panic)"
  by (cases m) auto

lemma map_ok_bindR: "map_ok f (bindR m g) = bindR m (\<lambda>x. map_ok f (g x))"
  by (cases m) auto

lemma map_ok_comp [simp]: "map_ok f (map_ok g m) = map_ok (\<lambda>x. f (g x)) m"
  by (cases m) auto

lemma bindR_map_ok: "bindR (map_ok f m) g = bindR m (\<lambda>x. g (f x))"
  by (cases m) auto

lemma bindR_assoc: "bindR (bindR m f) g = bindR m (\<lambda>x. bindR (f x) g)"
  by (cases m) auto

lemma bindR_Ok_right [simp]: "bindR m Ok = m"
  by (cases m) auto

lemma bindR_not_Panic:
  assumes "m \<noteq> Panic" and "\<And>x. m = Ok x \<Longrightarrow> f x \<noteq> Panic"
  shows "bindR m f \<noteq> Panic"
  using assms by (cases m) auto

text \<open>An early return of an error guards what follows it.\<close>

lemma guard_eq_Ok [simp]: "(if b then Err e else m) = Ok x \<longleftrightarrow> \<not> b \<and> m = Ok x"
  by simp

lemma guard_eq_Panic [simp]: "(if b then Err e else m) = Panic \<longleftrightarrow> \<not> b \<and> m = Panic"
  by simp

lemmas bindR_eqs = bindR_eq_Ok bindR_eq_Err bindR_eq_Panic

text \<open>A \<open>for\<close> loop whose body threads a state and may fail.\<close>

fun for_each :: "('a \<Rightarrow> 's \<Rightarrow> ('s, 'e) res) \<Rightarrow> 'a list \<Rightarrow> 's \<Rightarrow> ('s, 'e) res" where
  "for_each f [] s = Ok s"
| "for_each f (x # xs) s = bindR (f x s) (for_each f xs)"

lemma for_each_append: "for_each f (xs @ ys) s = bindR (for_each f xs s) (for_each f ys)"
  by (induction xs arbitrary: s) (auto simp: bindR_assoc intro!: bindR_cong)

lemma for_each_Nil [simp]: "for_each f [] = Ok"
  by (rule ext) simp

lemma for_each_Cons: "for_each f (x # xs) = (\<lambda>s. bindR (f x s) (for_each f xs))"
  by (rule ext) simp

lemma for_each_map: "for_each (\<lambda>x. f (h x)) xs = for_each f (map h xs)"
proof
  show "for_each (\<lambda>x. f (h x)) xs s = for_each f (map h xs) s" for s
    by (induction xs arbitrary: s) (auto intro!: bindR_cong)
qed

lemma for_each_concat: "for_each (\<lambda>x. for_each f (h x)) xs = for_each f (concat (map h xs))"
proof
  show "for_each (\<lambda>x. for_each f (h x)) xs s = for_each f (concat (map h xs)) s" for s
    by (induction xs arbitrary: s) (auto simp: for_each_append intro!: bindR_cong)
qed

section \<open>Indexing and slicing\<close>

text \<open>\<open>xs[i]\<close>, \<open>&xs[a..b]\<close> and \<open>&xs[a..]\<close>: the standard library panics out of range.\<close>

definition index_at :: "'a list \<Rightarrow> nat \<Rightarrow> ('a, 'e) res" where
  "index_at xs i = (if i < length xs then Ok (xs ! i) else Panic)"

definition slice_range :: "'a list \<Rightarrow> nat \<Rightarrow> nat \<Rightarrow> ('a list, 'e) res" where
  "slice_range xs a b = (if a \<le> b \<and> b \<le> length xs then Ok (take (b - a) (drop a xs)) else Panic)"

definition slice_from :: "'a list \<Rightarrow> nat \<Rightarrow> ('a list, 'e) res" where
  "slice_from xs a = (if a \<le> length xs then Ok (drop a xs) else Panic)"

lemma index_at_Ok [simp]: "i < length xs \<Longrightarrow> index_at xs i = Ok (xs ! i)"
  by (simp add: index_at_def)

lemma slice_range_Ok [simp]:
  "a \<le> b \<Longrightarrow> b \<le> length xs \<Longrightarrow> slice_range xs a b = Ok (take (b - a) (drop a xs))"
  by (simp add: slice_range_def)

lemma slice_from_Ok [simp]: "a \<le> length xs \<Longrightarrow> slice_from xs a = Ok (drop a xs)"
  by (simp add: slice_from_def)

section \<open>Total correctness of results\<close>

text \<open>
  \<open>returns m Q\<close>: the call \<open>m\<close> returns normally, with a value in \<open>Q\<close>. The rules collected in
  \<open>wp\<close> compute the condition of a composed call from the conditions of its parts.
\<close>

named_theorems wp "weakest preconditions of results"

definition returns :: "('a, 'e) res \<Rightarrow> ('a \<Rightarrow> bool) \<Rightarrow> bool" where
  "returns m Q \<longleftrightarrow> (\<exists>x. m = Ok x \<and> Q x)"

lemma returns_Ok [wp]: "returns (Ok x) Q \<longleftrightarrow> Q x"
  by (simp add: returns_def)

lemma returns_Err [wp]: "\<not> returns (Err e) Q"
  by (simp add: returns_def)

lemma returns_Panic [wp]: "\<not> returns Panic Q"
  by (simp add: returns_def)

lemma returns_bind [wp]: "returns (bindR m f) Q \<longleftrightarrow> returns m (\<lambda>x. returns (f x) Q)"
  by (cases m) (simp_all add: returns_def)

lemma returns_if [wp]: "returns (if b then m else m') Q \<longleftrightarrow> (if b then returns m Q else returns m' Q)"
  by simp

lemma returns_index_at [wp]: "returns (index_at xs i) Q \<longleftrightarrow> i < length xs \<and> Q (xs ! i)"
  by (simp add: returns_def index_at_def)

lemma returns_slice_from [wp]: "returns (slice_from xs a) Q \<longleftrightarrow> a \<le> length xs \<and> Q (drop a xs)"
  by (simp add: returns_def slice_from_def)

lemma returns_slice_range [wp]:
  "returns (slice_range xs a b) Q \<longleftrightarrow> a \<le> b \<and> b \<le> length xs \<and> Q (take (b - a) (drop a xs))"
  by (auto simp: returns_def slice_range_def)

lemma returns_mono: "returns m P \<Longrightarrow> (\<And>x. m = Ok x \<Longrightarrow> P x \<Longrightarrow> Q x) \<Longrightarrow> returns m Q"
  by (auto simp: returns_def)

lemma returnsD: "returns m Q \<Longrightarrow> m = Ok x \<Longrightarrow> Q x"
  by (simp add: returns_def)

lemma returnsE: "returns m Q \<Longrightarrow> (\<And>x. m = Ok x \<Longrightarrow> Q x \<Longrightarrow> R) \<Longrightarrow> R"
  by (auto simp: returns_def)

text \<open>
  \<open>safe m Q\<close>: the call \<open>m\<close> does not panic, and a value it returns is in \<open>Q\<close>; an error is allowed.
  This is the contract of a decoder on untrusted input. The rules are collected in \<open>sp\<close>.
\<close>

named_theorems sp "conditions for a result that may be an error but not a panic"

definition safe :: "('a, 'e) res \<Rightarrow> ('a \<Rightarrow> bool) \<Rightarrow> bool" where
  "safe m Q \<longleftrightarrow> m \<noteq> Panic \<and> (\<forall>x. m = Ok x \<longrightarrow> Q x)"

lemma safe_Ok [sp]: "safe (Ok x) Q \<longleftrightarrow> Q x"
  by (simp add: safe_def)

lemma safe_Err [sp]: "safe (Err e) Q"
  by (simp add: safe_def)

lemma safe_Panic [sp]: "\<not> safe Panic Q"
  by (simp add: safe_def)

lemma safe_bind [sp]: "safe (bindR m f) Q \<longleftrightarrow> safe m (\<lambda>x. safe (f x) Q)"
  by (cases m) (simp_all add: safe_def)

lemma safe_if [sp]: "safe (if b then m else m') Q \<longleftrightarrow> (if b then safe m Q else safe m' Q)"
  by simp

lemma safe_map_err [sp]: "safe (map_err f m) Q \<longleftrightarrow> safe m Q"
  by (cases m) (simp_all add: safe_def)

lemma safe_map_ok [sp]: "safe (map_ok f m) Q \<longleftrightarrow> safe m (\<lambda>x. Q (f x))"
  by (cases m) (simp_all add: safe_def)

lemma safe_index_at [sp]: "safe (index_at xs i) Q \<longleftrightarrow> i < length xs \<and> Q (xs ! i)"
  by (auto simp: safe_def index_at_def)

lemma safe_slice_from [sp]: "safe (slice_from xs a) Q \<longleftrightarrow> a \<le> length xs \<and> Q (drop a xs)"
  by (auto simp: safe_def slice_from_def)

lemma safe_slice_range [sp]:
  "safe (slice_range xs a b) Q \<longleftrightarrow> a \<le> b \<and> b \<le> length xs \<and> Q (take (b - a) (drop a xs))"
  by (auto simp: safe_def slice_range_def)

lemma safe_mono: "safe m P \<Longrightarrow> (\<And>x. m = Ok x \<Longrightarrow> P x \<Longrightarrow> Q x) \<Longrightarrow> safe m Q"
  by (auto simp: safe_def)

lemma safeD: "safe m Q \<Longrightarrow> m = Ok x \<Longrightarrow> Q x" "safe m Q \<Longrightarrow> m \<noteq> Panic"
  by (simp_all add: safe_def)

section \<open>I/O errors, readers and writers\<close>

text \<open>
  \<open>std::io::Error\<close> by its kind, with the fixed part of the message (the numbers the source
  interpolates into the text are left out).
\<close>

datatype io_error =
    UnexpectedEof
  | InvalidData string
  | UnsupportedIo string
  | NotFound
  | PermissionDenied

text \<open>
  A \<open>Read\<close> over memory is the list of the bytes still to be read; \<open>read_exact\<close> delivers
  exactly \<open>n\<close> bytes or fails with \<open>UnexpectedEof\<close>. A \<open>Write\<close> into a \<open>Vec<u8>\<close> appends.
\<close>

definition read_exact :: "byte list \<Rightarrow> nat \<Rightarrow> (byte list \<times> byte list, io_error) res" where
  "read_exact r n = (if n \<le> length r then Ok (take n r, drop n r) else Err UnexpectedEof)"

definition write_all :: "byte list \<Rightarrow> byte list \<Rightarrow> byte list" where
  "write_all w bs = w @ bs"

lemma read_exact_append [simp]: "length xs = n \<Longrightarrow> read_exact (xs @ ys) n = Ok (xs, ys)"
  by (simp add: read_exact_def)

lemma read_exact_Suc_0_Cons [simp]: "read_exact (x # xs) (Suc 0) = Ok ([x], xs)"
  by (simp add: read_exact_def)

lemma read_exact_Nil [simp]: "0 < n \<Longrightarrow> read_exact [] n = Err UnexpectedEof"
  by (simp add: read_exact_def)

lemma read_exact_0 [simp]: "read_exact r 0 = Ok ([], r)"
  by (simp add: read_exact_def)

lemma read_exact_not_Panic [simp]: "read_exact r n \<noteq> Panic"
  by (simp add: read_exact_def)

lemma read_exact_length:
  "read_exact r n = Ok (bs, r') \<Longrightarrow> length bs = n \<and> length r' = length r - n \<and> r = bs @ r'"
  by (auto simp: read_exact_def split: if_splits)

text \<open>
  \<open>vec![0u8; len]\<close> and \<open>Vec::with_capacity(len)\<close> panic (\<open>capacity overflow\<close>) beyond
  \<open>isize::MAX\<close> bytes; an allocation below that limit is taken to succeed.
\<close>

definition vec_zeroed :: "u64 \<Rightarrow> (nat, 'e) res" where
  "vec_zeroed len = (if len < 0x8000000000000000 then Ok (unat len) else Panic)"

lemma vec_zeroed_eq_Ok: "vec_zeroed len = Ok n \<longleftrightarrow> n = unat len \<and> n < 2 ^ 63"
  by (auto simp: vec_zeroed_def word_less_nat_alt)

lemma vec_zeroed_Ok [simp]: "unat len < 2 ^ 63 \<Longrightarrow> vec_zeroed len = Ok (unat len)"
  by (simp add: vec_zeroed_def word_less_nat_alt)

text \<open>
  \<open>Vec::reserve(additional)\<close> panics in the same way when the length it makes room for exceeds
  \<open>isize::MAX\<close> bytes.
\<close>

definition vec_reserve :: "byte list \<Rightarrow> u64 \<Rightarrow> (unit, 'e) res" where
  "vec_reserve v additional = (if int (length v) + uint additional < 0x8000000000000000 then Ok () else Panic)"

lemma vec_reserve_eq: "vec_reserve v n = (if length v + unat n < 2 ^ 63 then Ok () else Panic)"
proof -
  have "uint n = int (unat n)" by simp
  then have "int (length v) + uint n < 0x8000000000000000 \<longleftrightarrow> length v + unat n < 0x8000000000000000" by linarith
  then show ?thesis by (simp add: vec_reserve_def)
qed

section \<open>List lemmas\<close>

lemma take_add_drop: "take (m + n) xs = take m xs @ take n (drop m xs)"
  by (rule take_add)

lemma take_drop_append_eq:
  "n + m \<le> length xs \<Longrightarrow> take m (drop n (xs @ ys)) = take m (drop n xs)"
  by simp

lemma nth_take_drop: "i < m \<Longrightarrow> n + m \<le> length xs \<Longrightarrow> take m (drop n xs) ! i = xs ! (n + i)"
  by simp

section \<open>Word lemmas\<close>

lemma unat_add_no_wrap:
  fixes a b :: "'w::len word"
  shows "unat a + unat b < 2 ^ LENGTH('w) \<Longrightarrow> unat (a + b) = unat a + unat b"
  by (simp add: unat_word_ariths)

lemma unat_sub_no_wrap:
  fixes a b :: "'w::len word"
  shows "b \<le> a \<Longrightarrow> unat (a - b) = unat a - unat b"
  by (rule unat_sub)

lemma unat_of_nat_id: "n < 2 ^ LENGTH('w::len) \<Longrightarrow> unat (of_nat n :: 'w word) = n"
  by (simp add: unat_of_nat take_bit_nat_eq_self)

lemma unat_lt_2p: "unat (x :: 'w::len word) < 2 ^ LENGTH('w)"
  by simp

lemma u64_lt [simp]: "unat (x :: u64) < 18446744073709551616"
  using unat_lt_2p [of x] by simp

lemma u32_lt [simp]: "unat (x :: u32) < 4294967296"
  using unat_lt_2p [of x] by simp

lemma byte_lt [simp]: "unat (x :: byte) < 256"
  using unat_lt_2p [of x] by simp

lemma unat_ucast_u32 [simp]: "unat (ucast (x :: u32) :: u64) = unat x"
  by (simp add: unsigned_ucast_eq take_bit_nat_eq_self less_trans [OF u32_lt])

lemma ucast_of_nat_u32: "n < 2 ^ 32 \<Longrightarrow> ucast (of_nat n :: u32) = (of_nat n :: u64)"
  by (rule unsigned_word_eqI [where ?'a = nat]) (simp add: unat_of_nat_id del: unsigned_of_nat)

lemma vec_zeroed_of_nat [simp]: "n < 2 ^ 63 \<Longrightarrow> vec_zeroed (of_nat n) = Ok n"
  by (simp add: vec_zeroed_def unat_of_nat_id word_less_nat_alt)

end
