(* ===== verification/Code_Table.thy ===== *)
theory Code_Table
  imports Oxi_Prelude
begin

text \<open>
  The default instruction code table of RFC 3284 section 5.6 and the encoder's opcode chooser,
  \<open>src/src/vcdiff/code_table.rs\<close>. The table is built by the same loops as the source, writing
  through an index; the lemmas say what the 256 entries are and that \<^verbatim>\<open>choose_instruction\<close> and
  the table are inverse to each other.
\<close>

section \<open>Definitions\<close>

definition XD3_NOOP :: byte where "XD3_NOOP = 0"
definition XD3_ADD :: byte where "XD3_ADD = 1"
definition XD3_RUN :: byte where "XD3_RUN = 2"
definition XD3_CPY :: byte where "XD3_CPY = 3"
definition MIN_MATCH :: byte where "MIN_MATCH = 4"

record CodeTableEntry =
  type1 :: byte
  size1 :: byte
  type2 :: byte
  size2 :: byte

definition CodeTableEntry_default :: CodeTableEntry where
  "CodeTableEntry_default = \<lparr> type1 = 0, size1 = 0, type2 = 0, size2 = 0 \<rparr>"

definition ADD_SIZES :: nat where "ADD_SIZES = 17"
definition NEAR_MODES :: nat where "NEAR_MODES = 4"
definition SAME_MODES :: nat where "SAME_MODES = 3"
definition CPY_SIZES :: nat where "CPY_SIZES = 15"
definition ADDCOPY_ADD_MAX :: nat where "ADDCOPY_ADD_MAX = 4"
definition ADDCOPY_NEAR_CPY_MAX :: nat where "ADDCOPY_NEAR_CPY_MAX = 6"
definition ADDCOPY_SAME_CPY_MAX :: nat where "ADDCOPY_SAME_CPY_MAX = 4"
definition COPYADD_ADD_MAX :: nat where "COPYADD_ADD_MAX = 1"
definition COPYADD_NEAR_CPY_MAX :: nat where "COPYADD_NEAR_CPY_MAX = 4"
definition COPYADD_SAME_CPY_MAX :: nat where "COPYADD_SAME_CPY_MAX = 4"
definition CPY_MODES :: nat where "CPY_MODES = 2 + NEAR_MODES + SAME_MODES"

text \<open>\<open>tbl[idx] = e; idx += 1\<close>, which panics past the end of the table.\<close>

definition put_entry ::
    "CodeTableEntry \<Rightarrow> CodeTableEntry list \<times> nat \<Rightarrow> (CodeTableEntry list \<times> nat, 'e) res" where
  "put_entry e s = (case s of (tbl, idx) \<Rightarrow>
     if idx < length tbl then Ok (tbl[idx := e], idx + 1) else Panic)"

definition bytes_upto :: "nat \<Rightarrow> nat \<Rightarrow> byte list" where
  "bytes_upto a b = map of_nat [a..<b]"

definition put_adds :: "CodeTableEntry list \<times> nat \<Rightarrow> (CodeTableEntry list \<times> nat, 'e) res" where
  "put_adds = for_each (\<lambda>size. put_entry
     \<lparr> type1 = XD3_ADD, size1 = size, type2 = XD3_NOOP, size2 = 0 \<rparr>) (bytes_upto 1 (ADD_SIZES + 1))"

definition put_copies :: "CodeTableEntry list \<times> nat \<Rightarrow> (CodeTableEntry list \<times> nat, 'e) res" where
  "put_copies = for_each (\<lambda>mode s.
     bindR (put_entry \<lparr> type1 = XD3_CPY + mode, size1 = 0, type2 = XD3_NOOP, size2 = 0 \<rparr> s)
       (for_each (\<lambda>size. put_entry
          \<lparr> type1 = XD3_CPY + mode, size1 = size, type2 = XD3_NOOP, size2 = 0 \<rparr>)
          (bytes_upto (unat MIN_MATCH) (unat MIN_MATCH + CPY_SIZES))))
     (bytes_upto 0 CPY_MODES)"

definition put_add_copies :: "CodeTableEntry list \<times> nat \<Rightarrow> (CodeTableEntry list \<times> nat, 'e) res" where
  "put_add_copies = for_each (\<lambda>mode.
     let near_limit = 2 + of_nat NEAR_MODES;
         cpy_max = (if mode < near_limit then ADDCOPY_NEAR_CPY_MAX else ADDCOPY_SAME_CPY_MAX)
     in for_each (\<lambda>add_size. for_each (\<lambda>cpy_size. put_entry
          \<lparr> type1 = XD3_ADD, size1 = add_size, type2 = XD3_CPY + mode, size2 = cpy_size \<rparr>)
          (bytes_upto (unat MIN_MATCH) (cpy_max + 1)))
        (bytes_upto 1 (ADDCOPY_ADD_MAX + 1)))
     (bytes_upto 0 CPY_MODES)"

definition put_copy_adds :: "CodeTableEntry list \<times> nat \<Rightarrow> (CodeTableEntry list \<times> nat, 'e) res" where
  "put_copy_adds = for_each (\<lambda>mode.
     let near_limit = 2 + of_nat NEAR_MODES;
         cpy_max = (if mode < near_limit then COPYADD_NEAR_CPY_MAX else COPYADD_SAME_CPY_MAX)
     in for_each (\<lambda>cpy_size. for_each (\<lambda>add_size. put_entry
          \<lparr> type1 = XD3_CPY + mode, size1 = cpy_size, type2 = XD3_ADD, size2 = add_size \<rparr>)
          (bytes_upto 1 (COPYADD_ADD_MAX + 1)))
        (bytes_upto (unat MIN_MATCH) (cpy_max + 1)))
     (bytes_upto 0 CPY_MODES)"

text \<open>
  The result keeps the final index beside the table: the source asserts in debug builds that
  it is 256.
\<close>

definition build_default_code_table :: "(CodeTableEntry list \<times> nat, 'e) res" where
  "build_default_code_table =
     bindR (put_entry \<lparr> type1 = XD3_RUN, size1 = 0, type2 = XD3_NOOP, size2 = 0 \<rparr>
              (replicate 256 CodeTableEntry_default, 0)) (\<lambda>s.
     bindR (put_entry \<lparr> type1 = XD3_ADD, size1 = 0, type2 = XD3_NOOP, size2 = 0 \<rparr> s) (\<lambda>s.
     bindR (put_adds s) (\<lambda>s.
     bindR (put_copies s) (\<lambda>s.
     bindR (put_add_copies s) put_copy_adds))))"

definition default_code_table :: "CodeTableEntry list" where
  "default_code_table = (case (build_default_code_table :: (_, unit) res) of
     Ok (tbl, idx) \<Rightarrow> tbl | _ \<Rightarrow> [])"

record ChosenInstruction =
  code1 :: byte
  code2 :: "byte option"

record InstructionInfo =
  itype :: byte
  isize :: u32

definition choose_instruction :: "InstructionInfo option \<Rightarrow> InstructionInfo \<Rightarrow> ChosenInstruction" where
  "choose_instruction prev inst =
     (if itype inst = XD3_RUN then \<lparr> code1 = 0, code2 = None \<rparr>
      else if itype inst = XD3_ADD then
        (if isize inst \<le> 17 then
           \<lparr> code1 = 1 + ucast (isize inst),
             code2 = (case prev of
                 Some p \<Rightarrow> if isize inst = 1 \<and> isize p = 4 \<and> XD3_CPY \<le> itype p
                           then Some (247 + (itype p - XD3_CPY)) else None
               | None \<Rightarrow> None) \<rparr>
         else \<lparr> code1 = 1, code2 = None \<rparr>)
      else
        let mode = itype inst - XD3_CPY; base = 19 + 16 * mode in
        if 4 \<le> isize inst \<and> isize inst \<le> 18 then
          \<lparr> code1 = base + (ucast (isize inst) - 3),
            code2 = (case prev of
                Some p \<Rightarrow>
                  if itype p = XD3_ADD \<and> isize p \<le> 4 then
                    if isize inst \<le> 6 \<and> mode \<le> 5
                    then Some (163 + mode * 12 + 3 * (ucast (isize p) - 1) + (ucast (isize inst) - 4))
                    else if isize inst = 4 \<and> 6 \<le> mode
                    then Some (235 + (mode - 6) * 4 + (ucast (isize p) - 1))
                    else None
                  else None
              | None \<Rightarrow> None) \<rparr>
        else \<lparr> code1 = base, code2 = None \<rparr>)"

datatype Instruction =
    Add u32
  | Copy u32 u64 byte
  | Run u32

section \<open>The layout of the table\<close>

text \<open>The entry at index \<open>i\<close> in closed form.\<close>

definition double :: "byte \<Rightarrow> byte \<Rightarrow> byte \<Rightarrow> byte \<Rightarrow> CodeTableEntry" where
  "double t1 s1 t2 s2 = \<lparr> type1 = t1, size1 = s1, type2 = t2, size2 = s2 \<rparr>"

definition single :: "byte \<Rightarrow> byte \<Rightarrow> CodeTableEntry" where
  "single t s = double t s XD3_NOOP 0"

definition table_entry :: "nat \<Rightarrow> CodeTableEntry" where
  "table_entry i =
     (if i = 0 then single XD3_RUN 0
      else if i < 19 then single XD3_ADD (of_nat (i - 1))
      else if i < 163 then single (of_nat (3 + (i - 19) div 16))
             (of_nat (if (i - 19) mod 16 = 0 then 0 else (i - 19) mod 16 + 3))
      else if i < 235 then double XD3_ADD (of_nat (1 + (i - 163) mod 12 div 3))
             (of_nat (3 + (i - 163) div 12)) (of_nat (4 + (i - 163) mod 3))
      else if i < 247 then double XD3_ADD (of_nat (1 + (i - 235) mod 4))
             (of_nat (9 + (i - 235) div 4)) 4
      else double (of_nat (3 + (i - 247))) 4 XD3_ADD 1)"

definition all_entries :: "CodeTableEntry list" where
  "all_entries = single XD3_RUN 0 # single XD3_ADD 0
     # map (single XD3_ADD) (bytes_upto 1 (ADD_SIZES + 1))
     @ concat (map (\<lambda>m. single (XD3_CPY + m) 0 # map (single (XD3_CPY + m))
         (bytes_upto (unat MIN_MATCH) (unat MIN_MATCH + CPY_SIZES))) (bytes_upto 0 CPY_MODES))
     @ concat (map (\<lambda>m. concat (map (\<lambda>a. map (double XD3_ADD a (XD3_CPY + m))
         (bytes_upto (unat MIN_MATCH) ((if m < 2 + of_nat NEAR_MODES then ADDCOPY_NEAR_CPY_MAX
            else ADDCOPY_SAME_CPY_MAX) + 1)))
         (bytes_upto 1 (ADDCOPY_ADD_MAX + 1)))) (bytes_upto 0 CPY_MODES))
     @ concat (map (\<lambda>m. concat (map (\<lambda>c. map (double (XD3_CPY + m) c XD3_ADD)
         (bytes_upto 1 (COPYADD_ADD_MAX + 1)))
         (bytes_upto (unat MIN_MATCH) ((if m < 2 + of_nat NEAR_MODES then COPYADD_NEAR_CPY_MAX
            else COPYADD_SAME_CPY_MAX) + 1)))) (bytes_upto 0 CPY_MODES))"

lemma all_entries_eq: "all_entries = map table_entry [0..<256]"
  by code_simp

lemma put_entries:
  assumes "length es \<le> n"
  shows "for_each put_entry es (xs @ replicate n d, length xs)
         = Ok (xs @ es @ replicate (n - length es) d, length xs + length es)"
  using assms
proof (induction es arbitrary: xs n)
  case (Cons e es)
  obtain k where n: "n = Suc k" using Cons.prems by (cases n) auto
  have "length es \<le> k" using Cons.prems n by simp
  from Cons.IH [OF this, of "xs @ [e]"] show ?case by (simp add: n put_entry_def)
qed simp

lemma put_groups:
  "put_adds = for_each put_entry (map (single XD3_ADD) (bytes_upto 1 (ADD_SIZES + 1)))"
  "put_copies = for_each put_entry (concat (map (\<lambda>m. single (XD3_CPY + m) 0 # map (single (XD3_CPY + m))
         (bytes_upto (unat MIN_MATCH) (unat MIN_MATCH + CPY_SIZES))) (bytes_upto 0 CPY_MODES)))"
  "put_add_copies = for_each put_entry (concat (map (\<lambda>m. concat (map (\<lambda>a. map (double XD3_ADD a (XD3_CPY + m))
         (bytes_upto (unat MIN_MATCH) ((if m < 2 + of_nat NEAR_MODES then ADDCOPY_NEAR_CPY_MAX
            else ADDCOPY_SAME_CPY_MAX) + 1)))
         (bytes_upto 1 (ADDCOPY_ADD_MAX + 1)))) (bytes_upto 0 CPY_MODES)))"
  "put_copy_adds = for_each put_entry (concat (map (\<lambda>m. concat (map (\<lambda>c. map (double (XD3_CPY + m) c XD3_ADD)
         (bytes_upto 1 (COPYADD_ADD_MAX + 1)))
         (bytes_upto (unat MIN_MATCH) ((if m < 2 + of_nat NEAR_MODES then COPYADD_NEAR_CPY_MAX
            else COPYADD_SAME_CPY_MAX) + 1)))) (bytes_upto 0 CPY_MODES)))"
  by (simp_all add: put_adds_def put_copies_def put_add_copies_def put_copy_adds_def Let_def
      single_def double_def for_each_Cons flip: for_each_map for_each_concat)

lemma for_each_chain:
  "bindR (f e s) (\<lambda>s. bindR (f e' s) (\<lambda>s. bindR (for_each f as s) (\<lambda>s. bindR (for_each f bs s)
     (\<lambda>s. bindR (for_each f cs s) (for_each f ds))))) = for_each f (e # e' # as @ bs @ cs @ ds) s"
  by (auto simp: for_each_append intro!: bindR_cong)

lemma build_eq_put: "build_default_code_table
    = for_each put_entry all_entries (replicate 256 CodeTableEntry_default, 0)"
  unfolding build_default_code_table_def put_groups all_entries_def for_each_chain
  by (simp add: single_def double_def)

lemma build_layout: "build_default_code_table = Ok (map table_entry [0..<256], 256)"
  using put_entries [of "all_entries" 256 "[]" CodeTableEntry_default]
  by (simp add: build_eq_put all_entries_eq del: upt_conv_Cons upt_rec_numeral)

lemma default_code_table_eq: "default_code_table = map table_entry [0..<256]"
  by (simp add: default_code_table_def build_layout del: upt_rec_numeral)

lemma length_default_code_table [simp]: "length default_code_table = 256"
  by (simp add: default_code_table_eq)

lemma default_code_table_nth [simp]:
  "i < 256 \<Longrightarrow> default_code_table ! i = table_entry i"
  by (simp add: default_code_table_eq del: upt_rec_numeral)

text \<open>
  An instruction the encoder may queue: an ADD or RUN of at least one byte, or a COPY in one of
  the nine modes; it may open a double instruction.
\<close>

definition valid_info :: "InstructionInfo \<Rightarrow> bool" where
  "valid_info i \<longleftrightarrow> itype i \<in> {XD3_ADD, XD3_RUN} \<and> 0 < isize i
     \<or> XD3_CPY \<le> itype i \<and> unat (itype i) < 12"

text \<open>The size byte of a single-instruction opcode, 0 when the size follows as an integer.\<close>

definition fixed_size :: "byte \<Rightarrow> u32 \<Rightarrow> byte" where
  "fixed_size t n = (if t = XD3_ADD \<and> n \<le> 17 \<or> XD3_CPY \<le> t \<and> 4 \<le> n \<and> n \<le> 18 then ucast n else 0)"

lemma cpy_mode_cases:
  assumes "XD3_CPY \<le> t" "unat t < 12"
  obtains m where "m < 9" "t = of_nat (3 + m)" "t - XD3_CPY = of_nat m" "t \<noteq> XD3_ADD" "t \<noteq> XD3_RUN"
proof
  have 3: "3 \<le> unat t" using assms(1) by (simp add: XD3_CPY_def word_le_nat_alt)
  show "unat t - 3 < 9" using assms(2) 3 by simp
  show t: "t = of_nat (3 + (unat t - 3))" using 3 by simp
  show "t - XD3_CPY = of_nat (unat t - 3)" by (subst t) (simp add: XD3_CPY_def)
  show "t \<noteq> XD3_ADD" "t \<noteq> XD3_RUN" using 3 by (auto simp: XD3_ADD_def XD3_RUN_def)
qed

lemma cpy_type:
  assumes "m < 9" and "t = of_nat (3 + m)"
  shows "unat (t - XD3_CPY) = m" "unat t = 3 + m" "t \<noteq> XD3_ADD" "t \<noteq> XD3_RUN" "XD3_CPY \<le> t"
proof -
  show *: "unat t = 3 + m" using assms by (simp only: assms(2)) (intro unat_of_nat_id, simp)
  then show "t \<noteq> XD3_ADD" "t \<noteq> XD3_RUN" "XD3_CPY \<le> t"
    by (auto simp: XD3_CPY_def XD3_ADD_def XD3_RUN_def word_le_nat_alt)
  then show "unat (t - XD3_CPY) = m" using * by (simp add: unat_sub_no_wrap XD3_CPY_def)
qed

lemma size_cases:
  assumes "n \<le> of_nat k" "k < 2 ^ 32"
  obtains j where "j \<le> k" "(n :: u32) = of_nat j" "ucast n = (of_nat j :: byte)"
proof
  show "unat n \<le> k" using assms by (simp add: word_le_nat_alt unat_of_nat_id)
  show "n = of_nat (unat n)" by simp
  show "ucast n = (of_nat (unat n) :: byte)" by simp
qed

lemma cpy_not_le [simp]: "\<not> XD3_CPY \<le> XD3_ADD" "\<not> XD3_CPY \<le> XD3_RUN" "\<not> XD3_CPY \<le> XD3_NOOP"
  by (simp_all add: XD3_CPY_def XD3_ADD_def XD3_RUN_def XD3_NOOP_def word_le_nat_alt)

lemma inst_types_distinct [simp]: "XD3_ADD \<noteq> XD3_RUN" "XD3_RUN \<noteq> XD3_ADD" "XD3_NOOP \<noteq> XD3_ADD"
    "XD3_NOOP \<noteq> XD3_RUN" "XD3_ADD \<noteq> XD3_NOOP" "XD3_RUN \<noteq> XD3_NOOP"
  by (simp_all add: XD3_ADD_def XD3_RUN_def XD3_NOOP_def)

text \<open>The opcode of a single instruction carries its type and, where there is one, its fixed size.\<close>

lemma code1_run: "table_entry (unat (code1 (choose_instruction p \<lparr> itype = XD3_RUN, isize = n \<rparr>)))
    = single XD3_RUN 0"
  by (simp add: choose_instruction_def table_entry_def)

lemma code1_add: "table_entry (unat (code1 (choose_instruction p \<lparr> itype = XD3_ADD, isize = n \<rparr>)))
    = single XD3_ADD (fixed_size XD3_ADD n)"
proof (cases "n \<le> 17")
  case True
  then obtain j where j: "j \<le> 17" "n = of_nat j" "ucast n = (of_nat j :: byte)"
    using size_cases [of n 17] by auto
  have "unat (1 + of_nat j :: byte) = 1 + j" using j(1) unat_of_nat_id [of "1 + j", where 'w = 8] by simp
  with True j show ?thesis
    by (simp add: choose_instruction_def XD3_ADD_def XD3_RUN_def table_entry_def fixed_size_def)
qed (simp add: choose_instruction_def table_entry_def fixed_size_def)

lemma code1_cpy:
  assumes "XD3_CPY \<le> t" "unat t < 12"
  shows "table_entry (unat (code1 (choose_instruction p \<lparr> itype = t, isize = n \<rparr>)))
    = single t (fixed_size t n)"
proof -
  obtain m where m: "m < 9" "t = of_nat (3 + m)" "t - XD3_CPY = of_nat m" "t \<noteq> XD3_ADD" "t \<noteq> XD3_RUN"
    using cpy_mode_cases [OF assms] .
  show ?thesis
  proof (cases "4 \<le> n \<and> n \<le> 18")
    case True
    then obtain j where j: "j \<le> 18" "n = of_nat j" "ucast n = (of_nat j :: byte)"
      using size_cases [of n 18] by auto
    have 4: "4 \<le> j" using True j by (simp add: word_le_nat_alt unat_of_nat_id)
    have "19 + 16 * of_nat m + (of_nat j - 3) = (of_nat (19 + 16 * m + (j - 3)) :: byte)"
      using 4 by (simp add: of_nat_diff)
    moreover have "unat (of_nat (19 + 16 * m + (j - 3)) :: byte) = 19 + 16 * m + (j - 3)"
      using m(1) j(1) by (intro unat_of_nat_id) simp
    ultimately have u: "unat (19 + 16 * of_nat m + (of_nat j - 3) :: byte) = 19 + 16 * m + (j - 3)" by simp
    obtain k where k: "j = k + 3" "0 < k" "k < 16" using 4 j(1) that [of "j - 3"] by auto
    with True m j u assms(1) show ?thesis
      by (simp add: choose_instruction_def Let_def table_entry_def fixed_size_def)
  next
    case False
    have "unat (19 + 16 * of_nat m :: byte) = 19 + 16 * m"
      using m(1) unat_of_nat_id [of "19 + 16 * m", where 'w = 8] by simp
    with False m show ?thesis
      by (auto simp: choose_instruction_def Let_def table_entry_def fixed_size_def)
  qed
qed

lemma choose_code1:
  assumes "valid_info i"
  shows "default_code_table ! unat (code1 (choose_instruction p i)) = single (itype i) (fixed_size (itype i) (isize i))"
proof (cases i)
  case (fields t n)
  show ?thesis
    using assms code1_run [of p n] code1_add [of p n] code1_cpy [of t p n]
    by (auto simp: fields valid_info_def fixed_size_def)
qed

text \<open>The double opcodes.\<close>

lemma double_copy_add: "m < 9 \<Longrightarrow> table_entry (unat (247 + of_nat m :: byte)) = double (of_nat (3 + m)) 4 XD3_ADD 1"
  using unat_of_nat_id [of "247 + m", where 'w = 8] by (simp add: table_entry_def)

lemma double_add_copy_near:
  assumes "m \<le> 5" "1 \<le> a" "a \<le> 4" "4 \<le> j" "j \<le> 6"
  shows "table_entry (unat (163 + of_nat m * 12 + 3 * (of_nat a - 1) + (of_nat j - 4) :: byte))
       = double XD3_ADD (of_nat a) (of_nat (3 + m)) (of_nat j)"
proof -
  obtain b where b: "a = b + 1" "b < 4" using assms that [of "a - 1"] by auto
  obtain k where k: "j = k + 4" "k < 3" using assms that [of "j - 4"] by auto
  have "unat (of_nat (163 + m * 12 + 3 * b + k) :: byte) = 163 + m * 12 + 3 * b + k"
    using assms b k by (intro unat_of_nat_id) simp
  moreover have "(m * 12 + 3 * b + k) div 12 = m" "(m * 12 + 3 * b + k) mod 12 = 3 * b + k"
    using div_mult_self3 [of 12 m "3 * b + k"] mod_mult_self3 [of m 12 "3 * b + k"] b k
    by (simp_all add: add.assoc)
  moreover have "(3 * b + k) div 3 = b" using k by simp
  moreover have "(m * 12 + (3 * b + k)) mod 3 = k"
    using mod_mult_self3 [of "m * 4 + b" 3 k] k by (simp add: algebra_simps)
  moreover have "163 + of_nat m * 12 + 3 * (of_nat a - 1) + (of_nat j - 4)
      = (of_nat (163 + m * 12 + 3 * b + k) :: byte)" using b k by simp
  moreover have "m * 12 + 3 * b + k < 72" using assms b k by simp
  ultimately show ?thesis using b k by (simp only:) (simp add: table_entry_def ac_simps del: of_nat_mult)
qed

lemma double_add_copy_same:
  assumes "6 \<le> m" "m < 9" "1 \<le> a" "a \<le> 4"
  shows "table_entry (unat (235 + (of_nat m - 6) * 4 + (of_nat a - 1) :: byte))
       = double XD3_ADD (of_nat a) (of_nat (3 + m)) 4"
proof -
  obtain b where b: "a = b + 1" "b < 4" using assms that [of "a - 1"] by auto
  obtain k where k: "m = k + 6" "k < 3" using assms that [of "m - 6"] by auto
  have "unat (of_nat (235 + k * 4 + b) :: byte) = 235 + k * 4 + b"
    using b k by (intro unat_of_nat_id) simp
  moreover have "235 + (of_nat m - 6) * 4 + (of_nat a - 1) = (of_nat (235 + k * 4 + b) :: byte)"
    using b k by simp
  ultimately show ?thesis using b k by (simp only:) (simp add: table_entry_def)
qed

text \<open>A double opcode carries both instructions with both sizes.\<close>

lemma choose_code2:
  assumes "valid_info p" "valid_info i" "code2 (choose_instruction (Some p) i) = Some c"
  shows "default_code_table ! unat c = double (itype p) (ucast (isize p)) (itype i) (ucast (isize i))
     \<and> 0 < isize p \<and> isize p \<le> 4 \<and> 0 < isize i \<and> isize i \<le> 6"
proof (cases "itype i = XD3_ADD")
  case True
  with assms(3) have *: "isize i = 1" "isize p = 4" "XD3_CPY \<le> itype p" "c = 247 + (itype p - XD3_CPY)"
    by (auto simp: choose_instruction_def split: if_splits)
  with assms(1) have "unat (itype p) < 12" by (auto simp: valid_info_def)
  then obtain m where m: "m < 9" "itype p = of_nat (3 + m)" "itype p - XD3_CPY = of_nat m"
    using cpy_mode_cases [OF *(3)] by metis
  have "c = 247 + of_nat m" by (simp only: *(4) m(3))
  with double_copy_add [OF m(1)] have "default_code_table ! unat c = double (itype p) 4 XD3_ADD 1"
    by (simp add: m(2))
  with *(1,2) True show ?thesis by (simp add: word_le_nat_alt word_less_nat_alt)
next
  case False
  with assms have "itype i \<noteq> XD3_RUN" by (auto simp: choose_instruction_def)
  with False assms(2) obtain m where m: "m < 9" "itype i = of_nat (3 + m)" "itype i - XD3_CPY = of_nat m"
    unfolding valid_info_def by (metis cpy_mode_cases empty_iff insert_iff)
  have p: "itype p = XD3_ADD" "isize p \<le> 4" "4 \<le> isize i" "isize i \<le> 6"
    using assms(3) False \<open>itype i \<noteq> XD3_RUN\<close>
    by (auto simp: choose_instruction_def Let_def word_le_nat_alt split: if_splits)
  obtain a where a: "a \<le> 4" "isize p = of_nat a" "ucast (isize p) = (of_nat a :: byte)"
    using size_cases [of "isize p" 4] p by auto
  obtain j where j: "j \<le> 6" "isize i = of_nat j" "ucast (isize i) = (of_nat j :: byte)"
    using size_cases [of "isize i" 6] p by auto
  have a1: "1 \<le> a" using assms(1) p(1) a by (cases a) (auto simp: valid_info_def)
  have j4: "4 \<le> j" using p(3) j by (simp add: word_le_nat_alt unat_of_nat_id)
  have mode: "of_nat m \<le> (5 :: byte) \<longleftrightarrow> m \<le> 5" "(6 :: byte) \<le> of_nat m \<longleftrightarrow> 6 \<le> m"
    using m(1) by (simp_all add: word_le_nat_alt unat_of_nat_id)
  have tab: "default_code_table ! unat c = double XD3_ADD (of_nat a) (of_nat (3 + m)) (of_nat j)"
  proof (cases "m \<le> 5")
    case True
    with assms(3) False \<open>itype i \<noteq> XD3_RUN\<close> p m(3) a j mode
    have "c = 163 + of_nat m * 12 + 3 * (of_nat a - 1) + (of_nat j - 4)"
      by (auto simp: choose_instruction_def Let_def split: if_splits)
    with double_add_copy_near [OF True a1 a(1) j4 j(1)] show ?thesis by simp
  next
    case m6: False
    with assms(3) False \<open>itype i \<noteq> XD3_RUN\<close> p m(3) a j mode
    have "c = 235 + (of_nat m - 6) * 4 + (of_nat a - 1)" "isize i = 4"
      by (auto simp: choose_instruction_def Let_def split: if_splits)
    moreover from this(2) have "ucast (isize i) = (4 :: byte)" by simp
    ultimately show ?thesis using double_add_copy_same [of m a] m(1) m6 a1 a(1) j(3) by simp
  qed
  show ?thesis using tab p a j m(2) assms(1) j4 by (auto simp: valid_info_def word_less_nat_alt unat_of_nat_id)
qed

text \<open>A double opcode of the table is one of the three groups.\<close>

lemma table_double_cases:
  assumes "k < 256" "table_entry k = double t1 s1 t2 s2" "t2 \<noteq> XD3_NOOP"
  shows "(\<exists>m. t1 = XD3_ADD \<and> unat s1 \<in> {1..4} \<and> t2 = of_nat (3 + m) \<and>
            (m \<le> 5 \<and> unat s2 \<in> {4..6} \<or> 6 \<le> m \<and> m < 9 \<and> s2 = 4))
       \<or> XD3_CPY \<le> t1 \<and> s1 = 4 \<and> t2 = XD3_ADD \<and> s2 = 1"
proof -
  have k: "163 \<le> k" using assms(2,3) by (auto simp: table_entry_def single_def double_def split: if_splits)
  consider "k < 235" | "235 \<le> k" "k < 247" | "247 \<le> k" by linarith
  then show ?thesis
  proof cases
    case 1
    have "(k - 163) mod 12 div 3 \<le> 3" "(k - 163) mod 3 \<le> 2" "(k - 163) div 12 \<le> 5"
      using 1 k by (simp_all add: less_Suc_eq_le [symmetric] div_less_iff_less_mult)
    then show ?thesis using 1 k assms(2)
      by (intro disjI1 exI [of _ "(k - 163) div 12"])
        (auto simp: table_entry_def double_def unat_of_nat_id simp del: of_nat_add of_nat_Suc)
  next
    case 2
    have "(k - 235) mod 4 \<le> 3" "(k - 235) div 4 \<le> 2"
      using 2 by (simp_all add: less_Suc_eq_le [symmetric] div_less_iff_less_mult)
    then show ?thesis using 2 assms(2)
      by (intro disjI1 exI [of _ "6 + (k - 235) div 4"])
        (auto simp: table_entry_def double_def unat_of_nat_id simp del: of_nat_add of_nat_Suc)
  next
    case 3
    have "XD3_CPY \<le> of_nat (3 + (k - 247))"
      using assms(1) by (simp add: XD3_CPY_def word_le_nat_alt unat_of_nat_id del: of_nat_add)
    then show ?thesis using 3 assms(2) by (auto simp: table_entry_def double_def)
  qed
qed

text \<open>
  C26: The code table and the opcode chooser fit together. The loops of
  \<open>build_default_code_table\<close> write every one of the 256 entries exactly once (the final index is
  256), and for valid instructions \<open>choose_instruction\<close> returns an opcode whose table entry is
  that single instruction, and, when it proposes merging with the previous instruction, a double
  opcode whose entry is exactly the two instructions with both their sizes.
\<close>

theorem choose_instruction_table:
  assumes "valid_info p" and "valid_info i"
  shows "(build_default_code_table :: (_, unit) res) = Ok (default_code_table, 256)
     \<and> length default_code_table = 256
     \<and> default_code_table ! unat (code1 (choose_instruction (Some p) i))
         = \<lparr> type1 = itype i, size1 = fixed_size (itype i) (isize i), type2 = XD3_NOOP, size2 = 0 \<rparr>
     \<and> (\<forall>c. code2 (choose_instruction (Some p) i) = Some c \<longrightarrow>
          default_code_table ! unat c = \<lparr> type1 = itype p, size1 = ucast (isize p),
                                          type2 = itype i, size2 = ucast (isize i) \<rparr>
          \<and> 0 < isize p \<and> isize p \<le> 4 \<and> 0 < isize i \<and> isize i \<le> 6)"
  using choose_code1 [OF assms(2), of "Some p"] choose_code2 [OF assms]
  by (auto simp: single_def double_def build_layout default_code_table_eq simp del: upt_rec_numeral)

theorem choose_instruction_table_witness:
  "default_code_table ! unat (235 :: byte)
     = \<lparr> type1 = XD3_ADD, size1 = 1, type2 = 9, size2 = 4 \<rparr>"
proof -
  have "code2 (choose_instruction (Some \<lparr> itype = XD3_ADD, isize = 1 \<rparr>) \<lparr> itype = 9, isize = 4 \<rparr>)
      = Some 235" by code_simp
  moreover have "valid_info \<lparr> itype = XD3_ADD, isize = 1 \<rparr>" "valid_info \<lparr> itype = 9, isize = 4 \<rparr>"
    by code_simp+
  ultimately show ?thesis
    using choose_instruction_table [of "\<lparr> itype = XD3_ADD, isize = 1 \<rparr>" "\<lparr> itype = 9, isize = 4 \<rparr>"]
    by simp
qed

text \<open>
  C27: The opcode chooser misses no double instruction: it proposes a double opcode for an
  adjacent pair of valid instructions if and only if the default table contains one for that
  pair of types and sizes.
\<close>

theorem choose_instruction_complete:
  assumes "valid_info p" and "valid_info i"
  shows "code2 (choose_instruction (Some p) i) \<noteq> None \<longleftrightarrow>
    (\<exists>k<256. type1 (default_code_table ! k) = itype p \<and> unat (size1 (default_code_table ! k)) = unat (isize p)
        \<and> type2 (default_code_table ! k) = itype i \<and> unat (size2 (default_code_table ! k)) = unat (isize i))"
    (is "?C \<longleftrightarrow> (\<exists>k<256. ?D k)")
proof
  assume ?C
  then obtain c where c: "code2 (choose_instruction (Some p) i) = Some c" by blast
  have "?D (unat c)" using choose_code2 [OF assms c]
    by (simp add: double_def unsigned_ucast_eq take_bit_nat_eq_self word_le_nat_alt)
  then show "\<exists>k<256. ?D k" using byte_lt by blast
next
  assume "\<exists>k<256. ?D k"
  then obtain k where k: "k < 256" "?D k" by blast
  define e where "e = table_entry k"
  have e: "table_entry k = double (itype p) (size1 e) (itype i) (size2 e)"
    using k unfolding e_def by (simp add: double_def)
  have ne: "itype i \<noteq> XD3_NOOP" using assms(2) by (auto simp: valid_info_def)
  have sz: "unat (isize p) = unat (size1 e)" "unat (isize i) = unat (size2 e)" using k by (auto simp: e_def)
  from table_double_cases [OF k(1) e ne] show ?C
  proof (elim disjE exE conjE)
    fix m assume m: "itype p = XD3_ADD" "unat (size1 e) \<in> {1..4}" "itype i = of_nat (3 + m)"
    assume r: "m \<le> 5" "unat (size2 e) \<in> {4..6}"
    have "itype i - XD3_CPY \<le> 5" "itype i \<noteq> XD3_RUN" "itype i \<noteq> XD3_ADD"
      using cpy_type [OF _ m(3)] r(1) by (simp_all add: word_le_nat_alt)
    then show ?C using m(1,2) r sz by (auto simp: choose_instruction_def Let_def word_le_nat_alt)
  next
    fix m assume m: "itype p = XD3_ADD" "unat (size1 e) \<in> {1..4}" "itype i = of_nat (3 + m)"
    assume r: "6 \<le> m" "m < 9" "size2 e = 4"
    have "6 \<le> itype i - XD3_CPY" "itype i \<noteq> XD3_RUN" "itype i \<noteq> XD3_ADD"
      using cpy_type [OF _ m(3)] r(1,2) by (simp_all add: word_le_nat_alt)
    moreover have "isize i = 4" using sz(2) r(3) by (simp add: unsigned_word_eqI [where ?'a = nat])
    ultimately show ?C using m(1,2) r sz by (auto simp: choose_instruction_def Let_def word_le_nat_alt)
  next
    assume c: "XD3_CPY \<le> itype p" "size1 e = 4" "itype i = XD3_ADD" "size2 e = 1"
    then have "isize p = 4" "isize i = 1" using sz by (simp_all add: unsigned_word_eqI [where ?'a = nat])
    with c show ?C by (simp add: choose_instruction_def word_le_nat_alt)
  qed
qed

theorem choose_instruction_complete_witness:
  "(\<exists>k<256. type1 (default_code_table ! k) = XD3_ADD \<and> unat (size1 (default_code_table ! k)) = 4
        \<and> type2 (default_code_table ! k) = 8 \<and> unat (size2 (default_code_table ! k)) = 6)"
proof -
  have "valid_info \<lparr> itype = XD3_ADD, isize = 4 \<rparr>" "valid_info \<lparr> itype = 8, isize = 6 \<rparr>"
    "code2 (choose_instruction (Some \<lparr> itype = XD3_ADD, isize = 4 \<rparr>) \<lparr> itype = 8, isize = 6 \<rparr>) \<noteq> None"
    by code_simp+
  then show ?thesis
    using choose_instruction_complete [of "\<lparr> itype = XD3_ADD, isize = 4 \<rparr>" "\<lparr> itype = 8, isize = 6 \<rparr>"]
    by simp
qed

end
