(* ===== verification/Rolling.thy ===== *)
theory Rolling
  imports Oxi_Prelude
begin

text \<open>
  The checksums and table geometry of the match engine: \<open>src/src/hash/config.rs\<close> and the first
  half of \<open>src/src/hash/rolling.rs\<close>. Positions and lengths are naturals; a pointer into a slice
  is the rest of the slice from there, and an unchecked read outside the slice is \<open>Panic\<close>.
  Native byte order is little-endian, as on the x86-64 and aarch64 targets the crate has kernels
  for.
\<close>

section \<open>Matcher profiles\<close>

definition C_MIN_MATCH :: nat where "C_MIN_MATCH = 4"
definition MIN_RUN :: nat where "MIN_RUN = 8"
definition DEFAULT_WINSIZE :: nat where "DEFAULT_WINSIZE = 2 ^ 23"
definition DEFAULT_SPREVSZ :: nat where "DEFAULT_SPREVSZ = 2 ^ 18"
definition DEFAULT_SRCWINSZ :: nat where "DEFAULT_SRCWINSZ = 2 ^ 26"
definition MAX_LRU_SIZE :: nat where "MAX_LRU_SIZE = 32"

record MatcherConfig =
  cfg_name :: string
  large_look :: nat
  large_step :: nat
  small_look :: nat
  small_chain :: nat
  small_lchain :: nat
  max_lazy :: nat
  long_enough :: nat

definition FASTEST :: MatcherConfig where
  "FASTEST = \<lparr> cfg_name = ''fastest'', large_look = 9, large_step = 26, small_look = 4,
     small_chain = 1, small_lchain = 1, max_lazy = 6, long_enough = 6 \<rparr>"

definition FASTER :: MatcherConfig where
  "FASTER = \<lparr> cfg_name = ''faster'', large_look = 9, large_step = 15, small_look = 4,
     small_chain = 1, small_lchain = 1, max_lazy = 18, long_enough = 18 \<rparr>"

definition FAST :: MatcherConfig where
  "FAST = \<lparr> cfg_name = ''fast'', large_look = 9, large_step = 8, small_look = 4,
     small_chain = 4, small_lchain = 1, max_lazy = 18, long_enough = 35 \<rparr>"

definition DEFAULT :: MatcherConfig where
  "DEFAULT = \<lparr> cfg_name = ''default'', large_look = 9, large_step = 3, small_look = 4,
     small_chain = 8, small_lchain = 2, max_lazy = 36, long_enough = 70 \<rparr>"

definition SLOW :: MatcherConfig where
  "SLOW = \<lparr> cfg_name = ''slow'', large_look = 9, large_step = 2, small_look = 4,
     small_chain = 44, small_lchain = 13, max_lazy = 90, long_enough = 70 \<rparr>"

definition config_for_level :: "u32 \<Rightarrow> MatcherConfig" where
  "config_for_level level =
     (if level = 0 \<or> level = 1 then FASTEST
      else if level = 2 then FASTER
      else if 3 \<le> level \<and> level \<le> 5 then FAST
      else if level = 6 then DEFAULT
      else SLOW)"

text \<open>What the engine relies on in a profile.\<close>

definition config_ok :: "MatcherConfig \<Rightarrow> bool" where
  "config_ok c \<longleftrightarrow> small_look c = 4 \<and> small_look c \<le> large_look c \<and> 0 < large_step c
     \<and> 0 < small_chain c \<and> 0 < small_lchain c"

lemma config_ok_level [simp]: "config_ok (config_for_level level)"
  by (simp add: config_for_level_def config_ok_def FASTEST_def FASTER_def FAST_def DEFAULT_def SLOW_def)

section \<open>Small checksum\<close>

definition HASH_MULT_32 :: u32 where "HASH_MULT_32 = 1597334677"
definition HASH_CKOFFSET :: u64 where "HASH_CKOFFSET = 1"

definition read_u32_ne :: "byte list \<Rightarrow> (u32, 'e) res" where
  "read_u32_ne data =
     (if 4 \<le> length data
      then Ok (ucast (data ! 0) OR push_bit 8 (ucast (data ! 1)) OR push_bit 16 (ucast (data ! 2))
               OR push_bit 24 (ucast (data ! 3)))
      else Panic)"

definition small_cksum :: "byte list \<Rightarrow> (u32, 'e) res" where
  "small_cksum base = bindR (read_u32_ne base) (\<lambda>val. Ok (val * HASH_MULT_32))"

definition small_cksum_update :: "byte list \<Rightarrow> (u32, 'e) res" where
  "small_cksum_update base =
     bindR (slice_from base 1) (\<lambda>b. bindR (read_u32_ne b) (\<lambda>val. Ok (val * HASH_MULT_32)))"

definition small_cksum_at :: "byte list \<Rightarrow> (u32, 'e) res" where
  "small_cksum_at ptr = bindR (read_u32_ne ptr) (\<lambda>val. Ok (val * HASH_MULT_32))"

section \<open>Large checksum\<close>

definition SINGLE_HASH :: "u16 list" where
  "SINGLE_HASH =
    [0xbcd1, 0xbb65, 0x42c2, 0xdffe, 0x9666, 0x431b, 0x8504, 0xeb46, 0x6379, 0xd460, 0xcf14, 0x53cf,
     0xdb51, 0xdb08, 0x12c8, 0xf602, 0xe766, 0x2394, 0x250d, 0xdcbb, 0xa678, 0x02af, 0xa5c6, 0x7ea6,
     0xb645, 0xcb4d, 0xc44b, 0xe5dc, 0x9fe6, 0x5b5c, 0x35f5, 0x701a, 0x220f, 0x6c38, 0x1a56, 0x4ca3,
     0xffc6, 0xb152, 0x8d61, 0x7a58, 0x9025, 0x8b3d, 0xbf0f, 0x95a3, 0xe5f4, 0xc127, 0x3bed, 0x320b,
     0xb7f3, 0x6054, 0x333c, 0xd383, 0x8154, 0x5242, 0x4e0d, 0x0a94, 0x7028, 0x8689, 0x3a22, 0x0980,
     0x1847, 0xb0f1, 0x9b5c, 0x4176, 0xb858, 0xd542, 0x1f6c, 0x2497, 0x6a5a, 0x9fa9, 0x8c5a, 0x7743,
     0xa8a9, 0x9a02, 0x4918, 0x438c, 0xc388, 0x9e2b, 0x4cad, 0x01b6, 0xab19, 0xf777, 0x365f, 0x1eb2,
     0x091e, 0x7bf8, 0x7a8e, 0x5227, 0xeab1, 0x2074, 0x4523, 0xe781, 0x01a3, 0x163d, 0x3b2e, 0x287d,
     0x5e7f, 0xa063, 0xb134, 0x8fae, 0x5e8e, 0xb7b7, 0x4548, 0x1f5a, 0xfa56, 0x7a24, 0x900f, 0x42dc,
     0xcc69, 0x02a0, 0x0b22, 0xdb31, 0x71fe, 0x0c7d, 0x1732, 0x1159, 0xcb09, 0xe1d2, 0x1351, 0x52e9,
     0xf536, 0x5a4f, 0xc316, 0x6bf9, 0x8994, 0xb774, 0x5f3e, 0xf6d6, 0x3a61, 0xf82c, 0xcc22, 0x9d06,
     0x299c, 0x09e5, 0x1eec, 0x514f, 0x8d53, 0xa650, 0x5c6e, 0xc577, 0x7958, 0x71ac, 0x8916, 0x9b4f,
     0x2c09, 0x5211, 0xf6d8, 0xcaaa, 0xf7ef, 0x287f, 0x7a94, 0xab49, 0xfa2c, 0x7222, 0xe457, 0xd71a,
     0x00c3, 0x1a76, 0xe98c, 0xc037, 0x8208, 0x5c2d, 0xdfda, 0xe5f5, 0x0b45, 0x15ce, 0x8a7e, 0xfcad,
     0xaa2d, 0x4b5c, 0xd42e, 0xb251, 0x907e, 0x9a47, 0xc9a6, 0xd93f, 0x085e, 0x35ce, 0xa153, 0x7e7b,
     0x9f0b, 0x25aa, 0x5d9f, 0xc04d, 0x8a0e, 0x2875, 0x4a1c, 0x295f, 0x1393, 0xf760, 0x9178, 0x0f5b,
     0xfa7d, 0x83b4, 0x2082, 0x721d, 0x6462, 0x0368, 0x67e2, 0x8624, 0x194d, 0x22f6, 0x78fb, 0x6791,
     0xb238, 0xb332, 0x7276, 0xf272, 0x47ec, 0x4504, 0xa961, 0x9fc8, 0x3fdc, 0xb413, 0x007a, 0x0806,
     0x7458, 0x95c6, 0xccaa, 0x18d6, 0xe2ae, 0x1b06, 0xf3f6, 0x5050, 0xc8e8, 0xf4ac, 0xc04c, 0xf41c,
     0x992f, 0xae44, 0x5f1b, 0x1113, 0x1738, 0xd9a8, 0x19ea, 0x2d33, 0x9698, 0x2fe9, 0x323f, 0xcde2,
     0x6d71, 0xe37d, 0xb697, 0x2c4f, 0x4373, 0x9102, 0x075d, 0x8e25, 0x1672, 0xec28, 0x6acb, 0x86cc,
     0x186e, 0x9414, 0xd674, 0xd1a5]"

record LargeHash =
  look :: nat
  look_u32 :: u32

definition LargeHash_new :: "nat \<Rightarrow> LargeHash" where
  "LargeHash_new l = \<lparr> look = l, look_u32 = of_nat l \<rparr>"

definition single_hash :: "byte \<Rightarrow> u32" where
  "single_hash b = ucast (SINGLE_HASH ! unat b)"

definition LargeHash_checksum :: "LargeHash \<Rightarrow> byte list \<Rightarrow> (u64, 'e) res" where
  "LargeHash_checksum lh base =
     bindR (slice_range base 0 (look lh)) (\<lambda>bs.
     case foldl (\<lambda>(low, high) b. let low = low + single_hash b; high = high + low in (low, high))
            (0 :: u32, 0 :: u32) bs of
       (low, high) \<Rightarrow> Ok (ucast (push_bit 16 (high AND 0xFFFF) OR (low AND 0xFFFF))))"

text \<open>The arithmetic that \<open>update\<close> and \<open>update_at\<close> share.\<close>

definition roll_cksum :: "LargeHash \<Rightarrow> u64 \<Rightarrow> byte \<Rightarrow> byte \<Rightarrow> u64" where
  "roll_cksum lh old b_out b_in =
     (let cksum = ucast old :: u32;
          old_c = single_hash b_out;
          new_c = single_hash b_in;
          low = (cksum - old_c + new_c) AND 0xFFFF;
          high = (drop_bit 16 cksum - old_c * look_u32 lh + low) AND 0xFFFF
      in ucast (push_bit 16 high OR low))"

definition LargeHash_update :: "LargeHash \<Rightarrow> u64 \<Rightarrow> byte list \<Rightarrow> (u64, 'e) res" where
  "LargeHash_update lh old base =
     bindR (index_at base 0) (\<lambda>b0. bindR (index_at base (look lh)) (\<lambda>b1. Ok (roll_cksum lh old b0 b1)))"

definition LargeHash_update_at :: "LargeHash \<Rightarrow> u64 \<Rightarrow> byte list \<Rightarrow> (u64, 'e) res" where
  "LargeHash_update_at lh old ptr =
     bindR (index_at ptr 0) (\<lambda>b0. bindR (index_at ptr (look lh)) (\<lambda>b1. Ok (roll_cksum lh old b0 b1)))"

section \<open>Table geometry\<close>

record HashCfg =
  hc_size :: nat
  hc_shift :: nat
  hc_mask :: u64

fun size_bits_from :: "nat \<Rightarrow> nat \<Rightarrow> nat \<Rightarrow> nat" where
  "size_bits_from 0 i slots = 28"
| "size_bits_from (Suc k) i slots = (if slots < 2 ^ i then i - 1 else size_bits_from k (Suc i) slots)"

text \<open>\<open>for i in 3..=28\<close>: 26 turns.\<close>

definition size_hashtable_bits :: "nat \<Rightarrow> nat" where
  "size_hashtable_bits slots = size_bits_from 26 3 slots"

definition HashCfg_new :: "nat \<Rightarrow> HashCfg" where
  "HashCfg_new slots =
     (let bits = size_hashtable_bits slots; sz = 2 ^ bits
      in \<lparr> hc_size = sz, hc_shift = 32 - bits, hc_mask = of_nat sz - 1 \<rparr>)"

definition bucket :: "HashCfg \<Rightarrow> u64 \<Rightarrow> nat" where
  "bucket cfg cksum =
     (let c = ucast (ucast cksum :: u32) :: u64
      in unat (drop_bit (hc_shift cfg) c XOR (c AND hc_mask cfg)))"

section \<open>Run detection\<close>

definition comprun :: "byte list \<Rightarrow> nat \<Rightarrow> nat \<times> byte" where
  "comprun seg l = foldl (\<lambda>(run_l, run_c) b. if b = run_c then (run_l + 1, run_c) else (1, b)) (0, 0) (take l seg)"

section \<open>Lemmas\<close>

subsection \<open>The rolling checksum rolls\<close>

lemma and_FFFF_cong: "((x :: u32) AND 0xFFFF = y AND 0xFFFF) \<longleftrightarrow> uint x mod 65536 = uint y mod 65536"
proof -
  have m: "uint ((z :: u32) AND 0xFFFF) = uint z mod 65536" for z
  proof -
    have "z AND 0xFFFF = take_bit 16 z" by (simp add: take_bit_eq_mask mask_eq_exp_minus_1)
    moreover have "uint (take_bit 16 z) = take_bit 16 (uint z)" by (rule unsigned_take_bit_eq)
    ultimately show ?thesis by (simp only: take_bit_eq_mod) simp
  qed
  show ?thesis by (metis m word_uint_eqI)
qed

lemma u32_mod_ops:
  "uint (a + b :: u32) mod 65536 = (uint a mod 65536 + uint b mod 65536) mod 65536"
  "uint (a - b :: u32) mod 65536 = (uint a mod 65536 - uint b mod 65536) mod 65536"
  by (simp_all add: uint_word_ariths mod_mod_cancel mod_simps)

fun wsum :: "byte list \<Rightarrow> u32" where
  "wsum [] = 0"
| "wsum (b # bs) = of_nat (Suc (length bs)) * single_hash b + wsum bs"

definition hsum :: "byte list \<Rightarrow> u32" where
  "hsum bs = sum_list (map single_hash bs)"

lemma cksum_fold:
  "foldl (\<lambda>(low, high) b. (low + single_hash b, high + (low + single_hash b))) (l, h) bs
     = (l + hsum bs, h + of_nat (length bs) * l + wsum bs)"
  by (induction bs arbitrary: l h) (simp_all add: hsum_def algebra_simps)

lemma wsum_snoc: "wsum (bs @ [b]) = wsum bs + hsum bs + single_hash b"
  by (induction bs) (simp_all add: hsum_def algebra_simps)

definition pack16 :: "u32 \<Rightarrow> u32 \<Rightarrow> u32" where
  "pack16 h l = push_bit 16 (h AND 0xFFFF) OR (l AND 0xFFFF)"

lemma and_FFFF: "(x :: u32) AND 0xFFFF = take_bit 16 x"
  by (simp add: take_bit_eq_mask mask_eq_exp_minus_1)

lemma pack16_low: "pack16 h l AND 0xFFFF = l AND 0xFFFF"
  unfolding pack16_def and_FFFF by (rule bit_word_eqI) (auto simp: bit_simps)

lemma pack16_high: "drop_bit 16 (pack16 h l) = h AND 0xFFFF"
  unfolding pack16_def and_FFFF by (rule bit_word_eqI) (auto simp: bit_simps)

lemma LargeHash_checksum_eq:
  "look lh \<le> length base \<Longrightarrow> LargeHash_checksum lh base
     = Ok (ucast (pack16 (wsum (take (look lh) base)) (hsum (take (look lh) base))))"
  by (simp add: LargeHash_checksum_def Let_def cksum_fold pack16_def)

lemma roll_cksum_eq:
  assumes "look_u32 lh = of_nat (Suc (length mid))"
  shows "roll_cksum lh (ucast (pack16 (wsum (b0 # mid)) (hsum (b0 # mid)))) b0 b1
     = ucast (pack16 (wsum (mid @ [b1])) (hsum (mid @ [b1])))"
proof -
  let ?c = "pack16 (wsum (b0 # mid)) (hsum (b0 # mid))"
  let ?low = "(?c - single_hash b0 + single_hash b1) AND 0xFFFF"
  have c: "ucast (ucast ?c :: u64) = ?c" by (rule bit_word_eqI) (simp add: bit_simps)
  have l: "?low = hsum (mid @ [b1]) AND 0xFFFF"
  proof -
    have "uint ?c mod 65536 = uint (hsum (b0 # mid)) mod 65536"
      using pack16_low and_FFFF_cong by blast
    then have "uint (?c - single_hash b0 + single_hash b1) mod 65536
        = uint (hsum (b0 # mid) - single_hash b0 + single_hash b1) mod 65536"
      by (simp only: u32_mod_ops)
    then show ?thesis by (simp add: and_FFFF_cong hsum_def algebra_simps)
  qed
  have h: "(drop_bit 16 ?c - single_hash b0 * look_u32 lh + (hsum (mid @ [b1]) AND 0xFFFF)) AND 0xFFFF
      = wsum (mid @ [b1]) AND 0xFFFF"
  proof -
    have "uint (wsum (b0 # mid) AND 0xFFFF) mod 65536 = uint (wsum (b0 # mid)) mod 65536"
      "uint (hsum (mid @ [b1]) AND 0xFFFF) mod 65536 = uint (hsum (mid @ [b1])) mod 65536"
      by (simp_all flip: and_FFFF_cong)
    then have "uint (drop_bit 16 ?c - single_hash b0 * look_u32 lh + (hsum (mid @ [b1]) AND 0xFFFF)) mod 65536
        = uint (wsum (b0 # mid) - single_hash b0 * look_u32 lh + hsum (mid @ [b1])) mod 65536"
      unfolding pack16_high by (simp only: u32_mod_ops)
    moreover have "wsum (b0 # mid) - single_hash b0 * look_u32 lh + hsum (mid @ [b1]) = wsum (mid @ [b1])"
      by (simp add: assms wsum_snoc hsum_def algebra_simps)
    ultimately show ?thesis by (simp add: and_FFFF_cong)
  qed
  show ?thesis unfolding roll_cksum_def c Let_def l h by (simp only: pack16_def)
qed

subsection \<open>Bucket indices\<close>

lemma size_bits_from_bounds: "3 \<le> i \<Longrightarrow> i + k = 29 \<Longrightarrow> 2 \<le> size_bits_from k i slots \<and> size_bits_from k i slots \<le> 28"
  by (induction k i slots rule: size_bits_from.induct) auto

lemma size_hashtable_bits_bounds: "2 \<le> size_hashtable_bits slots" "size_hashtable_bits slots \<le> 28"
  using size_bits_from_bounds [of 3 26 slots] by (simp_all add: size_hashtable_bits_def)

lemma bucket_less: "bucket (HashCfg_new slots) cksum < hc_size (HashCfg_new slots)"
proof -
  let ?b = "size_hashtable_bits slots" and ?c = "ucast (ucast cksum :: u32) :: u64"
  note b = size_hashtable_bits_bounds [of slots]
  have "(of_nat (2 ^ ?b) :: u64) - 1 = mask ?b" by (simp add: mask_eq_exp_minus_1)
  moreover define w where "w = drop_bit (32 - ?b) ?c XOR (?c AND (of_nat (2 ^ ?b) - 1))"
  ultimately have "w = take_bit ?b w"
    using b by (intro bit_word_eqI) (auto simp: bit_simps)
  moreover have "unat (take_bit ?b w) = take_bit ?b (unat w)" by (rule unsigned_take_bit_eq)
  ultimately have "unat w < 2 ^ ?b" by (metis take_bit_nat_less_exp)
  then show ?thesis by (simp add: bucket_def HashCfg_new_def Let_def w_def)
qed

subsection \<open>Runs\<close>

text \<open>\<open>run_tail seg l n c\<close>: the last \<open>n\<close> of the first \<open>l\<close> bytes are all \<open>c\<close>.\<close>

definition run_tail :: "byte list \<Rightarrow> nat \<Rightarrow> nat \<Rightarrow> byte \<Rightarrow> bool" where
  "run_tail seg l n c \<longleftrightarrow> (\<forall>j < n. j < l \<longrightarrow> seg ! (l - 1 - j) = c)"

lemma comprun_run: "l \<le> length seg \<Longrightarrow> comprun seg l = (n, c) \<Longrightarrow> n \<le> l \<and> run_tail seg l n c"
proof (induction l arbitrary: n c)
  case 0
  then show ?case by (simp add: comprun_def run_tail_def)
next
  case (Suc l)
  obtain n0 c0 where p: "comprun seg l = (n0, c0)" by (cases "comprun seg l")
  have IH: "n0 \<le> l" "run_tail seg l n0 c0" using Suc.IH [OF _ p] Suc.prems(1) by auto
  have s: "comprun seg (Suc l) = (if seg ! l = c0 then (n0 + 1, c0) else (1, seg ! l))"
    using Suc.prems(1) p by (simp add: comprun_def take_Suc_conv_app_nth)
  show ?case
  proof (cases "seg ! l = c0")
    case True
    then have "n = Suc n0" "c = c0" using s Suc.prems(2) by auto
    moreover have "seg ! (l - j) = c0" if "j < Suc n0" for j
      using IH(2) True that IH(1) by (cases j) (auto simp: run_tail_def)
    ultimately show ?thesis using IH(1) by (simp add: run_tail_def)
  next
    case False
    then show ?thesis using s Suc.prems(2) by (auto simp: run_tail_def)
  qed
qed

section \<open>Properties\<close>

text \<open>
  C31: The large checksum rolls. For every window width and every slice longer than it, updating
  the checksum of the first window by the byte that leaves and the byte that enters, in either
  form, gives exactly the checksum computed afresh one byte further.
\<close>

theorem large_hash_rolls:
  assumes "0 < l" and "l < length base"
  shows "\<exists>c. LargeHash_checksum (LargeHash_new l) base = (Ok c :: (_, unit) res)
     \<and> LargeHash_update (LargeHash_new l) c base = (LargeHash_checksum (LargeHash_new l) (drop 1 base) :: (_, unit) res)
     \<and> LargeHash_update_at (LargeHash_new l) c base = (LargeHash_checksum (LargeHash_new l) (drop 1 base) :: (_, unit) res)"
proof -
  obtain b0 rest where base: "base = b0 # rest" using assms by (cases base) auto
  obtain k where l: "l = Suc k" using assms(1) by (cases l) auto
  let ?mid = "take k rest" and ?b1 = "rest ! k"
  have k: "k < length rest" using assms(2) base l by simp
  have lh: "look_u32 (LargeHash_new l) = of_nat (Suc (length ?mid))" "look (LargeHash_new l) = Suc k"
    using k l by (simp_all add: LargeHash_new_def)
  let ?c = "ucast (pack16 (wsum (b0 # ?mid)) (hsum (b0 # ?mid))) :: u64"
  have 1: "LargeHash_checksum (LargeHash_new l) base = (Ok ?c :: (_, unit) res)"
    by (subst LargeHash_checksum_eq) (use k lh base in simp_all)
  have "take (Suc k) rest = ?mid @ [?b1]" using k by (simp add: take_Suc_conv_app_nth)
  then have "LargeHash_checksum (LargeHash_new l) (drop 1 base)
      = (Ok (ucast (pack16 (wsum (?mid @ [?b1])) (hsum (?mid @ [?b1])))) :: (_, unit) res)"
    by (subst LargeHash_checksum_eq) (use k lh base in simp_all)
  with 1 roll_cksum_eq [OF lh(1), of b0 ?b1] k base lh(2) show ?thesis
    by (simp add: LargeHash_update_def LargeHash_update_at_def)
qed

theorem large_hash_rolls_witness:
  "\<exists>c. LargeHash_checksum (LargeHash_new 2) [10, 20, 30] = (Ok c :: (_, unit) res)
     \<and> LargeHash_update (LargeHash_new 2) c [10, 20, 30]
       = (LargeHash_checksum (LargeHash_new 2) [20, 30] :: (_, unit) res)"
  using large_hash_rolls [of 2 "[10, 20, 30]"] by auto

end
