(* ===== verification/Hash_Table.thy ===== *)
theory Hash_Table
  imports Rolling
begin

text \<open>
  The two position tables of the match engine, \<open>src/src/hash/table.rs\<close>. The source reads and
  writes them with \<open>get_unchecked\<close>; in the model an index outside the vector is \<open>Panic\<close>, so that
  the lemmas that no operation panics are the memory safety of those accesses.
\<close>

section \<open>Definitions\<close>

record SmallTable =
  st_table :: "u32 list"
  st_cfg :: HashCfg
  st_prev :: "u32 list option"
  prev_mask :: nat

definition SmallTable_new :: "nat \<Rightarrow> nat \<Rightarrow> SmallTable" where
  "SmallTable_new slots sprevsz =
     (let cfg = HashCfg_new slots
      in \<lparr> st_table = replicate (hc_size cfg) 0, st_cfg = cfg,
           st_prev = (if 0 < sprevsz then Some (replicate sprevsz 0) else None),
           prev_mask = (if 0 < sprevsz then sprevsz - 1 else 0) \<rparr>)"

definition SmallTable_reset :: "SmallTable \<Rightarrow> SmallTable" where
  "SmallTable_reset t = t\<lparr> st_table := replicate (length (st_table t)) 0,
     st_prev := map_option (\<lambda>p. replicate (length p) 0) (st_prev t) \<rparr>"

definition SmallTable_lookup :: "SmallTable \<Rightarrow> u64 \<Rightarrow> (u64 option, 'e) res" where
  "SmallTable_lookup t cksum =
     bindR (index_at (st_table t) (bucket (st_cfg t) cksum)) (\<lambda>val.
     Ok (if val \<noteq> 0 then Some (ucast val - HASH_CKOFFSET) else None))"

text \<open>\<open>v[i] = x\<close> without a bounds check.\<close>

definition set_at :: "'a list \<Rightarrow> nat \<Rightarrow> 'a \<Rightarrow> ('a list, 'e) res" where
  "set_at xs i x = (if i < length xs then Ok (xs[i := x]) else Panic)"

definition prev_index :: "SmallTable \<Rightarrow> u64 \<Rightarrow> nat" where
  "prev_index t pos = unat (pos AND of_nat (prev_mask t))"

definition SmallTable_insert :: "SmallTable \<Rightarrow> u64 \<Rightarrow> u64 \<Rightarrow> (SmallTable, 'e) res" where
  "SmallTable_insert t cksum pos =
     (if 0xFFFFFFFF < pos + HASH_CKOFFSET then Ok t
      else
      let stored = ucast (pos + HASH_CKOFFSET) :: u32;
          b = bucket (st_cfg t) cksum
      in
      bindR (case st_prev t of
               Some prev \<Rightarrow>
                 bindR (index_at (st_table t) b) (\<lambda>old_head.
                 bindR (set_at prev (prev_index t pos) old_head) (\<lambda>prev.
                 Ok (t\<lparr> st_prev := Some prev \<rparr>)))
             | None \<Rightarrow> Ok t) (\<lambda>t.
      bindR (set_at (st_table t) b stored) (\<lambda>tab.
      Ok (t\<lparr> st_table := tab \<rparr>))))"

definition chain_prev :: "SmallTable \<Rightarrow> u64 \<Rightarrow> u64 \<Rightarrow> (u64 option, 'e) res" where
  "chain_prev t pos current_input_pos = (case st_prev t of
     None \<Rightarrow> Ok None
   | Some prev \<Rightarrow>
       bindR (index_at prev (prev_index t pos)) (\<lambda>prev_val.
       if prev_val = 0 then Ok None
       else
       let prev_pos = ucast prev_val - HASH_CKOFFSET in
       if pos < prev_pos then Ok None
       else
       let diff = current_input_pos - prev_pos in
       if of_nat (prev_mask t) < diff then Ok None else Ok (Some prev_pos)))"

definition SmallTable_size :: "SmallTable \<Rightarrow> nat" where
  "SmallTable_size t = hc_size (st_cfg t)"

record LargeTable =
  lt_table :: "u64 list"
  lt_cfg :: HashCfg

definition LargeTable_new :: "nat \<Rightarrow> LargeTable" where
  "LargeTable_new slots =
     (let cfg = HashCfg_new (max slots 8) in \<lparr> lt_table = replicate (hc_size cfg) 0, lt_cfg = cfg \<rparr>)"

definition LargeTable_lookup :: "LargeTable \<Rightarrow> u64 \<Rightarrow> (u64 option, 'e) res" where
  "LargeTable_lookup t cksum =
     bindR (index_at (lt_table t) (bucket (lt_cfg t) cksum)) (\<lambda>val.
     Ok (if val \<noteq> 0 then Some (val - HASH_CKOFFSET) else None))"

definition LargeTable_insert :: "LargeTable \<Rightarrow> u64 \<Rightarrow> u64 \<Rightarrow> (LargeTable, 'e) res" where
  "LargeTable_insert t cksum pos =
     bindR (set_at (lt_table t) (bucket (lt_cfg t) cksum) (pos + HASH_CKOFFSET)) (\<lambda>tab.
     Ok (t\<lparr> lt_table := tab \<rparr>))"

definition LargeTable_size :: "LargeTable \<Rightarrow> nat" where
  "LargeTable_size t = hc_size (lt_cfg t)"

section \<open>Invariants\<close>

definition small_ok :: "SmallTable \<Rightarrow> bool" where
  "small_ok t \<longleftrightarrow> (\<exists>slots. st_cfg t = HashCfg_new slots) \<and> length (st_table t) = hc_size (st_cfg t)
     \<and> (case st_prev t of None \<Rightarrow> True | Some p \<Rightarrow> length p = prev_mask t + 1 \<and> int (prev_mask t) < 2 ^ 63)"

definition large_ok :: "LargeTable \<Rightarrow> bool" where
  "large_ok t \<longleftrightarrow> (\<exists>slots. lt_cfg t = HashCfg_new slots) \<and> length (lt_table t) = hc_size (lt_cfg t)"

lemma small_ok_new: "int sprevsz < 2 ^ 63 \<Longrightarrow> small_ok (SmallTable_new slots sprevsz)"
  by (auto simp: small_ok_def SmallTable_new_def Let_def)

lemma small_ok_reset: "small_ok t \<Longrightarrow> small_ok (SmallTable_reset t)"
  by (auto simp: small_ok_def SmallTable_reset_def split: option.splits)

lemma large_ok_new: "large_ok (LargeTable_new slots)"
  by (auto simp: large_ok_def LargeTable_new_def Let_def)

lemma small_bucket_less: "small_ok t \<Longrightarrow> bucket (st_cfg t) c < length (st_table t)"
  using bucket_less by (auto simp: small_ok_def)

lemma large_bucket_less: "large_ok t \<Longrightarrow> bucket (lt_cfg t) c < length (lt_table t)"
  using bucket_less by (auto simp: large_ok_def)

lemma prev_index_less:
  assumes "small_ok t" "st_prev t = Some p"
  shows "prev_index t pos < length p"
proof -
  have "unat (pos AND of_nat (prev_mask t)) \<le> unat (of_nat (prev_mask t) :: u64)"
    by (simp add: word_le_nat_alt [symmetric] word_and_le1)
  also have "\<dots> = prev_mask t" using assms by (intro unat_of_nat_id) (simp add: small_ok_def)
  finally show ?thesis using assms by (simp add: small_ok_def prev_index_def)
qed

section \<open>Operations\<close>

lemma SmallTable_lookup_eq: "small_ok t \<Longrightarrow> SmallTable_lookup t c
    = Ok (let val = st_table t ! bucket (st_cfg t) c in if val \<noteq> 0 then Some (ucast val - 1) else None)"
  using small_bucket_less by (simp add: SmallTable_lookup_def HASH_CKOFFSET_def Let_def)

definition small_inserted :: "SmallTable \<Rightarrow> u64 \<Rightarrow> u64 \<Rightarrow> SmallTable" where
  "small_inserted t c pos =
     (if 0xFFFFFFFF < pos + 1 then t
      else t\<lparr> st_prev := map_option (\<lambda>p. p[prev_index t pos := st_table t ! bucket (st_cfg t) c]) (st_prev t),
              st_table := (st_table t)[bucket (st_cfg t) c := ucast (pos + 1)] \<rparr>)"

lemma SmallTable_insert_eq:
  assumes "small_ok t"
  shows "SmallTable_insert t c pos = Ok (small_inserted t c pos)"
  using small_bucket_less [OF assms, of c] prev_index_less [OF assms, of _ pos]
  by (cases "st_prev t") (auto simp: SmallTable_insert_def small_inserted_def set_at_def HASH_CKOFFSET_def Let_def)

lemma small_ok_inserted: "small_ok t \<Longrightarrow> small_ok (small_inserted t c pos)"
  by (cases "st_prev t") (auto simp: small_ok_def small_inserted_def)

lemma chain_prev_total: "small_ok t \<Longrightarrow> \<exists>r. chain_prev t pos cur = (Ok r :: (_, 'e) res)"
  using prev_index_less [of t _ pos] by (cases "st_prev t") (auto simp: chain_prev_def Let_def)

lemma LargeTable_lookup_eq: "large_ok t \<Longrightarrow> LargeTable_lookup t c
    = Ok (let val = lt_table t ! bucket (lt_cfg t) c in if val \<noteq> 0 then Some (val - 1) else None)"
  using large_bucket_less by (simp add: LargeTable_lookup_def HASH_CKOFFSET_def Let_def)

definition large_inserted :: "LargeTable \<Rightarrow> u64 \<Rightarrow> u64 \<Rightarrow> LargeTable" where
  "large_inserted t c pos = t\<lparr> lt_table := (lt_table t)[bucket (lt_cfg t) c := pos + 1] \<rparr>"

lemma LargeTable_insert_eq: "large_ok t \<Longrightarrow> LargeTable_insert t c pos = Ok (large_inserted t c pos)"
  using large_bucket_less by (simp add: LargeTable_insert_def large_inserted_def set_at_def HASH_CKOFFSET_def)

lemma large_ok_inserted: "large_ok t \<Longrightarrow> large_ok (large_inserted t c pos)"
  by (simp add: large_ok_def large_inserted_def)

section \<open>The index interface\<close>

text \<open>
  What both tables promise: a lookup sees the last storable position inserted under a checksum
  of the same bucket, and no operation leaves the vectors.
\<close>

locale position_index =
  fixes invar :: "'t \<Rightarrow> bool" and slot :: "'t \<Rightarrow> u64 \<Rightarrow> nat" and storable :: "u64 \<Rightarrow> bool"
    and lookup :: "'t \<Rightarrow> u64 \<Rightarrow> (u64 option, 'e) res"
    and insert :: "'t \<Rightarrow> u64 \<Rightarrow> u64 \<Rightarrow> ('t, 'e) res"
  assumes lookup_total: "invar t \<Longrightarrow> \<exists>r. lookup t c = Ok r"
    and insert_total: "invar t \<Longrightarrow> \<exists>t'. insert t c pos = Ok t' \<and> invar t' \<and> slot t' = slot t"
    and lookup_insert_same: "invar t \<Longrightarrow> storable pos \<Longrightarrow> insert t c pos = Ok t' \<Longrightarrow> slot t c' = slot t c \<Longrightarrow>
      lookup t' c' = Ok (Some pos)"
    and lookup_insert_other: "invar t \<Longrightarrow> insert t c pos = Ok t' \<Longrightarrow> slot t c' \<noteq> slot t c \<Longrightarrow>
      lookup t' c' = lookup t c'"
begin

definition inserts :: "(u64 \<times> u64) list \<Rightarrow> 't \<Rightarrow> ('t, 'e) res" where
  "inserts kvs t = for_each (\<lambda>(c, pos) t. insert t c pos) kvs t"

lemma inserts_lookup:
  assumes "invar t" "\<forall>(c, pos) \<in> set kvs. storable pos"
  shows "\<exists>t'. inserts kvs t = Ok t' \<and> invar t' \<and> slot t' = slot t
     \<and> (\<forall>c. lookup t' c = (case filter (\<lambda>(k, _). slot t k = slot t c) kvs of
           [] \<Rightarrow> lookup t c | xs \<Rightarrow> Ok (Some (snd (last xs)))))"
  using assms
proof (induction kvs rule: rev_induct)
  case Nil
  then show ?case by (simp add: inserts_def)
next
  case (snoc kv kvs)
  obtain k pos where kv: "kv = (k, pos)" by (cases kv)
  from snoc obtain t1 where 1: "inserts kvs t = Ok t1" "invar t1" "slot t1 = slot t"
    "\<And>c. lookup t1 c = (case filter (\<lambda>(k, _). slot t k = slot t c) kvs of
           [] \<Rightarrow> lookup t c | xs \<Rightarrow> Ok (Some (snd (last xs))))" by auto
  obtain t2 where 2: "insert t1 k pos = Ok t2" "invar t2" "slot t2 = slot t1"
    using insert_total [OF 1(2)] by blast
  have st: "storable pos" using snoc.prems(2) kv by simp
  have "lookup t2 c = (case filter (\<lambda>(k, _). slot t k = slot t c) (kvs @ [kv]) of
           [] \<Rightarrow> lookup t c | xs \<Rightarrow> Ok (Some (snd (last xs))))" for c
  proof (cases "slot t c = slot t k")
    case True
    then have "lookup t2 c = Ok (Some pos)" using lookup_insert_same [OF 1(2) st 2(1)] 1(3) by simp
    moreover obtain x xs where "filter (\<lambda>(k, _). slot t k = slot t c) kvs @ [kv] = x # xs"
      by (cases "filter (\<lambda>(k, _). slot t k = slot t c) kvs") auto
    moreover from this have "last (x # xs) = kv" by (metis last_snoc)
    ultimately show ?thesis using True kv by (simp del: last.simps)
  next
    case False
    then show ?thesis using lookup_insert_other [OF 1(2) 2(1)] 1(3,4) kv by simp
  qed
  then show ?case using 1(1) 2 1(3) kv by (simp add: inserts_def for_each_append)
qed

end

lemma stored_pos:
  assumes "unat pos < 2 ^ 32 - 1"
  shows "\<not> 0xFFFFFFFF < pos + 1" "ucast (pos + 1) \<noteq> (0 :: u32)" "ucast (ucast (pos + 1) :: u32) = (pos + 1 :: u64)"
proof -
  have u: "unat (pos + 1) = unat pos + 1" using assms by (subst unat_add_no_wrap) simp_all
  then show "\<not> 0xFFFFFFFF < pos + 1" using assms by (simp add: word_less_nat_alt)
  have s: "unat (ucast (pos + 1) :: u32) = unat pos + 1"
    using assms u by (simp add: unsigned_ucast_eq take_bit_nat_eq_self)
  then show "ucast (pos + 1) \<noteq> (0 :: u32)" by (metis Suc_eq_plus1 nat.distinct(1) unat_0)
  show "ucast (ucast (pos + 1) :: u32) = (pos + 1 :: u64)"
    by (rule unsigned_word_eqI [where ?'a = nat]) (simp only: unat_ucast_u32 s u)
qed

interpretation small_index: position_index small_ok "\<lambda>t. bucket (st_cfg t)" "\<lambda>pos. unat pos < 2 ^ 32 - 1"
    SmallTable_lookup SmallTable_insert
proof unfold_locales
  fix t c pos c' t'
  assume t: "small_ok t"
  have cfg: "st_cfg (small_inserted t c pos) = st_cfg t" by (simp add: small_inserted_def)
  show "\<exists>r. SmallTable_lookup t c = Ok r" using SmallTable_lookup_eq [OF t] by blast
  show "\<exists>t'. SmallTable_insert t c pos = Ok t' \<and> small_ok t' \<and> bucket (st_cfg t') = bucket (st_cfg t)"
    by (intro exI [of _ "small_inserted t c pos"]) (simp add: SmallTable_insert_eq [OF t] small_ok_inserted [OF t] cfg)
  assume "SmallTable_insert t c pos = Ok t'"
  then have t': "t' = small_inserted t c pos" by (simp add: SmallTable_insert_eq [OF t])
  note lk = SmallTable_lookup_eq [OF small_ok_inserted [OF t]]
  show "SmallTable_lookup t' c' = Ok (Some pos)"
    if "unat pos < 2 ^ 32 - 1" "bucket (st_cfg t) c' = bucket (st_cfg t) c"
    using that small_bucket_less [OF t, of c] stored_pos [OF that(1)] unfolding t' lk cfg
    by (simp add: small_inserted_def)
  show "SmallTable_lookup t' c' = SmallTable_lookup t c'" if "bucket (st_cfg t) c' \<noteq> bucket (st_cfg t) c"
    using that unfolding t' lk cfg SmallTable_lookup_eq [OF t] by (simp add: small_inserted_def)
qed

interpretation large_index: position_index large_ok "\<lambda>t. bucket (lt_cfg t)" "\<lambda>pos. pos + 1 \<noteq> 0"
    LargeTable_lookup LargeTable_insert
proof unfold_locales
  fix t c pos c' t'
  assume t: "large_ok t"
  have cfg: "lt_cfg (large_inserted t c pos) = lt_cfg t" by (simp add: large_inserted_def)
  show "\<exists>r. LargeTable_lookup t c = Ok r" using LargeTable_lookup_eq [OF t] by blast
  show "\<exists>t'. LargeTable_insert t c pos = Ok t' \<and> large_ok t' \<and> bucket (lt_cfg t') = bucket (lt_cfg t)"
    by (intro exI [of _ "large_inserted t c pos"]) (simp add: LargeTable_insert_eq [OF t] large_ok_inserted [OF t] cfg)
  assume "LargeTable_insert t c pos = Ok t'"
  then have t': "t' = large_inserted t c pos" by (simp add: LargeTable_insert_eq [OF t])
  note lk = LargeTable_lookup_eq [OF large_ok_inserted [OF t]]
  show "LargeTable_lookup t' c' = Ok (Some pos)" if "pos + 1 \<noteq> 0" "bucket (lt_cfg t) c' = bucket (lt_cfg t) c"
    using that large_bucket_less [OF t, of c] unfolding t' lk cfg
    by (simp add: large_inserted_def)
  show "LargeTable_lookup t' c' = LargeTable_lookup t c'" if "bucket (lt_cfg t) c' \<noteq> bucket (lt_cfg t) c"
    using that unfolding t' lk cfg LargeTable_lookup_eq [OF t] by (simp add: large_inserted_def)
qed

section \<open>Properties\<close>

text \<open>
  C32: In the source table the last write of a bucket wins. After any sequence of insertions into a
  new table, of any size, no access was out of bounds, and a lookup returns the position inserted
  last among those whose checksum shares the bucket, or nothing when there is none.
\<close>

theorem large_table_last_write_wins:
  assumes "\<forall>(c, pos) \<in> set kvs. pos + 1 \<noteq> 0"
  shows "\<exists>t. for_each (\<lambda>(c, pos) t. LargeTable_insert t c pos) kvs (LargeTable_new slots) = (Ok t :: (_, unit) res)
     \<and> (\<forall>c. LargeTable_lookup t c = (Ok (case filter (\<lambda>(k, _). bucket (lt_cfg (LargeTable_new slots)) k
                                              = bucket (lt_cfg (LargeTable_new slots)) c) kvs of
           [] \<Rightarrow> None | xs \<Rightarrow> Some (snd (last xs))) :: (_, unit) res))"
proof -
  have "lt_table (LargeTable_new slots) ! bucket (lt_cfg (LargeTable_new slots)) c = 0" for c
    using large_bucket_less [OF large_ok_new, of slots c] by (simp add: LargeTable_new_def Let_def)
  then have new: "LargeTable_lookup (LargeTable_new slots) c = (Ok None :: (_, unit) res)" for c
    by (simp add: LargeTable_lookup_eq [OF large_ok_new] Let_def)
  from large_index.inserts_lookup [OF large_ok_new [of slots] assms, where 'a = unit] show ?thesis
    unfolding large_index.inserts_def by (auto simp: new split: list.splits)
qed

theorem large_table_last_write_wins_witness:
  "\<exists>t. for_each (\<lambda>(c, pos) t. LargeTable_insert t c pos) [(5, 7), (5, 9)] (LargeTable_new 8) = (Ok t :: (_, unit) res)
     \<and> LargeTable_lookup t 5 = (Ok (Some 9) :: (_, unit) res)"
proof -
  have "\<forall>(c, pos) \<in> set [(5 :: u64, 7 :: u64), (5, 9)]. pos + 1 \<noteq> 0" by simp
  from large_table_last_write_wins [OF this, of 8] show ?thesis by auto
qed

text \<open>
  C33: The target table chains positions. Inserting a position under a checksum makes it the head
  of its bucket, and following the chain from it gives the previous head, as long as that head is
  not newer and lies within the range the chain array covers. None of the unchecked accesses
  leaves its vector.
\<close>

theorem small_table_chains:
  assumes "small_ok t" and "unat pos < 2 ^ 32 - 1" and "st_prev t \<noteq> None"
    and "SmallTable_lookup t c = (Ok (Some h) :: (_, unit) res)" and "h \<le> pos"
    and "cur - h \<le> of_nat (prev_mask t)"
  shows "\<exists>t'. SmallTable_insert t c pos = (Ok t' :: (_, unit) res) \<and> small_ok t'
     \<and> SmallTable_lookup t' c = (Ok (Some pos) :: (_, unit) res)
     \<and> chain_prev t' pos cur = (Ok (Some h) :: (_, unit) res)"
proof -
  let ?t = "small_inserted t c pos"
  obtain p where p: "st_prev t = Some p" using assms(3) by blast
  have idx: "prev_index t pos < length p" using prev_index_less [OF assms(1) p] .
  have h: "st_table t ! bucket (st_cfg t) c \<noteq> 0" "h = ucast (st_table t ! bucket (st_cfg t) c) - 1"
    using assms(4) by (auto simp: SmallTable_lookup_eq [OF assms(1)] Let_def split: if_splits)
  have ins: "SmallTable_insert t c pos = (Ok ?t :: (_, unit) res)" by (rule SmallTable_insert_eq [OF assms(1)])
  have prev: "st_prev ?t = Some (p[prev_index t pos := st_table t ! bucket (st_cfg t) c])" "prev_mask ?t = prev_mask t"
      "prev_index ?t pos = prev_index t pos"
    using p stored_pos(1) [OF assms(2)] by (simp_all add: small_inserted_def prev_index_def)
  have "chain_prev ?t pos cur = (Ok (Some h) :: (_, unit) res)"
    using idx h assms(5,6) by (simp add: chain_prev_def prev HASH_CKOFFSET_def Let_def not_less)
  with ins small_ok_inserted [OF assms(1)] small_index.lookup_insert_same [OF assms(1,2) ins refl] show ?thesis
    by blast
qed

theorem small_table_chains_witness:
  "\<exists>t'. SmallTable_insert (small_inserted (SmallTable_new 4 16) 5 3) 5 6 = (Ok t' :: (_, unit) res)
     \<and> chain_prev t' 6 6 = (Ok (Some 3) :: (_, unit) res)"
proof -
  let ?t = "small_inserted (SmallTable_new 4 16) 5 3"
  have "small_ok ?t" by (intro small_ok_inserted small_ok_new) simp
  moreover have "st_prev ?t \<noteq> None" "prev_mask ?t = 15"
    by (simp_all add: small_inserted_def SmallTable_new_def Let_def)
  moreover have "SmallTable_lookup ?t 5 = (Ok (Some 3) :: (_, unit) res)"
    by (rule small_index.lookup_insert_same [OF _ _ SmallTable_insert_eq]) (auto intro!: small_ok_new)
  ultimately show ?thesis
    using small_table_chains [of ?t 6 5 3 6] by auto
qed

end
