(* ===== verification/Varint.thy ===== *)
theory Varint
  imports Oxi_Prelude
begin

text \<open>
  The variable-length integers of \<open>src/src/vcdiff/varint.rs\<close>: base 128, most significant group
  first, bit 7 set on every byte but the last. The encoder fills a 10-byte scratch buffer from
  its end; the decoders work on a slice (\<open>read_u64\<close>, \<open>read_u32\<close>) or on a stream
  (\<open>stream_read_u64\<close>, \<open>stream_read_u32\<close>) and reject values that do not fit. The theory
  relates them to the abstract encoding \<open>vint\<close> of a natural number and to the abstract
  value \<open>vval\<close> of a byte string.
\<close>

section \<open>Definitions\<close>

definition MAX_VARINT_LEN :: nat where
  "MAX_VARINT_LEN = 10"

definition U32_OVERFLOW_MASK :: u32 where
  "U32_OVERFLOW_MASK = 0xFE000000"

definition U64_OVERFLOW_MASK :: u64 where
  "U64_OVERFLOW_MASK = 0xFE00000000000000"

datatype VarIntError = Underflow | Overflow

subsection \<open>Encoding\<close>

text \<open>The loop of \<open>encode_u64\<close>; \<open>i -= 1\<close> below 0 and a store outside the buffer panic.\<close>

fun encode_u64_loop :: "u64 \<Rightarrow> byte list \<Rightarrow> nat \<Rightarrow> (byte list \<times> nat, 'e) res" where
  "encode_u64_loop num buf 0 = Panic"
| "encode_u64_loop num buf (Suc i) =
     (if length buf \<le> i then Panic
      else
        let buf' = buf[i := (ucast num AND 0x7F) OR 0x80];
            num' = drop_bit 7 num
        in if num' = 0 then Ok (buf', i) else encode_u64_loop num' buf' i)"

definition encode_u64 :: "u64 \<Rightarrow> byte list \<Rightarrow> (byte list \<times> nat, 'e) res" where
  "encode_u64 num buf =
     bindR (encode_u64_loop num buf MAX_VARINT_LEN) (\<lambda>(buf, i).
     bindR (index_at buf (MAX_VARINT_LEN - 1)) (\<lambda>b.
     Ok (buf[MAX_VARINT_LEN - 1 := b AND 0x7F], MAX_VARINT_LEN - i)))"

definition encode_u32 :: "u32 \<Rightarrow> byte list \<Rightarrow> (byte list \<times> nat, 'e) res" where
  "encode_u32 num buf = encode_u64 (ucast num) buf"

definition write_u64 :: "byte list \<Rightarrow> u64 \<Rightarrow> (byte list, 'e) res" where
  "write_u64 w num =
     bindR (encode_u64 num (replicate MAX_VARINT_LEN 0)) (\<lambda>(buf, len).
     bindR (slice_from buf (MAX_VARINT_LEN - len)) (\<lambda>s.
     Ok (write_all w s)))"

definition write_usize :: "byte list \<Rightarrow> u64 \<Rightarrow> (byte list, 'e) res" where
  "write_usize w num =
     bindR (encode_u64 num (replicate MAX_VARINT_LEN 0)) (\<lambda>(buf, len).
     bindR (slice_from buf (MAX_VARINT_LEN - len)) (\<lambda>s.
     Ok (write_all w s)))"

definition write_u32 :: "byte list \<Rightarrow> u32 \<Rightarrow> (byte list, 'e) res" where
  "write_u32 w num = write_u64 w (ucast num)"

subsection \<open>Decoding from slices\<close>

fun read_u64_loop :: "u64 \<Rightarrow> nat \<Rightarrow> byte list \<Rightarrow> (u64 \<times> nat, VarIntError) res" where
  "read_u64_loop val i [] = Err Underflow"
| "read_u64_loop val i (b # bs) =
     (if val AND U64_OVERFLOW_MASK \<noteq> 0 then Err Overflow
      else
        let val' = push_bit 7 val OR ucast (b AND 0x7F)
        in if b AND 0x80 = 0 then Ok (val', i + 1) else read_u64_loop val' (i + 1) bs)"

definition read_u64 :: "byte list \<Rightarrow> (u64 \<times> nat, VarIntError) res" where
  "read_u64 data = read_u64_loop 0 0 data"

fun read_u32_loop :: "u32 \<Rightarrow> nat \<Rightarrow> byte list \<Rightarrow> (u32 \<times> nat, VarIntError) res" where
  "read_u32_loop val i [] = Err Underflow"
| "read_u32_loop val i (b # bs) =
     (if val AND U32_OVERFLOW_MASK \<noteq> 0 then Err Overflow
      else
        let val' = push_bit 7 val OR ucast (b AND 0x7F)
        in if b AND 0x80 = 0 then Ok (val', i + 1) else read_u32_loop val' (i + 1) bs)"

definition read_u32 :: "byte list \<Rightarrow> (u32 \<times> nat, VarIntError) res" where
  "read_u32 data = read_u32_loop 0 0 data"

text \<open>On a 64-bit target \<open>usize::try_from\<close> of a \<open>u64\<close> always succeeds.\<close>

definition read_usize :: "byte list \<Rightarrow> (u64 \<times> nat, VarIntError) res" where
  "read_usize data = bindR (read_u64 data) (\<lambda>(val, len). Ok (val, len))"

subsection \<open>Decoding from a stream\<close>

text \<open>
  Each turn of the loop reads one byte, so the recursion is on the bytes the reader holds.
\<close>

fun stream_read_u64_loop :: "u64 \<Rightarrow> byte list \<Rightarrow> (u64 \<times> byte list, io_error) res" where
  "stream_read_u64_loop val [] = Err UnexpectedEof"
| "stream_read_u64_loop val (b # r) =
     (if val AND U64_OVERFLOW_MASK \<noteq> 0 then Err (InvalidData ''varint overflow'')
      else
        let val' = push_bit 7 val OR ucast (b AND 0x7F)
        in if b AND 0x80 = 0 then Ok (val', r) else stream_read_u64_loop val' r)"

definition stream_read_u64 :: "byte list \<Rightarrow> (u64 \<times> byte list, io_error) res" where
  "stream_read_u64 r = stream_read_u64_loop 0 r"

fun stream_read_u32_loop :: "u32 \<Rightarrow> byte list \<Rightarrow> (u32 \<times> byte list, io_error) res" where
  "stream_read_u32_loop val [] = Err UnexpectedEof"
| "stream_read_u32_loop val (b # r) =
     (if val AND U32_OVERFLOW_MASK \<noteq> 0 then Err (InvalidData ''varint overflow'')
      else
        let val' = push_bit 7 val OR ucast (b AND 0x7F)
        in if b AND 0x80 = 0 then Ok (val', r) else stream_read_u32_loop val' r)"

definition stream_read_u32 :: "byte list \<Rightarrow> (u32 \<times> byte list, io_error) res" where
  "stream_read_u32 r = stream_read_u32_loop 0 r"

definition stream_read_usize :: "byte list \<Rightarrow> (u64 \<times> byte list, io_error) res" where
  "stream_read_usize r = bindR (stream_read_u64 r) (\<lambda>(val, r). Ok (val, r))"

subsection \<open>Encoded size\<close>

text \<open>\<open>leading_zeros\<close>: the number of zero bits above the highest set bit.\<close>

definition leading_zeros :: "'w::len word \<Rightarrow> nat" where
  "leading_zeros w = length (takeWhile (\<lambda>i. \<not> bit w i) (rev [0..<LENGTH('w)]))"

definition div_ceil :: "nat \<Rightarrow> nat \<Rightarrow> nat" where
  "div_ceil a b = (if a mod b = 0 then a div b else a div b + 1)"

definition sizeof_u64 :: "u64 \<Rightarrow> nat" where
  "sizeof_u64 num = (let bits = 64 - leading_zeros num in min (div_ceil (max bits 1) 7) 10)"

definition sizeof_u32 :: "u32 \<Rightarrow> nat" where
  "sizeof_u32 num = (let bits = 32 - leading_zeros num in min (div_ceil (max bits 1) 7) 5)"

definition sizeof_usize :: "u64 \<Rightarrow> nat" where
  "sizeof_usize num = sizeof_u64 num"

section \<open>The abstract encoding\<close>

text \<open>
  \<open>vint n\<close> is the byte string RFC 3284 prescribes for \<open>n\<close>; \<open>vhigh n\<close> its bytes before the
  last. \<open>vval\<close> reads a byte string as a base-128 number, whatever its flag bits.
  \<open>terminated\<close> says that a byte string is one whole integer: bit 7 is clear on the last
  byte only.
\<close>

fun vhigh :: "nat \<Rightarrow> byte list" where
  "vhigh n = (if n = 0 then [] else vhigh (n div 128) @ [of_nat (n mod 128) OR 0x80])"

declare vhigh.simps [simp del]

definition vint :: "nat \<Rightarrow> byte list" where
  "vint n = vhigh (n div 128) @ [of_nat (n mod 128)]"

definition vval :: "byte list \<Rightarrow> nat" where
  "vval bs = foldl (\<lambda>v b. v * 128 + unat (b AND 0x7F)) 0 bs"

definition terminated :: "byte list \<Rightarrow> bool" where
  "terminated bs \<longleftrightarrow>
     bs \<noteq> [] \<and> (\<forall>b \<in> set (butlast bs). b AND 0x80 \<noteq> 0) \<and> last bs AND 0x80 = 0"

section \<open>Lemmas\<close>

lemma byte_and_7F: "(b::byte) AND 0x7F = take_bit 7 b"
  by (simp add: take_bit_eq_mask mask_eq_exp_minus_1)
lemma byte_and_80: "(b::byte) AND 0x80 = 0 \<longleftrightarrow> \<not> bit b 7"
  using and_exp_eq_0_iff_not_bit [of b 7] by simp
lemma unat_byte_low: "unat ((b::byte) AND 0x7F) = unat b mod 128"
proof -
  have "unat (take_bit 7 b) = take_bit 7 (unat b)"
    by (rule unsigned_take_bit_eq)
  then show ?thesis
    by (simp only: byte_and_7F take_bit_eq_mod) simp
qed

lemma drop_bit_eq_0_iff: "drop_bit k (w :: 'w::len word) = 0 \<longleftrightarrow> unat w < 2 ^ k"
proof -
  have "drop_bit k w = 0 \<longleftrightarrow> unat (drop_bit k w) = 0"
    by (rule unat_eq_zero [symmetric])
  also have "unat (drop_bit k w) = unat w div 2 ^ k"
    by (rule trans [OF unat_drop_bit_eq drop_bit_eq_div])
  finally show ?thesis by (simp add: div_eq_0_iff)
qed

lemma and_high_mask:
  fixes w :: "'w::len word"
  assumes "k \<le> LENGTH('w)"
  shows "w AND push_bit k (mask (LENGTH('w) - k)) = 0 \<longleftrightarrow> unat w < 2 ^ k"
proof -
  have *: "bit (w AND push_bit k (mask (LENGTH('w) - k))) n \<longleftrightarrow> k \<le> n \<and> bit w n" for n
    using assms bit_imp_le_length [of w n] by (auto simp: bit_simps)
  have "w AND push_bit k (mask (LENGTH('w) - k)) = 0 \<longleftrightarrow> (\<forall>n. k \<le> n \<longrightarrow> \<not> bit w n)"
    unfolding bit_eq_iff * by (auto dest: bit_imp_le_length)
  also have "\<dots> \<longleftrightarrow> (\<forall>n. \<not> bit w (k + n))"
    by (auto simp: le_iff_add)
  also have "\<dots> \<longleftrightarrow> drop_bit k w = 0"
  proof
    assume "\<forall>n. \<not> bit w (k + n)"
    then show "drop_bit k w = 0" by (intro bit_word_eqI) (simp add: bit_drop_bit_eq)
  next
    assume d: "drop_bit k w = 0"
    then have "bit (drop_bit k w) n = bit (0 :: 'w word) n" for n by simp
    then show "\<forall>n. \<not> bit w (k + n)" by (simp add: bit_drop_bit_eq)
  qed
  finally show ?thesis by (simp add: drop_bit_eq_0_iff)
qed

lemma and_U64_OVERFLOW_MASK: "val AND U64_OVERFLOW_MASK = 0 \<longleftrightarrow> unat val < 2 ^ 57"
  using and_high_mask [of 57 val]
  by (simp add: U64_OVERFLOW_MASK_def push_bit_eq_mult mask_eq_exp_minus_1)

lemma and_U32_OVERFLOW_MASK: "val AND U32_OVERFLOW_MASK = 0 \<longleftrightarrow> unat val < 2 ^ 25"
  using and_high_mask [of 25 val]
  by (simp add: U32_OVERFLOW_MASK_def push_bit_eq_mult mask_eq_exp_minus_1)

lemma unat_shift_in:
  fixes val :: "'w::len word"
  assumes "unat val * 128 + 128 \<le> 2 ^ LENGTH('w)" "7 < LENGTH('w)"
  shows "unat (push_bit 7 val OR ucast (b AND 0x7F :: byte)) = unat val * 128 + unat (b AND 0x7F)"
proof -
  let ?c = "ucast (b AND 0x7F) :: 'w word"
  have c: "unat ?c = unat (b AND 0x7F)"
  proof -
    have "unat (b AND 0x7F) < 2 ^ 7" by (simp add: unat_byte_low)
    also have "(2::nat) ^ 7 \<le> 2 ^ LENGTH('w)" using assms(2) by (intro power_increasing) auto
    finally show ?thesis by (simp add: unsigned_ucast_eq take_bit_nat_eq_self)
  qed
  have p: "unat (push_bit 7 val) = unat val * 128"
    using assms by (subst unsigned_push_bit_eq) (simp add: push_bit_eq_mult take_bit_nat_eq_self)
  have "push_bit 7 val AND ?c = 0"
    by (rule bit_word_eqI) (auto simp: byte_and_7F bit_simps)
  then have "push_bit 7 val OR ?c = push_bit 7 val + ?c"
    by (simp add: disjunctive_add_eq_or)
  moreover have "unat (b AND 0x7F) < 128" by (simp add: unat_byte_low)
  then have "unat (push_bit 7 val + ?c) = unat (push_bit 7 val) + unat ?c"
    using assms by (intro unat_add_no_wrap) (simp add: p c)
  ultimately show ?thesis using p c by simp
qed
lemma vval_Nil [simp]: "vval [] = 0"
  by (simp add: vval_def)

lemma vval_snoc [simp]: "vval (bs @ [b]) = vval bs * 128 + unat (b AND 0x7F)"
  by (simp add: vval_def)

lemma vval_shift: "foldl (\<lambda>v b. v * 128 + unat (b AND 0x7F)) a bs = a * 128 ^ length bs + vval bs"
  by (induction bs rule: rev_induct) (auto simp: algebra_simps)

lemma vval_append: "vval (as @ bs) = vval as * 128 ^ length bs + vval bs"
  by (simp add: vval_def foldl_append) (simp add: vval_shift flip: vval_def)

lemma vval_Cons: "vval (b # bs) = unat (b AND 0x7F) * 128 ^ length bs + vval bs"
  using vval_append [of "[b]" bs] by (simp add: vval_def)

lemma vval_less: "vval bs < 128 ^ length bs"
proof (induction bs rule: rev_induct)
  case (snoc b bs)
  have "unat (b AND 0x7F) < 128" by (simp add: unat_byte_low)
  then have "vval bs * 128 + unat (b AND 0x7F) < (vval bs + 1) * 128" by simp
  also have "\<dots> \<le> 128 ^ length bs * 128" using snoc by (intro mult_le_mono) auto
  finally show ?case by simp
qed simp

lemma not_terminated_Nil [simp]: "\<not> terminated []"
  by (simp add: terminated_def)

lemma terminated_Cons:
  "terminated (b # bs) \<longleftrightarrow> (if bs = [] then b AND 0x80 = 0 else b AND 0x80 \<noteq> 0 \<and> terminated bs)"
  by (auto simp: terminated_def)

fun read_word_loop :: "'w::len word \<Rightarrow> nat \<Rightarrow> byte list \<Rightarrow> ('w word \<times> nat, VarIntError) res" where
  "read_word_loop val i [] = Err Underflow"
| "read_word_loop val i (b # bs) =
     (if 2 ^ (LENGTH('w) - 7) \<le> unat val then Err Overflow
      else
        let val' = push_bit 7 val OR ucast (b AND 0x7F)
        in if b AND 0x80 = 0 then Ok (val', i + 1) else read_word_loop val' (i + 1) bs)"

lemma read_word_loop_terminated:
  fixes val :: "'w::len word"
  assumes w: "7 < LENGTH('w)"
  shows "terminated bs \<Longrightarrow>
   read_word_loop val i (bs @ rest) =
     (if unat val * 128 ^ length bs + vval bs < 2 ^ LENGTH('w)
      then Ok (of_nat (unat val * 128 ^ length bs + vval bs), i + length bs)
      else Err Overflow)"
proof (induction bs arbitrary: val i)
  case Nil
  then show ?case by (simp add: terminated_def)
next
  case (Cons b bs)
  let ?t = "unat val * 128 ^ length (b # bs) + vval (b # bs)"
  let ?v = "push_bit 7 val OR ucast (b AND 0x7F)"
  have two: "(2::nat) ^ (LENGTH('w) - 7) * 128 = 2 ^ LENGTH('w)"
    using w power_add [of "2::nat" "LENGTH('w) - 7" 7] by simp
  show ?case
  proof (cases "unat val < 2 ^ (LENGTH('w) - 7)")
    case False
    have "2 ^ (LENGTH('w) - 7) * 128 \<le> unat val * 128 ^ length (b # bs)"
      using False by (intro mult_le_mono) auto
    with False show ?thesis by (simp add: two)
  next
    case True
    then have "(unat val + 1) * 128 \<le> 2 ^ (LENGTH('w) - 7) * 128"
      by (intro mult_le_mono) auto
    then have v: "unat ?v = unat val * 128 + unat (b AND 0x7F)"
      using w by (intro unat_shift_in) (auto simp: two)
    have t: "?t = unat ?v * 128 ^ length bs + vval bs"
      by (simp add: v vval_Cons algebra_simps)
    show ?thesis
    proof (cases "bs = []")
      case True
      have "unat ?v < 2 ^ LENGTH('w)" by (rule unat_lt_2p)
      moreover have "of_nat (unat ?v) = ?v" by simp
      ultimately show ?thesis
        using \<open>unat val < _\<close> True Cons.prems unfolding t by (simp add: terminated_Cons)
    next
      case False
      then have "b AND 0x80 \<noteq> 0" and bs: "terminated bs"
        using Cons.prems by (auto simp: terminated_Cons)
      then show ?thesis
        using \<open>unat val < _\<close> Cons.IH [OF bs, of ?v "Suc i"] unfolding t by simp
    qed
  qed
qed

lemma read_u64_loop_eq: "read_u64_loop val i bs = read_word_loop val i bs"
  using and_U64_OVERFLOW_MASK
  by (induction val i bs rule: read_u64_loop.induct) (auto simp: Let_def not_less)

lemma read_u32_loop_eq: "read_u32_loop val i bs = read_word_loop val i bs"
  using and_U32_OVERFLOW_MASK
  by (induction val i bs rule: read_u32_loop.induct) (auto simp: Let_def not_less)

lemma read_u64_terminated:
  "terminated bs \<Longrightarrow> read_u64 (bs @ rest) =
     (if vval bs < 2 ^ 64 then Ok (of_nat (vval bs), length bs) else Err Overflow)"
  by (simp add: read_u64_def read_u64_loop_eq read_word_loop_terminated)

lemma read_u32_terminated:
  "terminated bs \<Longrightarrow> read_u32 (bs @ rest) =
     (if vval bs < 2 ^ 32 then Ok (of_nat (vval bs), length bs) else Err Overflow)"
  by (simp add: read_u32_def read_u32_loop_eq read_word_loop_terminated)

lemma ex_terminated_prefix:
  assumes "\<exists>b \<in> set bs. b AND 0x80 = 0"
  shows "\<exists>p rest. bs = p @ rest \<and> terminated p"
  using assms
proof (induction bs)
  case (Cons b bs)
  show ?case
  proof (cases "b AND 0x80 = 0")
    case True
    then have "b # bs = [b] @ bs" and "terminated [b]" by (auto simp: terminated_def)
    then show ?thesis by blast
  next
    case False
    then obtain p rest where "bs = p @ rest" "terminated p" using Cons by auto
    then have "b # bs = (b # p) @ rest" and "terminated (b # p)"
      using False by (auto simp: terminated_Cons)
    then show ?thesis by blast
  qed
qed simp

lemma read_word_loop_unterminated:
  "\<forall>b \<in> set bs. b AND 0x80 \<noteq> 0 \<Longrightarrow> \<exists>e. read_word_loop val i bs = Err e"
  by (induction val i bs rule: read_word_loop.induct) (auto simp: Let_def)

lemma read_word_loop_not_Panic [simp]: "read_word_loop val i bs \<noteq> Panic"
  by (induction val i bs rule: read_word_loop.induct) (auto simp: Let_def)

lemma read_word_Ok:
  fixes v :: "'w::len word"
  assumes w: "7 < LENGTH('w)" and ok: "read_word_loop (0::'w word) 0 bs = Ok (v, k)"
  shows "k \<le> length bs \<and> terminated (take k bs) \<and> unat v = vval (take k bs)"
proof -
  have "\<exists>b \<in> set bs. b AND 0x80 = 0"
    using ok read_word_loop_unterminated [of bs "0::'w word" 0] by auto
  then obtain p rest where p: "bs = p @ rest" "terminated p"
    using ex_terminated_prefix by blast
  from ok p w show ?thesis
    by (auto simp: read_word_loop_terminated unat_of_nat_id split: if_splits)
qed

lemma read_u64_Ok:
  "read_u64 bs = Ok (v, k) \<Longrightarrow> k \<le> length bs \<and> terminated (take k bs) \<and> unat v = vval (take k bs)"
  using read_word_Ok [of bs v k] by (simp add: read_u64_def read_u64_loop_eq)

lemma read_u32_Ok:
  "read_u32 bs = Ok (v, k) \<Longrightarrow> k \<le> length bs \<and> terminated (take k bs) \<and> unat v = vval (take k bs)"
  using read_word_Ok [of bs v k] by (simp add: read_u32_def read_u32_loop_eq)

subsection \<open>The streaming decoders refine the slice decoders\<close>

fun stream_of :: "byte list \<Rightarrow> nat \<Rightarrow> ('v \<times> nat, VarIntError) res \<Rightarrow> ('v \<times> byte list, io_error) res" where
  "stream_of r i (Ok (v, k)) = Ok (v, drop (k - i) r)"
| "stream_of r i (Err Underflow) = Err UnexpectedEof"
| "stream_of r i (Err Overflow) = Err (InvalidData ''varint overflow'')"
| "stream_of r i Panic = Panic"

lemma read_word_loop_grows: "read_word_loop val i bs = Ok (v, k) \<Longrightarrow> i < k"
  by (induction val i bs rule: read_word_loop.induct) (fastforce simp: Let_def split: if_splits)+

lemma stream_of_Cons:
  assumes "\<And>v k. m = Ok (v, k) \<Longrightarrow> i < k"
  shows "stream_of (b # r) i m = stream_of r (Suc i) m"
  using assms by (cases "(r, i, m)" rule: stream_of.cases) (auto simp: Suc_diff_Suc drop_Cons')

lemma stream_read_u64_loop_eq: "stream_read_u64_loop val r = stream_of r i (read_u64_loop val i r)"
proof (induction val r arbitrary: i rule: stream_read_u64_loop.induct)
  case (2 val b r)
  let ?v = "push_bit 7 val OR ucast (b AND 0x7F)"
  have "stream_of (b # r) i (read_u64_loop ?v (Suc i) r) = stream_of r (Suc i) (read_u64_loop ?v (Suc i) r)"
    by (rule stream_of_Cons) (auto simp: read_u64_loop_eq dest: read_word_loop_grows)
  with 2 show ?case by (simp add: Let_def)
qed simp

lemma stream_read_u64_eq: "stream_read_u64 r = stream_of r 0 (read_u64 r)"
  by (simp add: stream_read_u64_def read_u64_def stream_read_u64_loop_eq)

lemma stream_read_u32_loop_eq: "stream_read_u32_loop val r = stream_of r i (read_u32_loop val i r)"
proof (induction val r arbitrary: i rule: stream_read_u32_loop.induct)
  case (2 val b r)
  let ?v = "push_bit 7 val OR ucast (b AND 0x7F)"
  have "stream_of (b # r) i (read_u32_loop ?v (Suc i) r) = stream_of r (Suc i) (read_u32_loop ?v (Suc i) r)"
    by (rule stream_of_Cons) (auto simp: read_u32_loop_eq dest: read_word_loop_grows)
  with 2 show ?case by (simp add: Let_def)
qed simp

lemma stream_read_u32_eq: "stream_read_u32 r = stream_of r 0 (read_u32 r)"
  by (simp add: stream_read_u32_def read_u32_def stream_read_u32_loop_eq)

subsection \<open>The encoder\<close>

lemma byte_flag [simp]: "(b OR 0x80 :: byte) AND 0x80 \<noteq> 0"
  by (simp add: byte_and_80 bit_or_iff)

lemma byte_small_flag: "g < 128 \<Longrightarrow> (of_nat g :: byte) AND 0x80 = 0"
proof -
  assume "g < 128"
  then have "drop_bit 7 (of_nat g :: byte) = 0" by (simp add: drop_bit_eq_0_iff unat_of_nat_id)
  then show ?thesis by (simp add: byte_and_80 bit_iff_odd_drop_bit)
qed

lemma unat_byte_small: "g < 128 \<Longrightarrow> unat ((of_nat g :: byte) AND 0x7F) = g"
  by (simp add: unat_byte_low unat_of_nat_id)

lemma byte_flag_low: "g < 128 \<Longrightarrow> ((of_nat g OR 0x80 :: byte)) AND 0x7F = of_nat g"
proof -
  assume g: "g < 128"
  have "(of_nat g OR 0x80 :: byte) AND 0x7F = (of_nat g AND 0x7F) OR (0x80 AND 0x7F)"
    by (simp only: bit.conj_disj_distrib2)
  also have "\<dots> = of_nat g AND 0x7F" by simp
  also have "\<dots> = of_nat g"
    using g by (intro unsigned_word_eqI [where ?'a = nat]) (simp add: unat_byte_small unat_of_nat_id)
  finally show ?thesis .
qed

lemma vval_vhigh [simp]: "vval (vhigh n) = n"
  by (induction n rule: vhigh.induct, subst vhigh.simps) (auto simp: byte_flag_low unat_of_nat_id)

lemma vhigh_flags: "b \<in> set (vhigh n) \<Longrightarrow> b AND 0x80 \<noteq> 0"
  by (induction n rule: vhigh.induct, subst (asm) (2) vhigh.simps) (auto split: if_splits)

lemma vval_vint [simp]: "vval (vint n) = n"
  by (simp add: vint_def unat_byte_small)

lemma terminated_vint [simp]: "terminated (vint n)"
  by (auto simp: terminated_def vint_def byte_small_flag butlast_append dest: vhigh_flags)

lemma length_vhigh_le: "n < 128 ^ k \<Longrightarrow> length (vhigh n) \<le> k"
proof (induction k arbitrary: n)
  case (Suc k)
  then have "n div 128 < 128 ^ k" by (simp add: less_mult_imp_div_less)
  then show ?case using Suc.IH by (subst vhigh.simps) auto
qed (simp add: vhigh.simps)

lemma length_vint_le: "n < 128 ^ k \<Longrightarrow> 0 < k \<Longrightarrow> length (vint n) \<le> k"
  using length_vhigh_le [of "n div 128" "k - 1"]
  by (cases k) (auto simp: vint_def less_mult_imp_div_less)

lemma length_vint_pos [simp]: "0 < length (vint n)"
  by (simp add: vint_def)

text \<open>All the bytes the loop stores, before the last flag is cleared.\<close>

definition vall :: "nat \<Rightarrow> byte list" where
  "vall n = vhigh (n div 128) @ [of_nat (n mod 128) OR 0x80]"

lemma length_vall [simp]: "length (vall n) = length (vint n)"
  by (simp add: vall_def vint_def)

lemma group_of_u64: "(ucast (num :: u64) AND 0x7F :: byte) = of_nat (unat num mod 128)"
  by (intro unsigned_word_eqI [where ?'a = nat])
     (simp add: unat_byte_low unat_of_nat_id unsigned_ucast_eq take_bit_eq_mod mod_mod_cancel)

lemma unat_drop7: "unat (drop_bit 7 (num :: u64)) = unat num div 128"
  using trans [OF unat_drop_bit_eq drop_bit_eq_div, of 7 num] by simp

lemma encode_u64_loop_eq:
  "i < length buf \<Longrightarrow> unat num < 128 ^ Suc i \<Longrightarrow>
   encode_u64_loop num buf (Suc i) =
     Ok (take (Suc i - length (vint (unat num))) buf @ vall (unat num) @ drop (Suc i) buf,
         Suc i - length (vint (unat num)))"
proof (induction i arbitrary: num buf)
  case 0
  then have "drop_bit 7 num = 0" by (simp add: drop_bit_eq_0_iff)
  with 0 show ?case
    by (simp add: vall_def vint_def vhigh.simps group_of_u64 upd_conv_take_nth_drop)
next
  case (Suc i)
  show ?case
  proof (cases "drop_bit 7 num = 0")
    case True
    then have "unat num div 128 = 0" by (simp add: drop_bit_eq_0_iff)
    with True Suc.prems show ?thesis
      by (simp add: vall_def vint_def vhigh.simps group_of_u64 upd_conv_take_nth_drop)
  next
    case False
    then have n0: "unat num div 128 \<noteq> 0" by (simp add: drop_bit_eq_0_iff)
    have lt: "unat (drop_bit 7 num) < 128 ^ Suc i"
      using Suc.prems by (simp add: unat_drop7 less_mult_imp_div_less)
    let ?b = "(ucast num AND 0x7F) OR 0x80 :: byte"
    have l: "length (vint (unat num)) = Suc (length (vint (unat num div 128)))"
      using n0 by (simp add: vint_def) (subst vhigh.simps, simp)
    have le: "length (vint (unat num div 128)) \<le> Suc i"
      using lt by (intro length_vint_le) (auto simp: unat_drop7)
    have v: "vall (unat num) = vall (unat num div 128) @ [?b]"
      using n0 by (simp add: vall_def group_of_u64) (subst (1) vhigh.simps, simp)
    show ?thesis
      using Suc.IH [OF _ lt, of "buf[Suc i := ?b]"] Suc.prems le False
      by (subst encode_u64_loop.simps(2))
         (auto simp: Let_def unat_drop7 l v upd_conv_take_nth_drop simp del: encode_u64_loop.simps)
  qed
qed

lemma encode_u64_eq:
  assumes "length buf = MAX_VARINT_LEN"
  shows "encode_u64 num buf =
    Ok (take (10 - length (vint (unat num))) buf @ vint (unat num), length (vint (unat num)))"
proof -
  let ?n = "unat num"
  have lt: "?n < 128 ^ 10" by (rule less_trans [OF u64_lt]) simp
  have le: "length (vint ?n) \<le> 10" using lt by (intro length_vint_le) auto
  have loop: "encode_u64_loop num buf 10 =
      Ok (take (10 - length (vint ?n)) buf @ vall ?n, 10 - length (vint ?n))"
    using encode_u64_loop_eq [of 9 buf num] assms lt by (simp add: MAX_VARINT_LEN_def)
  let ?p = "take (10 - length (vint ?n)) buf @ vhigh (?n div 128)"
  have lp: "length ?p = 9" using le assms by (simp add: MAX_VARINT_LEN_def vint_def)
  then show ?thesis
    using le assms unfolding encode_u64_def MAX_VARINT_LEN_def loop
    by (simp add: vall_def vint_def nth_append list_update_append byte_flag_low index_at_def)
qed
lemma write_u64_eq [simp]: "write_u64 w num = Ok (w @ vint (unat num))"
proof -
  have "length (vint (unat num)) \<le> 10"
    using less_trans [OF u64_lt, of "128 ^ 10" num] by (intro length_vint_le) auto
  then show ?thesis
    by (simp add: write_u64_def encode_u64_eq MAX_VARINT_LEN_def write_all_def)
qed

lemma write_usize_eq [simp]: "write_usize w num = Ok (w @ vint (unat num))"
  using write_u64_eq [of w num] by (simp only: write_usize_def write_u64_def)

lemma write_u32_eq [simp]: "write_u32 w num = Ok (w @ vint (unat num))"
  by (simp add: write_u32_def unsigned_ucast_eq take_bit_nat_eq_self less_trans [OF u32_lt])

lemma read_u64_vint [simp]: "n < 2 ^ 64 \<Longrightarrow> read_u64 (vint n @ rest) = Ok (of_nat n, length (vint n))"
  by (simp add: read_u64_terminated)

lemma read_u32_vint [simp]: "n < 2 ^ 32 \<Longrightarrow> read_u32 (vint n @ rest) = Ok (of_nat n, length (vint n))"
  by (simp add: read_u32_terminated)

lemma stream_read_u64_vint [simp]:
  "n < 2 ^ 64 \<Longrightarrow> stream_read_u64 (vint n @ rest) = Ok (of_nat n, rest)"
  by (simp add: stream_read_u64_eq)

subsection \<open>Encoded size\<close>

lemma takeWhile_rev_upt:
  "length (takeWhile (\<lambda>i. \<not> P i) (rev [0..<n])) = (if \<exists>i<n. P i then n - Suc (Max {i. i < n \<and> P i}) else n)"
proof (induction n)
  case (Suc n)
  show ?case
  proof (cases "P n")
    case True
    then have "Max {i. i < Suc n \<and> P i} = n" by (intro Max_eqI) auto
    with True show ?thesis by auto
  next
    case False
    then have "{i. i < Suc n \<and> P i} = {i. i < n \<and> P i}" by (auto simp: less_Suc_eq)
    moreover have "Max {i. i < n \<and> P i} < n" if "\<exists>i<n. P i"
      using that by (subst Max_less_iff) auto
    moreover have "(\<exists>i<Suc n. P i) \<longleftrightarrow> (\<exists>i<n. P i)" using False by (auto simp: less_Suc_eq)
    ultimately show ?thesis
      using Suc False by (cases "\<exists>i<n. P i") (auto simp: Suc_diff_Suc)
  qed
qed simp

lemma bit_length_bounds:
  fixes w :: "'w::len word"
  assumes "w \<noteq> 0"
  defines "b \<equiv> LENGTH('w) - leading_zeros w"
  shows "0 < b" and "b \<le> LENGTH('w)" and "2 ^ (b - 1) \<le> unat w" and "unat w < 2 ^ b"
proof -
  let ?S = "{i. i < LENGTH('w) \<and> bit w i}"
  define m where "m = Max ?S"
  have ex: "\<exists>i<LENGTH('w). bit w i"
    using assms(1) by (auto simp: bit_eq_iff dest: bit_imp_le_length)
  then have "Max ?S \<in> ?S" by (intro Max_in) auto
  then have in_S: "m < LENGTH('w)" "bit w m" by (auto simp: m_def)
  have "leading_zeros w = LENGTH('w) - Suc m"
    using ex by (simp add: leading_zeros_def takeWhile_rev_upt m_def)
  with in_S have b: "b = Suc m" by (simp add: b_def)
  from b show "0 < b" by simp
  from b in_S show "b \<le> LENGTH('w)" by simp
  have "bit (unat w) m" using in_S by (simp add: bit_unsigned_iff)
  then have "2 ^ m \<le> unat w" by (rule contrapos_pp) (simp add: bit_iff_odd)
  then show "2 ^ (b - 1) \<le> unat w" by (simp add: b)
  have "\<not> bit w (b + n)" for n
  proof
    assume "bit w (b + n)"
    then have "b + n \<in> ?S" by (auto dest: bit_imp_le_length)
    then have "b + n \<le> m" unfolding m_def by (intro Max_ge) auto
    with b show False by simp
  qed
  then have "drop_bit b w = 0" by (intro bit_word_eqI) (simp add: bit_drop_bit_eq)
  then show "unat w < 2 ^ b" by (simp add: drop_bit_eq_0_iff)
qed

lemma length_vhigh_bounds: "0 < n \<Longrightarrow> 128 ^ (length (vhigh n) - 1) \<le> n \<and> n < 128 ^ length (vhigh n)"
proof (induction n rule: vhigh.induct)
  case (1 n)
  have v: "length (vhigh n) = Suc (length (vhigh (n div 128)))"
    using "1.prems" by (subst vhigh.simps) simp
  show ?case
  proof (cases "n div 128 = 0")
    case True
    with "1.prems" show ?thesis by (subst (1 2) vhigh.simps) (simp add: vhigh.simps div_eq_0_iff)
  next
    case False
    let ?l = "length (vhigh (n div 128))"
    from 1 False have IH: "128 ^ (?l - 1) \<le> n div 128" "n div 128 < 128 ^ ?l" by auto
    have "0 < ?l" using False by (subst vhigh.simps) simp
    then have "128 ^ ?l = 128 * (128::nat) ^ (?l - 1)" by (simp add: power_eq_if)
    also have "\<dots> \<le> 128 * (n div 128)" using IH by simp
    also have "\<dots> \<le> n" by simp
    finally have "128 ^ ?l \<le> n" .
    moreover have "n < 128 ^ Suc ?l" using IH(2) by (simp add: div_less_iff_less_mult mult.commute)
    ultimately show ?thesis by (simp add: v)
  qed
qed

lemma length_vint_unique:
  assumes "128 ^ k \<le> n" "n < 128 ^ Suc k"
  shows "length (vint n) = Suc k"
proof -
  have "0 < n" using assms(1) by (cases "n = 0") auto
  have l: "length (vint n) = length (vhigh n)"
    using \<open>0 < n\<close> by (simp add: vint_def) (subst (2) vhigh.simps, simp)
  have b: "128 ^ (length (vhigh n) - 1) \<le> n" "n < 128 ^ length (vhigh n)"
    using length_vhigh_bounds [OF \<open>0 < n\<close>] by auto
  have "(128::nat) ^ k < 128 ^ length (vhigh n)" using assms(1) b(2) by linarith
  then have "k < length (vhigh n)" by simp
  moreover have "(128::nat) ^ (length (vhigh n) - 1) < 128 ^ Suc k" using assms(2) b(1) by linarith
  then have "length (vhigh n) - 1 < Suc k" by (subst (asm) power_strict_increasing_iff) auto
  ultimately show ?thesis by (simp add: l)
qed

lemma size_of_word:
  fixes w :: "'w::len word"
  shows "div_ceil (max (LENGTH('w) - leading_zeros w) 1) 7 = length (vint (unat w))"
proof (cases "w = 0")
  case True
  then have "takeWhile (\<lambda>i. \<not> bit w i) (rev [0..<LENGTH('w)]) = rev [0..<LENGTH('w)]"
    by (subst takeWhile_eq_all_conv) simp
  then have "leading_zeros w = LENGTH('w)" by (simp only: leading_zeros_def length_rev length_upt)
  with True show ?thesis by (simp add: div_ceil_def vint_def vhigh.simps)
next
  case False
  define b where "b = LENGTH('w) - leading_zeros w"
  note bb = bit_length_bounds [OF False, folded b_def]
  define k where "k = (b - 1) div 7"
  have dc: "div_ceil (max b 1) 7 = Suc k"
    using bb(1) by (cases b) (auto simp: k_def div_ceil_def max_def div_Suc mod_Suc split: if_splits)
  have "(128::nat) ^ k = 2 ^ (7 * k)" by (simp add: power_mult)
  also have "\<dots> \<le> 2 ^ (b - 1)" by (intro power_increasing) (auto simp: k_def)
  finally have lo: "128 ^ k \<le> unat w" using bb(3) by linarith
  have "b \<le> 7 * Suc k" using bb(1) by (simp add: k_def)
  then have "(2::nat) ^ b \<le> 2 ^ (7 * Suc k)" by (intro power_increasing) auto
  also have "\<dots> = 128 ^ Suc k" by (simp only: power_mult) simp
  finally have hi: "unat w < 128 ^ Suc k" using bb(4) by linarith
  show ?thesis using dc length_vint_unique [OF lo hi] by (simp add: b_def)
qed

lemma sizeof_u64_eq: "sizeof_u64 num = length (vint (unat num))"
proof -
  have "length (vint (unat num)) \<le> 10"
    using less_trans [OF u64_lt, of "128 ^ 10" num] by (intro length_vint_le) auto
  then show ?thesis using size_of_word [of num] by (simp add: sizeof_u64_def Let_def)
qed

lemma sizeof_u32_eq: "sizeof_u32 num = length (vint (unat num))"
proof -
  have "length (vint (unat num)) \<le> 5"
    using less_trans [OF u32_lt, of "128 ^ 5" num] by (intro length_vint_le) auto
  then show ?thesis using size_of_word [of num] by (simp add: sizeof_u32_def Let_def)
qed

section \<open>Properties\<close>

text \<open>
  C38: The integers round-trip. For every 64-bit value, \<open>write_u64\<close> appends between 1 and 10
  bytes, as many as \<open>sizeof_u64\<close> says, and both the slice decoder and the streaming decoder
  give the value back and leave exactly what followed it.
\<close>

theorem varint_u64_roundtrip:
  "\<exists>bs. write_u64 w num = Ok (w @ bs)
      \<and> length bs = sizeof_u64 num \<and> 1 \<le> length bs \<and> length bs \<le> 10
      \<and> read_u64 (bs @ rest) = Ok (num, length bs)
      \<and> stream_read_u64 (bs @ rest) = Ok (num, rest)"
proof -
  have n: "unat num < 2 ^ 64" using u64_lt [of num] by simp
  have "length (vint (unat num)) \<le> 10"
    using less_trans [OF u64_lt, of "128 ^ 10" num] by (intro length_vint_le) auto
  moreover have "1 \<le> length (vint (unat num))" using length_vint_pos [of "unat num"] by linarith
  ultimately show ?thesis
    using read_u64_vint [OF n] stream_read_u64_vint [OF n]
    by (intro exI [of _ "vint (unat num)"]) (simp add: sizeof_u64_eq)
qed

text \<open>
  C39: The 32-bit decoder is exact. On a byte string that is one whole base-128 integer it
  returns the integer's value when that fits in 32 bits and \<open>Overflow\<close> when it does not: no
  value is ever truncated, and padding with leading zero groups is accepted.
\<close>

theorem read_u32_exact:
  assumes "terminated bs"
  shows "read_u32 (bs @ rest) =
           (if vval bs < 2 ^ 32 then Ok (of_nat (vval bs), length bs) else Err Overflow)"
  using assms by (rule read_u32_terminated)

theorem read_u32_exact_witness:
  "terminated [0x82, 0x2C] \<and> read_u32 ([0x82, 0x2C] @ [7]) = Ok (300, 2)
   \<and> terminated [0x90, 0x80, 0x80, 0x80, 0x00]
   \<and> read_u32 [0x90, 0x80, 0x80, 0x80, 0x00] = Err Overflow"
proof -
  have a: "terminated [0x82, 0x2C]" and b: "terminated [0x90, 0x80, 0x80, 0x80, 0x00]"
    by (simp_all add: terminated_def)
  show ?thesis
    using a b read_u32_exact [OF a, of "[7]"] read_u32_exact [OF b, of "[]"] by (simp add: vval_def)
qed

end
