(* ===== verification/Match_Kernels.thy ===== *)
theory Match_Kernels
  imports Varint
begin

text \<open>
  The byte-comparison kernels of \<open>src/src/hash/rolling.rs\<close>: forward match, backward match and run
  length, each in a scalar, SSE2, AVX2 and NEON version chosen by the CPU. A SIMD compare is
  modelled by the mask (or byte vector) it leaves; a load outside a slice is \<open>Panic\<close>. All versions
  are proved equal to the length of the common prefix, common suffix or run.
\<close>

section \<open>Definitions\<close>

definition trailing_zeros :: "'w::len word \<Rightarrow> nat" where
  "trailing_zeros w = length (takeWhile (\<lambda>i. \<not> bit w i) [0..<LENGTH('w)])"

definition leading_ones :: "'w::len word \<Rightarrow> nat" where
  "leading_ones w = leading_zeros (NOT w)"

text \<open>A vector load of \<open>w\<close> bytes, and the mask of a byte-wise equality compare.\<close>

definition load :: "nat \<Rightarrow> byte list \<Rightarrow> nat \<Rightarrow> (byte list, 'e) res" where
  "load w s i = slice_range s i (i + w)"

definition movemask_eq :: "byte list \<Rightarrow> byte list \<Rightarrow> u32" where
  "movemask_eq a b = horner_sum of_bool 2 (map2 (=) a b)"

definition read_u64_le :: "byte list \<Rightarrow> u64" where
  "read_u64_le bs = horner_sum of_bool 2 (concat (map (\<lambda>b. map (bit b) [0..<8]) bs))"

text \<open>An unaligned native-endian read; \<open>le\<close> says whether the target is little-endian.\<close>

definition read_unaligned :: "bool \<Rightarrow> byte list \<Rightarrow> u64" where
  "read_unaligned le bs = read_u64_le (if le then bs else rev bs)"

definition cmp_bytes :: "byte list \<Rightarrow> byte list \<Rightarrow> byte list" where
  "cmp_bytes a b = map2 (\<lambda>x y. if x = y then 0xFF else 0) a b"

text \<open>The first (last) difference between two blocks, \<open>None\<close> when they are equal.\<close>

definition scalar_diff :: "bool \<Rightarrow> byte list \<Rightarrow> byte list \<Rightarrow> nat option" where
  "scalar_diff le a b = (let x = read_unaligned le a XOR read_unaligned le b
     in if x \<noteq> 0 then Some (if le then trailing_zeros x div 8 else leading_zeros x div 8) else None)"

definition avx2_diff :: "byte list \<Rightarrow> byte list \<Rightarrow> nat option" where
  "avx2_diff a b = (let m = movemask_eq a b
     in if m \<noteq> 0xFFFFFFFF then Some (trailing_zeros (NOT m)) else None)"

definition sse2_diff :: "byte list \<Rightarrow> byte list \<Rightarrow> nat option" where
  "sse2_diff a b = (let m = movemask_eq a b
     in if m \<noteq> 0xFFFF then Some (trailing_zeros (NOT (ucast m :: u16))) else None)"

definition neon_diff :: "byte list \<Rightarrow> byte list \<Rightarrow> nat option" where
  "neon_diff a b = (let cmp = cmp_bytes a b; not_eq = map NOT cmp
     in if 0 \<in> set cmp then List.find (\<lambda>j. not_eq ! j \<noteq> 0) [0..<16] else None)"

definition scalar_rdiff :: "bool \<Rightarrow> byte list \<Rightarrow> byte list \<Rightarrow> nat option" where
  "scalar_rdiff le a b = (let x = read_unaligned le a XOR read_unaligned le b
     in if x \<noteq> 0 then Some (if le then leading_zeros x div 8 else trailing_zeros x div 8) else None)"

definition avx2_rdiff :: "byte list \<Rightarrow> byte list \<Rightarrow> nat option" where
  "avx2_rdiff a b = (let m = movemask_eq a b
     in if m \<noteq> 0xFFFFFFFF then Some (leading_ones m) else None)"

definition sse2_rdiff :: "byte list \<Rightarrow> byte list \<Rightarrow> nat option" where
  "sse2_rdiff a b = (let m = movemask_eq a b
     in if m \<noteq> 0xFFFF then Some (leading_ones (ucast m :: u16)) else None)"

definition neon_rdiff :: "byte list \<Rightarrow> byte list \<Rightarrow> nat option" where
  "neon_rdiff a b = (let cmp = cmp_bytes a b; not_eq = map NOT cmp
     in if 0 \<in> set cmp
        then map_option (\<lambda>j. 16 - j - 1) (List.find (\<lambda>j. not_eq ! j \<noteq> 0) (rev [0..<16])) else None)"

text \<open>
  The block loop \<open>while i + w <= n\<close>: either it returns a match length, or it leaves \<open>i\<close> for the
  code after it. \<open>fwd_block\<close> is one such step without the loop.
\<close>

function fwd_blocks :: "nat \<Rightarrow> (byte list \<Rightarrow> byte list \<Rightarrow> nat option) \<Rightarrow> byte list \<Rightarrow> byte list
    \<Rightarrow> nat \<Rightarrow> nat \<Rightarrow> (nat + nat, 'e) res" where
  "fwd_blocks w diff s1 s2 n i =
     (if 0 < w \<and> i + w \<le> n then
        bindR (load w s1 i) (\<lambda>a. bindR (load w s2 i) (\<lambda>b.
        case diff a b of
          Some k \<Rightarrow> Ok (Inl (i + k))
        | None \<Rightarrow> fwd_blocks w diff s1 s2 n (i + w)))
      else Ok (Inr i))"
  by pat_completeness auto
termination by (relation "measure (\<lambda>(w, diff, s1, s2, n, i). n - i)") auto

declare fwd_blocks.simps [simp del]

definition fwd_block :: "nat \<Rightarrow> (byte list \<Rightarrow> byte list \<Rightarrow> nat option) \<Rightarrow> byte list \<Rightarrow> byte list
    \<Rightarrow> nat \<Rightarrow> nat \<Rightarrow> (nat + nat, 'e) res" where
  "fwd_block w diff s1 s2 n i =
     (if i + w \<le> n then
        bindR (load w s1 i) (\<lambda>a. bindR (load w s2 i) (\<lambda>b.
        case diff a b of Some k \<Rightarrow> Ok (Inl (i + k)) | None \<Rightarrow> Ok (Inr (i + w))))
      else Ok (Inr i))"

function fwd_tail :: "byte list \<Rightarrow> byte list \<Rightarrow> nat \<Rightarrow> nat \<Rightarrow> (nat, 'e) res" where
  "fwd_tail s1 s2 n i =
     (if i < n then
        bindR (index_at s1 i) (\<lambda>a. bindR (index_at s2 i) (\<lambda>b.
        if a = b then fwd_tail s1 s2 n (i + 1) else Ok i))
      else Ok i)"
  by pat_completeness auto
termination by (relation "measure (\<lambda>(s1, s2, n, i). n - i)") auto

declare fwd_tail.simps [simp del]

definition after_blocks :: "(nat + nat, 'e) res \<Rightarrow> (nat \<Rightarrow> (nat, 'e) res) \<Rightarrow> (nat, 'e) res" where
  "after_blocks m f = bindR m (\<lambda>r. case r of Inl k \<Rightarrow> Ok k | Inr i \<Rightarrow> f i)"

definition forward_match_scalar :: "bool \<Rightarrow> byte list \<Rightarrow> byte list \<Rightarrow> nat \<Rightarrow> (nat, 'e) res" where
  "forward_match_scalar le s1 s2 n = after_blocks (fwd_blocks 8 (scalar_diff le) s1 s2 n 0) (fwd_tail s1 s2 n)"

definition forward_match_avx2 :: "byte list \<Rightarrow> byte list \<Rightarrow> nat \<Rightarrow> (nat, 'e) res" where
  "forward_match_avx2 s1 s2 n =
     after_blocks (fwd_blocks 32 avx2_diff s1 s2 n 0) (\<lambda>i.
     after_blocks (fwd_block 16 sse2_diff s1 s2 n i) (fwd_tail s1 s2 n))"

definition forward_match_sse2 :: "byte list \<Rightarrow> byte list \<Rightarrow> nat \<Rightarrow> (nat, 'e) res" where
  "forward_match_sse2 s1 s2 n = after_blocks (fwd_blocks 16 sse2_diff s1 s2 n 0) (fwd_tail s1 s2 n)"

definition forward_match_neon :: "byte list \<Rightarrow> byte list \<Rightarrow> nat \<Rightarrow> (nat, 'e) res" where
  "forward_match_neon s1 s2 n = after_blocks (fwd_blocks 16 neon_diff s1 s2 n 0) (fwd_tail s1 s2 n)"

text \<open>Backwards: \<open>i\<close> counts down from \<open>n\<close>, and the result counts the bytes matched at the end.\<close>

function bwd_blocks :: "nat \<Rightarrow> (byte list \<Rightarrow> byte list \<Rightarrow> nat option) \<Rightarrow> byte list \<Rightarrow> byte list
    \<Rightarrow> nat \<Rightarrow> nat \<Rightarrow> (nat + nat, 'e) res" where
  "bwd_blocks w diff s1 s2 n i =
     (if 0 < w \<and> w \<le> i then
        bindR (load w s1 (i - w)) (\<lambda>a. bindR (load w s2 (i - w)) (\<lambda>b.
        case diff a b of
          Some k \<Rightarrow> Ok (Inl (n - i + k))
        | None \<Rightarrow> bwd_blocks w diff s1 s2 n (i - w)))
      else Ok (Inr i))"
  by pat_completeness auto
termination by (relation "measure (\<lambda>(w, diff, s1, s2, n, i). i)") auto

declare bwd_blocks.simps [simp del]

definition bwd_block :: "nat \<Rightarrow> (byte list \<Rightarrow> byte list \<Rightarrow> nat option) \<Rightarrow> byte list \<Rightarrow> byte list
    \<Rightarrow> nat \<Rightarrow> nat \<Rightarrow> (nat + nat, 'e) res" where
  "bwd_block w diff s1 s2 n i =
     (if w \<le> i then
        bindR (load w s1 (i - w)) (\<lambda>a. bindR (load w s2 (i - w)) (\<lambda>b.
        case diff a b of Some k \<Rightarrow> Ok (Inl (n - i + k)) | None \<Rightarrow> Ok (Inr (i - w))))
      else Ok (Inr i))"

fun bwd_tail :: "byte list \<Rightarrow> byte list \<Rightarrow> nat \<Rightarrow> nat \<Rightarrow> (nat, 'e) res" where
  "bwd_tail s1 s2 n 0 = Ok n"
| "bwd_tail s1 s2 n (Suc i) =
     bindR (index_at s1 i) (\<lambda>a. bindR (index_at s2 i) (\<lambda>b.
     if a = b then bwd_tail s1 s2 n i else Ok (n - Suc i)))"

definition backward_match_scalar :: "bool \<Rightarrow> byte list \<Rightarrow> byte list \<Rightarrow> nat \<Rightarrow> (nat, 'e) res" where
  "backward_match_scalar le s1 s2 n = after_blocks (bwd_blocks 8 (scalar_rdiff le) s1 s2 n n) (bwd_tail s1 s2 n)"

definition backward_match_avx2 :: "byte list \<Rightarrow> byte list \<Rightarrow> nat \<Rightarrow> (nat, 'e) res" where
  "backward_match_avx2 s1 s2 n =
     after_blocks (bwd_blocks 32 avx2_rdiff s1 s2 n n) (\<lambda>i.
     after_blocks (bwd_block 16 sse2_rdiff s1 s2 n i) (bwd_tail s1 s2 n))"

definition backward_match_sse2 :: "byte list \<Rightarrow> byte list \<Rightarrow> nat \<Rightarrow> (nat, 'e) res" where
  "backward_match_sse2 s1 s2 n = after_blocks (bwd_blocks 16 sse2_rdiff s1 s2 n n) (bwd_tail s1 s2 n)"

definition backward_match_neon :: "byte list \<Rightarrow> byte list \<Rightarrow> nat \<Rightarrow> (nat, 'e) res" where
  "backward_match_neon s1 s2 n = after_blocks (bwd_blocks 16 neon_rdiff s1 s2 n n) (bwd_tail s1 s2 n)"

text \<open>Runs: the second operand of each compare is the broadcast byte.\<close>

function run_blocks :: "nat \<Rightarrow> (byte list \<Rightarrow> byte list \<Rightarrow> nat option) \<Rightarrow> byte list \<Rightarrow> byte
    \<Rightarrow> nat \<Rightarrow> nat \<Rightarrow> (nat + nat, 'e) res" where
  "run_blocks w diff data c n i =
     (if 0 < w \<and> i + w \<le> n then
        bindR (load w data i) (\<lambda>a.
        case diff a (replicate w c) of
          Some k \<Rightarrow> Ok (Inl (i + k))
        | None \<Rightarrow> run_blocks w diff data c n (i + w))
      else Ok (Inr i))"
  by pat_completeness auto
termination by (relation "measure (\<lambda>(w, diff, data, c, n, i). n - i)") auto

declare run_blocks.simps [simp del]

definition run_block :: "nat \<Rightarrow> (byte list \<Rightarrow> byte list \<Rightarrow> nat option) \<Rightarrow> byte list \<Rightarrow> byte
    \<Rightarrow> nat \<Rightarrow> nat \<Rightarrow> (nat + nat, 'e) res" where
  "run_block w diff data c n i =
     (if i + w \<le> n then
        bindR (load w data i) (\<lambda>a.
        case diff a (replicate w c) of Some k \<Rightarrow> Ok (Inl (i + k)) | None \<Rightarrow> Ok (Inr (i + w)))
      else Ok (Inr i))"

function run_tail_from :: "byte list \<Rightarrow> byte \<Rightarrow> nat \<Rightarrow> nat \<Rightarrow> (nat, 'e) res" where
  "run_tail_from data c n i =
     (if i < n then
        bindR (index_at data i) (\<lambda>a. if a = c then run_tail_from data c n (i + 1) else Ok i)
      else Ok i)"
  by pat_completeness auto
termination by (relation "measure (\<lambda>(data, c, n, i). n - i)") auto

declare run_tail_from.simps [simp del]

definition find_run_length_scalar :: "byte list \<Rightarrow> byte \<Rightarrow> nat \<Rightarrow> (nat, 'e) res" where
  "find_run_length_scalar data c n = run_tail_from data c n 0"

definition find_run_length_avx2 :: "byte list \<Rightarrow> byte \<Rightarrow> nat \<Rightarrow> (nat, 'e) res" where
  "find_run_length_avx2 data c n =
     after_blocks (run_blocks 32 avx2_diff data c n 0) (\<lambda>i.
     after_blocks (run_block 16 sse2_diff data c n i) (run_tail_from data c n))"

definition find_run_length_sse2 :: "byte list \<Rightarrow> byte \<Rightarrow> nat \<Rightarrow> (nat, 'e) res" where
  "find_run_length_sse2 data c n = after_blocks (run_blocks 16 sse2_diff data c n 0) (run_tail_from data c n)"

definition find_run_length_neon :: "byte list \<Rightarrow> byte \<Rightarrow> nat \<Rightarrow> (nat, 'e) res" where
  "find_run_length_neon data c n = after_blocks (run_blocks 16 neon_diff data c n 0) (run_tail_from data c n)"

text \<open>The dispatch on the target architecture and, on x86-64, on the detected features.\<close>

text \<open>\<open>X86_64 avx2 sse2\<close> has the given features; \<open>OtherArch le\<close> is little-endian or not.\<close>

datatype Cpu = X86_64 bool bool | Aarch64 | OtherArch bool

fun forward_match_fn :: "Cpu \<Rightarrow> byte list \<Rightarrow> byte list \<Rightarrow> nat \<Rightarrow> (nat, 'e) res" where
  "forward_match_fn (X86_64 avx2 sse2) =
     (if avx2 then forward_match_avx2 else if sse2 then forward_match_sse2 else forward_match_scalar True)"
| "forward_match_fn Aarch64 = forward_match_neon"
| "forward_match_fn (OtherArch le) = forward_match_scalar le"

fun backward_match_fn :: "Cpu \<Rightarrow> byte list \<Rightarrow> byte list \<Rightarrow> nat \<Rightarrow> (nat, 'e) res" where
  "backward_match_fn (X86_64 avx2 sse2) =
     (if avx2 then backward_match_avx2 else if sse2 then backward_match_sse2 else backward_match_scalar True)"
| "backward_match_fn Aarch64 = backward_match_neon"
| "backward_match_fn (OtherArch le) = backward_match_scalar le"

fun run_length_fn :: "Cpu \<Rightarrow> byte list \<Rightarrow> byte \<Rightarrow> nat \<Rightarrow> (nat, 'e) res" where
  "run_length_fn (X86_64 avx2 sse2) =
     (if avx2 then find_run_length_avx2 else if sse2 then find_run_length_sse2 else find_run_length_scalar)"
| "run_length_fn Aarch64 = find_run_length_neon"
| "run_length_fn (OtherArch le) = find_run_length_scalar"

definition forward_match :: "Cpu \<Rightarrow> byte list \<Rightarrow> byte list \<Rightarrow> nat \<Rightarrow> (nat, 'e) res" where
  "forward_match cpu s1 s2 n = forward_match_fn cpu s1 s2 (min (min n (length s1)) (length s2))"

definition backward_match :: "Cpu \<Rightarrow> byte list \<Rightarrow> byte list \<Rightarrow> nat \<Rightarrow> (nat, 'e) res" where
  "backward_match cpu s1 s2 n = backward_match_fn cpu s1 s2 (min (min n (length s1)) (length s2))"

definition find_run_length :: "Cpu \<Rightarrow> byte list \<Rightarrow> byte \<Rightarrow> nat \<Rightarrow> (nat, 'e) res" where
  "find_run_length cpu data c mx = run_length_fn cpu data c (min mx (length data))"

section \<open>Common prefixes and suffixes\<close>

definition prefix_len :: "'a list \<Rightarrow> 'a list \<Rightarrow> nat" where
  "prefix_len a b = length (takeWhile (\<lambda>(x, y). x = y) (zip a b))"

definition suffix_len :: "'a list \<Rightarrow> 'a list \<Rightarrow> nat" where
  "suffix_len a b = prefix_len (rev a) (rev b)"

lemma prefix_len_Nil [simp]: "prefix_len [] b = 0" "prefix_len a [] = 0"
  by (simp_all add: prefix_len_def)

lemma prefix_len_Cons [simp]: "prefix_len (x # a) (y # b) = (if x = y then Suc (prefix_len a b) else 0)"
  by (simp add: prefix_len_def)

lemma prefix_len_same [simp]: "prefix_len a a = length a"
  by (induction a) simp_all

lemma prefix_len_append:
  "length a = length b \<Longrightarrow>
     prefix_len (a @ c) (b @ d) = (if a = b then length a + prefix_len c d else prefix_len a b)"
  by (induction a b rule: list_induct2) auto

lemma prefix_len_le: "prefix_len a b \<le> length a" "prefix_len a b \<le> length b"
  unfolding prefix_len_def using length_takeWhile_le [of "\<lambda>(x, y). x = y" "zip a b"] by auto

lemma prefix_len_take: "take (prefix_len a b) a = take (prefix_len a b) b"
proof (induction a arbitrary: b)
  case (Cons x a)
  then show ?case by (cases b) auto
qed simp

lemma prefix_len_nth:
  "prefix_len a b < length a \<Longrightarrow> prefix_len a b < length b
     \<Longrightarrow> a ! prefix_len a b \<noteq> b ! prefix_len a b"
proof (induction a arbitrary: b)
  case (Cons x a)
  then show ?case by (cases b) (auto split: if_splits)
qed simp

lemma prefix_len_less: "length a = length b \<Longrightarrow> a \<noteq> b \<Longrightarrow> prefix_len a b < length a"
  by (induction a b rule: list_induct2) auto

lemma zip_upt: "length a = length b \<Longrightarrow> zip a b = map (\<lambda>i. (a ! i, b ! i)) [0..<length a]"
  by (rule nth_equalityI) simp_all

lemma prefix_len_upt:
  "length a = length b \<Longrightarrow> prefix_len a b = length (takeWhile (\<lambda>i. a ! i = b ! i) [0..<length a])"
  by (simp add: prefix_len_def zip_upt takeWhile_map comp_def)

lemma suffix_len_upt:
  assumes "length a = length b"
  shows "suffix_len a b = length (takeWhile (\<lambda>i. a ! i = b ! i) (rev [0..<length a]))"
proof -
  have "zip (rev a) (rev b) = map (\<lambda>i. (a ! i, b ! i)) (rev [0..<length a])"
    using assms by (intro nth_equalityI) (simp_all add: rev_nth)
  then show ?thesis by (simp add: suffix_len_def prefix_len_def takeWhile_map comp_def)
qed

lemma prefix_len_nth_less: "i < prefix_len a b \<Longrightarrow> a ! i = b ! i"
  by (metis nth_take prefix_len_take)

section \<open>Block compares\<close>

lemma bit_movemask_eq:
  "length a = length b \<Longrightarrow> bit (movemask_eq a b) i \<longleftrightarrow> i < min 32 (length a) \<and> a ! i = b ! i"
  by (auto simp: movemask_eq_def bit_horner_sum_bit_word_iff)

lemma find_takeWhile:
  "List.find P xs = (if \<exists>x\<in>set xs. P x then Some (xs ! length (takeWhile (\<lambda>x. \<not> P x) xs)) else None)"
  by (induction xs) auto

lemma eq_by_nth: "length a = length b \<Longrightarrow> a = b \<longleftrightarrow> (\<forall>i < length a. a ! i = b ! i)"
  by (simp add: list_eq_iff_nth_eq)

lemma avx2_mask:
  assumes "length a = 32" "length b = 32"
  shows "movemask_eq a b = 0xFFFFFFFF \<longleftrightarrow> a = b"
proof -
  have "movemask_eq a b = - 1 \<longleftrightarrow> a = b"
    using assms by (auto simp: bit_eq_iff [where ?'a = u32] bit_movemask_eq eq_by_nth)
  moreover have "(0xFFFFFFFF :: u32) = - 1" by simp
  ultimately show ?thesis by (simp only:)
qed

lemma sse2_mask:
  assumes "length a = 16" "length b = 16"
  shows "movemask_eq a b = 0xFFFF \<longleftrightarrow> a = b"
proof -
  have lt: "i < 32" if "i < 16" for i :: nat using that by simp
  have "movemask_eq a b = mask 16 \<longleftrightarrow> a = b"
    using assms by (simp add: bit_eq_iff [where ?'a = u32] bit_movemask_eq eq_by_nth bit_mask_iff)
      (use lt in blast)
  then show ?thesis by (simp add: mask_eq_exp_minus_1)
qed

lemmas mask_lengths = trailing_zeros_def leading_ones_def leading_zeros_def

lemma avx2_diff_correct:
  "length a = 32 \<Longrightarrow> length b = 32 \<Longrightarrow> avx2_diff a b = (if a = b then None else Some (prefix_len a b))"
  by (auto simp: avx2_diff_def avx2_mask mask_lengths prefix_len_upt bit_not_iff bit_movemask_eq
      intro!: arg_cong [where f = length] takeWhile_cong)

lemma sse2_diff_correct:
  "length a = 16 \<Longrightarrow> length b = 16 \<Longrightarrow> sse2_diff a b = (if a = b then None else Some (prefix_len a b))"
  by (auto simp: sse2_diff_def sse2_mask mask_lengths prefix_len_upt bit_not_iff bit_ucast_iff bit_movemask_eq
      intro!: arg_cong [where f = length] takeWhile_cong)

lemma avx2_rdiff_correct:
  "length a = 32 \<Longrightarrow> length b = 32 \<Longrightarrow> avx2_rdiff a b = (if a = b then None else Some (suffix_len a b))"
  by (auto simp: avx2_rdiff_def avx2_mask mask_lengths suffix_len_upt bit_not_iff bit_movemask_eq
      intro!: arg_cong [where f = length] takeWhile_cong)

lemma sse2_rdiff_correct:
  "length a = 16 \<Longrightarrow> length b = 16 \<Longrightarrow> sse2_rdiff a b = (if a = b then None else Some (suffix_len a b))"
  by (auto simp: sse2_rdiff_def sse2_mask mask_lengths suffix_len_upt bit_not_iff bit_ucast_iff bit_movemask_eq
      intro!: arg_cong [where f = length] takeWhile_cong)

lemma cmp_bytes_eq:
  assumes "length a = length b"
  shows "0 \<in> set (cmp_bytes a b) \<longleftrightarrow> a \<noteq> b"
    and "i < length a \<Longrightarrow> map NOT (cmp_bytes a b) ! i \<noteq> 0 \<longleftrightarrow> a ! i \<noteq> b ! i"
proof -
  have len: "length (cmp_bytes a b) = length a" using assms by (simp add: cmp_bytes_def)
  have nth: "cmp_bytes a b ! i = (if a ! i = b ! i then 0xFF else 0)" if "i < length a" for i
    using that assms by (simp add: cmp_bytes_def)
  show "0 \<in> set (cmp_bytes a b) \<longleftrightarrow> a \<noteq> b"
    unfolding in_set_conv_nth eq_by_nth [OF assms] len using nth by auto
  show "i < length a \<Longrightarrow> map NOT (cmp_bytes a b) ! i \<noteq> 0 \<longleftrightarrow> a ! i \<noteq> b ! i"
    using nth by (simp add: len)
qed

lemma length_takeWhile_lt: "\<exists>x\<in>set xs. \<not> P x \<Longrightarrow> length (takeWhile P xs) < length xs"
  by (induction xs) auto

lemma takeWhile_upt_nth:
  assumes "\<exists>i < n. \<not> P i"
  shows "[0..<n] ! length (takeWhile P [0..<n]) = length (takeWhile P [0..<n])"
proof -
  from assms have "length (takeWhile P [0..<n]) < n"
    using length_takeWhile_lt [of "[0..<n]" P] by (force simp: Bex_def)
  then show ?thesis by simp
qed

lemma neon_diff_correct:
  assumes "length a = 16" "length b = 16"
  shows "neon_diff a b = (if a = b then None else Some (prefix_len a b))"
proof (cases "a = b")
  case False
  then have ex: "\<exists>i<16. a ! i \<noteq> b ! i" using assms by (simp add: eq_by_nth)
  have "takeWhile (\<lambda>j. map NOT (cmp_bytes a b) ! j = 0) [0..<16] = takeWhile (\<lambda>j. a ! j = b ! j) [0..<16]"
    using assms cmp_bytes_eq(2) [of a b] by (intro takeWhile_cong) auto
  moreover have "\<exists>j\<in>{0..<16}. map NOT (cmp_bytes a b) ! j \<noteq> 0"
    using ex assms cmp_bytes_eq(2) [of a b] by auto
  ultimately have "List.find (\<lambda>j. map NOT (cmp_bytes a b) ! j \<noteq> 0) [0..<16] = Some (prefix_len a b)"
    using assms takeWhile_upt_nth [OF ex] by (simp add: find_takeWhile prefix_len_upt)
  then show ?thesis
    using False assms by (simp add: neon_diff_def cmp_bytes_eq Let_def)
qed (simp add: neon_diff_def cmp_bytes_eq)

lemma neon_rdiff_correct:
  assumes "length a = 16" "length b = 16"
  shows "neon_rdiff a b = (if a = b then None else Some (suffix_len a b))"
proof (cases "a = b")
  case False
  let ?t = "takeWhile (\<lambda>j. a ! j = b ! j) (rev [0..<16])"
  from False have ex: "\<exists>i<16. a ! i \<noteq> b ! i" using assms by (simp add: eq_by_nth)
  have tw: "takeWhile (\<lambda>j. map NOT (cmp_bytes a b) ! j = 0) (rev [0..<16]) = ?t"
    using assms cmp_bytes_eq(2) [of a b] by (intro takeWhile_cong) auto
  from ex have lt: "length ?t < 16"
    using length_takeWhile_lt [of "rev [0..<16]" "\<lambda>j. a ! j = b ! j"]
    by (force simp: Bex_def simp del: upt_rec_numeral)
  have "\<exists>j\<in>{0..<16}. map NOT (cmp_bytes a b) ! j \<noteq> 0"
    using ex assms cmp_bytes_eq(2) [of a b] by auto
  then have "List.find (\<lambda>j. map NOT (cmp_bytes a b) ! j \<noteq> 0) (rev [0..<16]) = Some (15 - length ?t)"
    using lt by (simp add: find_takeWhile tw rev_nth del: upt_rec_numeral)
  then show ?thesis
    using False assms lt
    by (simp add: neon_rdiff_def cmp_bytes_eq suffix_len_upt Let_def del: upt_rec_numeral)
qed (simp add: neon_rdiff_def cmp_bytes_eq)

text \<open>The \<open>u64\<close> compare: the byte holding the lowest (highest) set bit of the XOR.\<close>

lemma nth_concat_uniform:
  "\<forall>xs\<in>set xss. length xs = k \<Longrightarrow> 0 < k \<Longrightarrow> n < k * length xss
     \<Longrightarrow> concat xss ! n = xss ! (n div k) ! (n mod k)"
proof (induction xss arbitrary: n)
  case (Cons xs xss)
  show ?case
  proof (cases "n < k")
    case False
    then obtain m where m: "n = m + k" by (metis add.commute le_Suc_ex not_less)
    moreover have "(m + k) div k = Suc (m div k)" using Cons.prems(2) by (simp add: div_add_self2)
    ultimately show ?thesis using Cons by (simp add: nth_append)
  qed (use Cons in \<open>simp add: nth_append\<close>)
qed simp

lemma length_concat_uniform: "\<forall>xs\<in>set xss. length xs = k \<Longrightarrow> length (concat xss) = k * length xss"
  by (induction xss) auto

lemma bit_read_u64_le:
  assumes "length bs = 8" "n < 64"
  shows "bit (read_u64_le bs) n \<longleftrightarrow> bit (bs ! (n div 8)) (n mod 8)"
proof -
  let ?xss = "map (\<lambda>b. map (bit b) [0..<8]) bs"
  have "n div 8 < 8" using assms by auto
  moreover have "concat ?xss ! n = ?xss ! (n div 8) ! (n mod 8)"
    by (rule nth_concat_uniform) (use assms in auto)
  moreover have "length (concat ?xss) = 64"
    using assms length_concat_uniform [of ?xss 8] by simp
  ultimately show ?thesis
    using assms by (simp add: read_u64_le_def bit_horner_sum_bit_word_iff del: upt_rec_numeral)
qed

lemma xor_bytes:
  assumes "length a = 8" "length b = 8" "n < 64"
  shows "bit (read_u64_le a XOR read_u64_le b) n \<longleftrightarrow> bit (a ! (n div 8)) (n mod 8) \<noteq> bit (b ! (n div 8)) (n mod 8)"
  using assms by (simp add: bit_xor_iff bit_read_u64_le)

lemma differing_bit: "(x :: byte) \<noteq> y \<Longrightarrow> \<exists>j<8. bit x j \<noteq> bit y j"
  by (auto simp: bit_eq_iff)

lemma trailing_zeros_bit:
  fixes w :: "'w::len word"
  assumes "w \<noteq> 0"
  shows "bit w (trailing_zeros w)" and "trailing_zeros w < LENGTH('w)"
    and "i < trailing_zeros w \<Longrightarrow> \<not> bit w i"
proof -
  let ?t = "takeWhile (\<lambda>i. \<not> bit w i) [0..<LENGTH('w)]"
  from assms obtain n where "bit w n" by (auto simp: bit_eq_iff)
  then have "\<exists>x\<in>set [0..<LENGTH('w)]. bit w x"
    by (metis atLeastLessThan_iff bit_imp_le_length set_upt zero_le)
  then show lt: "trailing_zeros w < LENGTH('w)"
    unfolding trailing_zeros_def
    using length_takeWhile_lt [of "[0..<LENGTH('w)]" "\<lambda>i. \<not> bit w i"] by simp
  then have "\<not> \<not> bit w ([0..<LENGTH('w)] ! length ?t)"
    by (intro nth_length_takeWhile) (simp add: trailing_zeros_def)
  then show "bit w (trailing_zeros w)" using lt by (simp add: trailing_zeros_def)
  show "\<not> bit w i" if "i < trailing_zeros w"
  proof -
    have "?t ! i \<in> set ?t" using that by (simp add: trailing_zeros_def)
    moreover have "?t ! i = i" using that lt by (simp add: trailing_zeros_def takeWhile_nth)
    ultimately show ?thesis by (auto dest: set_takeWhileD)
  qed
qed

lemma leading_zeros_bit:
  fixes w :: "'w::len word"
  assumes "w \<noteq> 0"
  shows "leading_zeros w < LENGTH('w)" and "bit w (LENGTH('w) - Suc (leading_zeros w))"
    and "i < leading_zeros w \<Longrightarrow> \<not> bit w (LENGTH('w) - Suc i)"
proof -
  let ?t = "takeWhile (\<lambda>i. \<not> bit w i) (rev [0..<LENGTH('w)])"
  from assms obtain n where "bit w n" by (auto simp: bit_eq_iff)
  then have "\<exists>x\<in>set (rev [0..<LENGTH('w)]). bit w x"
    by (metis atLeastLessThan_iff bit_imp_le_length set_rev set_upt zero_le)
  then show lt: "leading_zeros w < LENGTH('w)"
    unfolding leading_zeros_def
    using length_takeWhile_lt [of "rev [0..<LENGTH('w)]" "\<lambda>i. \<not> bit w i"] by simp
  then have "\<not> \<not> bit w (rev [0..<LENGTH('w)] ! length ?t)"
    by (intro nth_length_takeWhile) (simp add: leading_zeros_def)
  then show "bit w (LENGTH('w) - Suc (leading_zeros w))" using lt by (simp add: leading_zeros_def rev_nth)
  show "\<not> bit w (LENGTH('w) - Suc i)" if "i < leading_zeros w"
  proof -
    have "?t ! i \<in> set ?t" using that by (simp add: leading_zeros_def)
    moreover have "?t ! i = LENGTH('w) - Suc i" using that lt by (simp add: leading_zeros_def takeWhile_nth rev_nth)
    ultimately show ?thesis by (auto dest: set_takeWhileD)
  qed
qed

lemma xor_eq_0:
  assumes "length a = 8" "length b = 8"
  shows "read_u64_le a XOR read_u64_le b = 0 \<longleftrightarrow> a = b"
proof
  assume x: "read_u64_le a XOR read_u64_le b = 0"
  show "a = b"
  proof (rule ccontr)
    assume "a \<noteq> b"
    then obtain i where i: "i < 8" "a ! i \<noteq> b ! i" using assms by (auto simp: eq_by_nth)
    then obtain j where "j < 8" "bit (a ! i) j \<noteq> bit (b ! i) j" using differing_bit by blast
    then have "bit (read_u64_le a XOR read_u64_le b) (8 * i + j)"
      using assms i by (simp add: xor_bytes)
    with x show False by simp
  qed
qed simp

lemma xor_trailing:
  assumes len: "length a = 8" "length b = 8" and "a \<noteq> b"
  shows "trailing_zeros (read_u64_le a XOR read_u64_le b) div 8 = prefix_len a b"
proof -
  define t where "t = trailing_zeros (read_u64_le a XOR read_u64_le b)"
  define k where "k = prefix_len a b"
  have k: "k < 8" "a ! k \<noteq> b ! k"
    using assms prefix_len_less [of a b] prefix_len_nth [of a b] by (auto simp: k_def)
  then obtain j where j: "j < 8" "bit (a ! k) j \<noteq> bit (b ! k) j" using differing_bit by blast
  have "read_u64_le a XOR read_u64_le b \<noteq> 0" using assms by (simp add: xor_eq_0)
  note t = trailing_zeros_bit [OF this, folded t_def]
  have "bit (read_u64_le a XOR read_u64_le b) (8 * k + j)" using j k len by (simp add: xor_bytes)
  then have "t \<le> 8 * k + j" using t(3) by (meson not_less)
  moreover have "\<not> t div 8 < k"
    using t(1,2) len prefix_len_nth_less [of "t div 8" a b] by (auto simp: xor_bytes k_def)
  ultimately show ?thesis using j by (fold t_def k_def) auto
qed

lemma xor_leading:
  assumes len: "length a = 8" "length b = 8" and "a \<noteq> b"
  shows "leading_zeros (read_u64_le a XOR read_u64_le b) div 8 = suffix_len a b"
proof -
  define t where "t = leading_zeros (read_u64_le a XOR read_u64_le b)"
  define k where "k = suffix_len a b"
  have "rev a \<noteq> rev b" using assms by simp
  then have k: "k < 8" "a ! (7 - k) \<noteq> b ! (7 - k)"
    using len prefix_len_less [of "rev a" "rev b"] prefix_len_nth [of "rev a" "rev b"]
    by (auto simp: k_def suffix_len_def rev_nth)
  then obtain j where j: "j < 8" "bit (a ! (7 - k)) j \<noteq> bit (b ! (7 - k)) j" using differing_bit by blast
  have "read_u64_le a XOR read_u64_le b \<noteq> 0" using assms by (simp add: xor_eq_0)
  note t = leading_zeros_bit [OF this, folded t_def, simplified]
  have "bit (read_u64_le a XOR read_u64_le b) (8 * (7 - k) + j)" using j k len by (simp add: xor_bytes)
  moreover have "8 * (7 - k) + j = 63 - (8 * k + (7 - j))" using j k by simp
  ultimately have "t \<le> 8 * k + (7 - j)" using t(3) by (metis not_less)
  moreover have "\<not> t div 8 < k"
  proof
    assume lt: "t div 8 < k"
    have "(63 - t) div 8 = 7 - t div 8" using t(1) by auto
    then show False
      using t(1,2) len lt k(1) prefix_len_nth_less [of "t div 8" "rev a" "rev b"]
      by (simp add: xor_bytes k_def suffix_len_def rev_nth)
  qed
  ultimately show ?thesis using j by (fold t_def k_def) auto
qed

lemma scalar_diff_correct:
  "length a = 8 \<Longrightarrow> length b = 8 \<Longrightarrow> scalar_diff le a b = (if a = b then None else Some (prefix_len a b))"
  using xor_leading [of "rev a" "rev b"]
  by (simp add: scalar_diff_def read_unaligned_def xor_eq_0 xor_trailing suffix_len_def)

lemma scalar_rdiff_correct:
  "length a = 8 \<Longrightarrow> length b = 8 \<Longrightarrow> scalar_rdiff le a b = (if a = b then None else Some (suffix_len a b))"
  using xor_trailing [of "rev a" "rev b"]
  by (simp add: scalar_rdiff_def read_unaligned_def xor_eq_0 xor_leading suffix_len_def)

section \<open>The kernels\<close>

lemma after_blocks_simps [simp]:
  "after_blocks (Ok (Inl k)) f = Ok k" "after_blocks (Ok (Inr i)) f = f i"
  by (simp_all add: after_blocks_def)

lemma load_Ok [simp]: "i + w \<le> length s \<Longrightarrow> load w s i = Ok (take w (drop i s))"
  by (simp add: load_def)

lemma prefix_len_block:
  assumes "n \<le> length s1" "n \<le> length s2" "i + w \<le> n" "take i s1 = take i s2"
  defines "a \<equiv> take w (drop i s1)" and "b \<equiv> take w (drop i s2)"
  shows "a \<noteq> b \<Longrightarrow> prefix_len (take n s1) (take n s2) = i + prefix_len a b"
    and "a = b \<Longrightarrow> take (i + w) s1 = take (i + w) s2"
proof -
  have split: "take n s = take i s @ take w (drop i s) @ take (n - i - w) (drop (i + w) s)" for s :: "'a list"
    using assms(3) by (metis add.assoc add_diff_cancel_left' diff_diff_left drop_drop le_Suc_ex add.commute take_add)
  show "a \<noteq> b \<Longrightarrow> prefix_len (take n s1) (take n s2) = i + prefix_len a b"
    using assms by (simp add: split prefix_len_append)
  show "a = b \<Longrightarrow> take (i + w) s1 = take (i + w) s2"
    using assms by (simp add: take_add)
qed

lemma fwd_tail_correct:
  assumes "n \<le> length s1" "n \<le> length s2" "i \<le> n" "take i s1 = take i s2"
  shows "fwd_tail s1 s2 n i = Ok (prefix_len (take n s1) (take n s2))"
  using assms(3,4)
proof (induction "n - i" arbitrary: i rule: less_induct)
  case less
  show ?case
  proof (cases "i < n")
    case True
    have "take 1 (drop i s1) = [s1 ! i]" "take 1 (drop i s2) = [s2 ! i]"
      using assms True by (simp_all add: take_Suc hd_drop_conv_nth)
    then show ?thesis
      using less assms(1,2) True prefix_len_block [of n s1 s2 i 1] by (subst fwd_tail.simps) simp
  next
    case False
    with less.prems assms(1,2) show ?thesis by (subst fwd_tail.simps) simp
  qed
qed

text \<open>The contract of a block compare, and what the loops around it compute.\<close>

locale block_compare =
  fixes w :: nat and diff :: "byte list \<Rightarrow> byte list \<Rightarrow> nat option"
  assumes width: "0 < w"
    and diff: "length a = w \<Longrightarrow> length b = w \<Longrightarrow> diff a b = (if a = b then None else Some (prefix_len a b))"
begin

lemma blocks:
  assumes "n \<le> length s1" "n \<le> length s2" "i \<le> n" "take i s1 = take i s2"
    and "\<And>j. j \<le> n \<Longrightarrow> take j s1 = take j s2 \<Longrightarrow> f j = Ok (prefix_len (take n s1) (take n s2))"
  shows "after_blocks (fwd_blocks w diff s1 s2 n i) f = Ok (prefix_len (take n s1) (take n s2))"
  using assms(3,4)
proof (induction "n - i" arbitrary: i rule: less_induct)
  case less
  show ?case
  proof (cases "i + w \<le> n")
    case True
    then show ?thesis
      using less assms(1,2) width prefix_len_block [of n s1 s2 i w]
      by (subst fwd_blocks.simps) (simp add: diff)
  next
    case False
    then show ?thesis using less.prems assms(5) by (subst fwd_blocks.simps) simp
  qed
qed

lemma block:
  assumes "n \<le> length s1" "n \<le> length s2" "i \<le> n" "take i s1 = take i s2"
    and "\<And>j. j \<le> n \<Longrightarrow> take j s1 = take j s2 \<Longrightarrow> f j = Ok (prefix_len (take n s1) (take n s2))"
  shows "after_blocks (fwd_block w diff s1 s2 n i) f = Ok (prefix_len (take n s1) (take n s2))"
  using assms prefix_len_block [of n s1 s2 i w] by (simp add: fwd_block_def diff)

end

interpretation scalar_block: block_compare 8 "scalar_diff le" for le
  by unfold_locales (simp_all add: scalar_diff_correct)

interpretation avx2_block: block_compare 32 avx2_diff
  by unfold_locales (simp_all add: avx2_diff_correct)

interpretation sse2_block: block_compare 16 sse2_diff
  by unfold_locales (simp_all add: sse2_diff_correct)

interpretation neon_block: block_compare 16 neon_diff
  by unfold_locales (simp_all add: neon_diff_correct)

lemmas forward_defs = forward_match_scalar_def forward_match_avx2_def forward_match_sse2_def forward_match_neon_def

lemma forward_match_fn_correct:
  assumes "n \<le> length s1" "n \<le> length s2"
  shows "forward_match_fn cpu s1 s2 n = Ok (prefix_len (take n s1) (take n s2))"
  using assms
  by (cases cpu) (simp_all add: forward_defs fwd_tail_correct scalar_block.blocks avx2_block.blocks
      sse2_block.block sse2_block.blocks neon_block.blocks)

lemma suffix_len_block:
  assumes "n \<le> length s1" "n \<le> length s2" "i \<le> n" "w \<le> i" "drop i (take n s1) = drop i (take n s2)"
  defines "a \<equiv> take w (drop (i - w) s1)" and "b \<equiv> take w (drop (i - w) s2)"
  shows "a \<noteq> b \<Longrightarrow> suffix_len (take n s1) (take n s2) = n - i + suffix_len a b"
    and "a = b \<Longrightarrow> drop (i - w) (take n s1) = drop (i - w) (take n s2)"
proof -
  have tail: "drop (i - w) (take n s) = take w (drop (i - w) s) @ drop i (take n s)" for s :: "'a list"
  proof -
    have "take w (drop (i - w) s) = take w (drop (i - w) (take n s))"
      using assms(3,4) by (simp add: drop_take)
    moreover have "drop i (take n s) = drop w (drop (i - w) (take n s))" using assms(4) by simp
    ultimately show ?thesis by (simp only: append_take_drop_id)
  qed
  have split: "take n s = take (i - w) s @ take w (drop (i - w) s) @ drop i (take n s)" for s :: "'a list"
    using append_take_drop_id [of "i - w" "take n s"] assms(3) by (simp add: tail min_absorb1)
  show "a \<noteq> b \<Longrightarrow> suffix_len (take n s1) (take n s2) = n - i + suffix_len a b"
    unfolding suffix_len_def using assms by (subst (1 2) split) (simp add: prefix_len_append)
  show "a = b \<Longrightarrow> drop (i - w) (take n s1) = drop (i - w) (take n s2)"
    using assms by (simp add: tail)
qed

lemma bwd_tail_correct:
  assumes "n \<le> length s1" "n \<le> length s2"
  shows "i \<le> n \<Longrightarrow> drop i (take n s1) = drop i (take n s2)
    \<Longrightarrow> bwd_tail s1 s2 n i = Ok (suffix_len (take n s1) (take n s2))"
proof (induction i)
  case (Suc i)
  have "take 1 (drop i s1) = [s1 ! i]" "take 1 (drop i s2) = [s2 ! i]"
    using assms Suc.prems by (simp_all add: take_Suc hd_drop_conv_nth)
  then show ?case
    using Suc assms suffix_len_block [of n s1 s2 "Suc i" 1] by (simp add: suffix_len_def)
qed (use assms in \<open>simp add: suffix_len_def\<close>)

locale block_rcompare =
  fixes w :: nat and diff :: "byte list \<Rightarrow> byte list \<Rightarrow> nat option"
  assumes width: "0 < w"
    and diff: "length a = w \<Longrightarrow> length b = w \<Longrightarrow> diff a b = (if a = b then None else Some (suffix_len a b))"
begin

lemma blocks:
  assumes "n \<le> length s1" "n \<le> length s2" "i \<le> n" "drop i (take n s1) = drop i (take n s2)"
    and "\<And>j. j \<le> n \<Longrightarrow> drop j (take n s1) = drop j (take n s2)
      \<Longrightarrow> f j = Ok (suffix_len (take n s1) (take n s2))"
  shows "after_blocks (bwd_blocks w diff s1 s2 n i) f = Ok (suffix_len (take n s1) (take n s2))"
  using assms(3,4)
proof (induction i rule: less_induct)
  case (less i)
  show ?case
  proof (cases "w \<le> i")
    case True
    then show ?thesis
      using less assms(1,2) width suffix_len_block [of n s1 s2 i w]
      by (subst bwd_blocks.simps) (simp add: diff)
  next
    case False
    then show ?thesis using less.prems assms(5) by (subst bwd_blocks.simps) simp
  qed
qed

lemma block:
  assumes "n \<le> length s1" "n \<le> length s2" "i \<le> n" "drop i (take n s1) = drop i (take n s2)"
    and "\<And>j. j \<le> n \<Longrightarrow> drop j (take n s1) = drop j (take n s2)
      \<Longrightarrow> f j = Ok (suffix_len (take n s1) (take n s2))"
  shows "after_blocks (bwd_block w diff s1 s2 n i) f = Ok (suffix_len (take n s1) (take n s2))"
  using assms suffix_len_block [of n s1 s2 i w] by (simp add: bwd_block_def diff)

end

interpretation scalar_rblock: block_rcompare 8 "scalar_rdiff le" for le
  by unfold_locales (simp_all add: scalar_rdiff_correct)

interpretation avx2_rblock: block_rcompare 32 avx2_rdiff
  by unfold_locales (simp_all add: avx2_rdiff_correct)

interpretation sse2_rblock: block_rcompare 16 sse2_rdiff
  by unfold_locales (simp_all add: sse2_rdiff_correct)

interpretation neon_rblock: block_rcompare 16 neon_rdiff
  by unfold_locales (simp_all add: neon_rdiff_correct)

lemmas backward_defs =
  backward_match_scalar_def backward_match_avx2_def backward_match_sse2_def backward_match_neon_def

lemma backward_match_fn_correct:
  assumes "n \<le> length s1" "n \<le> length s2"
  shows "backward_match_fn cpu s1 s2 n = Ok (suffix_len (take n s1) (take n s2))"
  using assms
  by (cases cpu) (simp_all add: backward_defs bwd_tail_correct scalar_rblock.blocks avx2_rblock.blocks
      sse2_rblock.block sse2_rblock.blocks neon_rblock.blocks)

text \<open>A run is a forward match against the repeated byte.\<close>

lemma load_replicate: "i + w \<le> n \<Longrightarrow> load w (replicate n c) i = Ok (replicate w c)"
  by (simp add: drop_replicate take_replicate min_absorb1)

lemma run_tail_from_eq: "(run_tail_from data c n i :: (nat, 'e) res) = fwd_tail data (replicate n c) n i"
proof (induction "n - i" arbitrary: i rule: less_induct)
  case less
  have "(run_tail_from data c n (i + 1) :: (nat, 'e) res) = fwd_tail data (replicate n c) n (i + 1)" if "i < n"
    by (rule less) (use that in simp)
  then show ?case by (subst run_tail_from.simps, subst fwd_tail.simps) (simp cong: if_cong)
qed

lemma run_blocks_eq:
  "(run_blocks w diff data c n i :: (nat + nat, 'e) res) = fwd_blocks w diff data (replicate n c) n i"
proof (induction "n - i" arbitrary: i rule: less_induct)
  case less
  have "(run_blocks w diff data c n (i + w) :: (nat + nat, 'e) res) = fwd_blocks w diff data (replicate n c) n (i + w)"
    if "0 < w" "i + w \<le> n"
    by (rule less) (use that in simp)
  then show ?case
    by (subst run_blocks.simps, subst fwd_blocks.simps) 
      (simp add: load_replicate del: load_Ok cong: option.case_cong)
qed

lemma run_block_eq: "run_block w diff data c n i = fwd_block w diff data (replicate n c) n i"
  by (simp add: run_block_def fwd_block_def load_replicate del: load_Ok)

definition run_len :: "byte list \<Rightarrow> byte \<Rightarrow> nat" where
  "run_len data c = length (takeWhile (\<lambda>x. x = c) data)"

lemma prefix_len_replicate: "length data = n \<Longrightarrow> prefix_len data (replicate n c) = run_len data c"
  by (induction data arbitrary: n) (auto simp: run_len_def)

lemmas run_defs = find_run_length_scalar_def find_run_length_avx2_def find_run_length_sse2_def
  find_run_length_neon_def

lemma run_length_fn_correct:
  assumes "n \<le> length data"
  shows "run_length_fn cpu data c n = Ok (run_len (take n data) c)"
proof -
  have "prefix_len (take n data) (replicate n c) = run_len (take n data) c"
    using assms by (simp add: prefix_len_replicate)
  then show ?thesis
    using assms
    by (cases cpu) (simp_all add: run_defs run_tail_from_eq run_blocks_eq run_block_eq fwd_tail_correct
        avx2_block.blocks sse2_block.block sse2_block.blocks neon_block.blocks)
qed

section \<open>Properties\<close>

text \<open>
  C28: On every CPU (AVX2, SSE2 or plain x86-64, NEON, and any other target of either endianness)
  the forward kernel returns exactly the length of the common prefix of \<open>s1[..n]\<close> and \<open>s2[..n]\<close>,
  where the public function clamps \<open>n\<close> to both lengths, and no load leaves a slice.
\<close>

theorem forward_match_correct:
  "forward_match cpu s1 s2 n = Ok (prefix_len (take n s1) (take n s2))"
proof -
  have "prefix_len (take k s1) (take k s2) = prefix_len (take n s1) (take n s2)"
    if "k = min (min n (length s1)) (length s2)" for k
  proof -
    have "zip (take n s1) (take n s2) = zip (take k s1) (take k s2)"
      unfolding that take_zip [symmetric] by (simp add: take_all_iff min_def)
    then show ?thesis by (simp add: prefix_len_def)
  qed
  then show ?thesis by (simp add: forward_match_def forward_match_fn_correct)
qed

text \<open>
  C29: On every CPU the backward kernel returns exactly the length of the common suffix of the first
  \<open>n\<close> bytes of its operands, with \<open>n\<close> clamped to both lengths, and no load leaves a slice.
\<close>

theorem backward_match_correct:
  "backward_match cpu s1 s2 n =
     (let m = min (min n (length s1)) (length s2) in Ok (suffix_len (take m s1) (take m s2)))"
  by (simp add: backward_match_def backward_match_fn_correct Let_def)

text \<open>
  C30: On every CPU the run kernel returns exactly the number of leading bytes equal to \<open>c\<close> among
  the first \<open>mx\<close> bytes, and no load leaves the slice.
\<close>

theorem find_run_length_correct:
  "find_run_length cpu data c mx = Ok (length (takeWhile (\<lambda>x. x = c) (take mx data)))"
proof -
  have "take (min mx (length data)) data = take mx data" by (simp add: min_def)
  then show ?thesis by (simp add: find_run_length_def run_length_fn_correct run_len_def)
qed

end
