(* ===== verification/Matching.thy ===== *)
theory Matching
  imports Code_Table Hash_Table Match_Kernels
begin

text \<open>
  The match engine of \<open>src/src/hash/matching.rs\<close>: indexing a source, scanning a target for runs,
  source matches and self matches, and turning the matches into instructions. The engine reads
  its source through the \<open>SourceData\<close> trait, a record here. Subtractions of positions are taken on
  natural numbers where the guards of the source keep them from wrapping, and on words elsewhere.
\<close>

section \<open>Definitions\<close>

datatype EncodeError = EncodeIo io_error

record Match =
  m_target_pos :: nat
  m_length :: nat
  m_addr :: u64
  m_is_source :: bool

subsection \<open>Source access\<close>

record SourceData =
  sd_len :: u64
  sd_get_bytes :: "u64 \<Rightarrow> nat \<Rightarrow> (byte list, EncodeError) res"  \<comment> \<open>the bytes put in a buffer of that size\<close>
  sd_as_slice :: "u64 \<Rightarrow> nat \<Rightarrow> (byte list option, EncodeError) res"

definition slice_get_bytes :: "byte list \<Rightarrow> u64 \<Rightarrow> nat \<Rightarrow> (byte list, EncodeError) res" where
  "slice_get_bytes src offset buf_len =
     (let off = unat offset in
      if length src \<le> off then Ok []
      else bindR (slice_from src off) (\<lambda>avail. Ok (take (min buf_len (length avail)) avail)))"

definition slice_as_slice :: "byte list \<Rightarrow> u64 \<Rightarrow> nat \<Rightarrow> (byte list option, EncodeError) res" where
  "slice_as_slice src offset len =
     (let stop = offset + of_nat len in
      if unat stop \<le> length src
      then bindR (slice_range src (unat offset) (unat stop)) (\<lambda>s. Ok (Some s))
      else Ok None)"

text \<open>The implementations for \<open>&[u8]\<close> and \<open>Vec<u8>\<close> are the same functions.\<close>

definition slice_data :: "byte list \<Rightarrow> SourceData" where
  "slice_data src = \<lparr> sd_len = of_nat (length src), sd_get_bytes = slice_get_bytes src,
     sd_as_slice = slice_as_slice src \<rparr>"

subsection \<open>The engine\<close>

text \<open>\<open>me_cpu\<close> stands for the three function pointers cached at construction.\<close>

record MatchEngine =
  me_config :: MatcherConfig
  me_large_hash :: LargeHash
  me_large_table :: LargeTable
  me_small_table :: SmallTable
  me_sprevsz :: nat
  match_srcpos :: u64
  me_cpu :: Cpu

definition checked_next_power_of_two :: "nat \<Rightarrow> nat option" where
  "checked_next_power_of_two n = map_option (\<lambda>k. 2 ^ k) (List.find (\<lambda>k. n \<le> 2 ^ k) [0..<64])"

text \<open>\<open>next_power_of_two\<close> wraps to 0 in a release build.\<close>

definition next_power_of_two :: "nat \<Rightarrow> nat" where
  "next_power_of_two n = (case checked_next_power_of_two n of Some p \<Rightarrow> p | None \<Rightarrow> 0)"

definition XD3_ALLOCSIZE :: nat where "XD3_ALLOCSIZE = 2 ^ 14"

definition large_slots_for :: "MatcherConfig \<Rightarrow> u64 \<Rightarrow> (nat, EncodeError) res" where
  "large_slots_for config source_len =
     (if 0 < source_len then
        let src_len = unat source_len;
            src_max_winsize = max (case checked_next_power_of_two src_len of Some p \<Rightarrow> p | None \<Rightarrow> src_len)
              XD3_ALLOCSIZE
        in if large_step config = 0 then Panic else Ok (max (src_max_winsize div large_step config) 8)
      else Ok 8)"

definition sprevsz_for :: "MatcherConfig \<Rightarrow> nat \<Rightarrow> nat" where
  "sprevsz_for config winsize =
     (if 1 < small_chain config \<or> 1 < small_lchain config
      then max (min (next_power_of_two winsize) DEFAULT_SPREVSZ) 16 else 0)"

definition MatchEngine_new :: "Cpu \<Rightarrow> MatcherConfig \<Rightarrow> u64 \<Rightarrow> nat \<Rightarrow> (MatchEngine, EncodeError) res" where
  "MatchEngine_new cpu config source_len winsize =
     bindR (large_slots_for config source_len) (\<lambda>large_slots.
     let sprevsz = sprevsz_for config winsize in
     Ok \<lparr> me_config = config, me_large_hash = LargeHash_new (large_look config),
          me_large_table = LargeTable_new large_slots,
          me_small_table = SmallTable_new winsize sprevsz, me_sprevsz = sprevsz,
          match_srcpos = 0, me_cpu = cpu \<rparr>)"

text \<open>
  The backward loop over one contiguous piece. With a step of 0 the loop does not return; the
  model gives that case the value \<open>Panic\<close>.
\<close>

function index_loop :: "LargeHash \<Rightarrow> nat \<Rightarrow> byte list \<Rightarrow> nat \<Rightarrow> nat \<Rightarrow> LargeTable \<Rightarrow> (LargeTable, EncodeError) res" where
  "index_loop lh step chunk offset pos t =
     bindR (slice_from chunk pos) (\<lambda>base.
     bindR (LargeHash_checksum lh base) (\<lambda>cksum.
     bindR (LargeTable_insert t cksum (of_nat (offset + pos))) (\<lambda>t.
     if pos < step then Ok t
     else if step = 0 then Panic
     else index_loop lh step chunk offset (pos - step) t)))"
  by pat_completeness auto
termination by (relation "measure (\<lambda>(lh, step, chunk, offset, pos, t). pos)") auto

declare index_loop.simps [simp del]

definition INDEX_CHUNK :: nat where "INDEX_CHUNK = 2 ^ 20"

function index_chunks :: "MatchEngine \<Rightarrow> SourceData \<Rightarrow> nat \<Rightarrow> nat \<Rightarrow> LargeTable \<Rightarrow> (LargeTable, EncodeError) res" where
  "index_chunks E source src_len offset t =
     (if offset < src_len then
        let stop = min (offset + INDEX_CHUNK) src_len; chunk_len = stop - offset in
        if chunk_len < large_look (me_config E) then Ok t
        else
        bindR (sd_as_slice source (of_nat offset) chunk_len) (\<lambda>c.
        bindR (case c of
                 Some chunk \<Rightarrow> index_loop (me_large_hash E) (large_step (me_config E)) chunk offset
                   (chunk_len - large_look (me_config E)) t
               | None \<Rightarrow> Ok t) (\<lambda>t.
        index_chunks E source src_len stop t))
      else Ok t)"
  by pat_completeness auto
termination by (relation "measure (\<lambda>(E, source, src_len, offset, t). src_len - offset)")
    (auto simp: INDEX_CHUNK_def)

declare index_chunks.simps [simp del]

definition index_source :: "MatchEngine \<Rightarrow> SourceData \<Rightarrow> (MatchEngine, EncodeError) res" where
  "index_source E source =
     (let src_len = unat (sd_len source); l = large_look (me_config E) in
      if src_len < l then Ok E
      else
      bindR (sd_as_slice source 0 src_len) (\<lambda>c.
      bindR (case c of
               Some src \<Rightarrow> index_loop (me_large_hash E) (large_step (me_config E)) src 0 (src_len - l) (me_large_table E)
             | None \<Rightarrow> index_chunks E source src_len 0 (me_large_table E)) (\<lambda>t.
      Ok (E\<lparr> me_large_table := t \<rparr>))))"

subsection \<open>Scan state\<close>

text \<open>The local variables of \<open>find_matches\<close>, with the small table the scan updates.\<close>

record Scan =
  input_pos :: nat
  min_match :: nat
  run_l :: nat
  run_c :: byte
  scksum :: u32
  lcksum :: u64
  matches :: "Match list"
  scan_table :: SmallTable

definition try_lazy :: "nat \<Rightarrow> nat \<Rightarrow> nat \<Rightarrow> nat \<Rightarrow> bool" where
  "try_lazy match_len mx pos avail_in \<longleftrightarrow> 0 < mx \<and> match_len < mx \<and> pos + match_len + 2 \<le> avail_in"

text \<open>The block that restarts both checksums and the run state at the current position.\<close>

definition restart :: "MatchEngine \<Rightarrow> bool \<Rightarrow> byte list \<Rightarrow> Scan \<Rightarrow> (Scan, EncodeError) res" where
  "restart E do_large target s =
     (if input_pos s + small_look (me_config E) \<le> length target then
        bindR (slice_from target (input_pos s)) (\<lambda>t.
        bindR (small_cksum t) (\<lambda>sc.
        let (rl, rc) = comprun t (small_look (me_config E));
            s = s\<lparr> scksum := sc, run_l := rl, run_c := rc \<rparr> in
        if do_large \<and> input_pos s + large_look (me_config E) \<le> length target
        then bindR (LargeHash_checksum (me_large_hash E) t) (\<lambda>lc. Ok (s\<lparr> lcksum := lc \<rparr>))
        else Ok s))
      else Ok s)"

definition initial_scan :: "MatchEngine \<Rightarrow> Scan" where
  "initial_scan E = \<lparr> input_pos = 0, min_match = C_MIN_MATCH, run_l = 0, run_c = 0, scksum = 0, lcksum = 0,
     matches = [], scan_table = me_small_table E \<rparr>"

definition push_match :: "Match \<Rightarrow> Scan \<Rightarrow> Scan" where
  "push_match m s = s\<lparr> matches := matches s @ [m] \<rparr>"

subsection \<open>Match extension\<close>

lemma chain_decreases: "(chain :: u64) \<noteq> 1 \<Longrightarrow> unat (chain - 2) < unat (chain - 1)"
proof -
  assume "chain \<noteq> 1"
  then have nz: "chain - 1 \<noteq> 0" by simp
  have "chain - 2 = chain - 1 - 1" by simp
  then have "unat (chain - 2) = unat (chain - 1) - 1" using unat_minus_one [OF nz] by (simp only:)
  moreover have "0 < unat (chain - 1)" using nz unat_gt_0 by blast
  ultimately show ?thesis by simp
qed

text \<open>The chain walk; \<open>chain\<close> is decremented as a machine word.\<close>

function chain_walk :: "MatchEngine \<Rightarrow> SmallTable \<Rightarrow> byte list \<Rightarrow> nat \<Rightarrow> u64 \<Rightarrow> nat \<Rightarrow> nat \<Rightarrow> nat
    \<Rightarrow> (nat \<times> nat, EncodeError) res" where
  "chain_walk E t target inp chain base best_len best_offset =
     (let max_cmp = length target - inp in
      if inp \<le> base then Ok (best_len, best_offset)
      else
      bindR (slice_from target base) (\<lambda>ref.
      bindR (slice_from target inp) (\<lambda>cur.
      bindR (forward_match_fn (me_cpu E) ref cur max_cmp) (\<lambda>cmp_len.
      let better = best_len < cmp_len;
          (best_len, best_offset) = (if better then (cmp_len, base) else (best_len, best_offset)) in
      if better \<and> (long_enough (me_config E) \<le> cmp_len \<or> length target \<le> inp + cmp_len)
      then Ok (best_len, best_offset)
      else
      let chain = chain - 1 in
      if chain = 0 then Ok (best_len, best_offset)
      else
      bindR (chain_prev t (of_nat base) (of_nat inp)) (\<lambda>p.
      case p of
        Some prev \<Rightarrow> chain_walk E t target inp chain (unat prev) best_len best_offset
      | None \<Rightarrow> Ok (best_len, best_offset))))))"
  by pat_completeness auto
termination
  by (relation "measure (\<lambda>(E, t, target, inp, chain, base, bl, bo). unat (chain - 1))")
    (auto simp: chain_decreases)

declare chain_walk.simps [simp del]

definition small_match :: "MatchEngine \<Rightarrow> SmallTable \<Rightarrow> byte list \<Rightarrow> nat \<Rightarrow> u32 \<Rightarrow> nat
    \<Rightarrow> (Match option, EncodeError) res" where
  "small_match E t target inp sck mmatch =
     bindR (SmallTable_lookup t (ucast sck)) (\<lambda>h.
     case h of None \<Rightarrow> Ok None
     | Some head \<Rightarrow>
       let is_lazy = C_MIN_MATCH < mmatch;
           max_chain = (if is_lazy then small_lchain (me_config E) else small_chain (me_config E)) in
       bindR (chain_walk E t target inp (of_nat max_chain) (unat head) 0 0) (\<lambda>(best_len, best_offset).
       let distance = inp - best_offset in
       if best_len < C_MIN_MATCH then Ok None
       else if best_len = 4 \<and> 2 ^ 14 \<le> distance then Ok None
       else if best_len = 5 \<and> 2 ^ 21 \<le> distance then Ok None
       else Ok (Some \<lparr> m_target_pos = inp, m_length = best_len, m_addr = of_nat best_offset,
                       m_is_source = False \<rparr>)))"

definition extend_source_match_slice :: "MatchEngine \<Rightarrow> byte list \<Rightarrow> byte list \<Rightarrow> nat \<Rightarrow> u64
    \<Rightarrow> (Match option, EncodeError) res" where
  "extend_source_match_slice E target source inp srcpos =
     (let src_pos = unat srcpos in
      if length source \<le> src_pos then Ok None
      else
      let max_fwd = min (length target - inp) (length source - src_pos) in
      bindR (slice_from source src_pos) (\<lambda>sf.
      bindR (slice_from target inp) (\<lambda>tf.
      bindR (forward_match_fn (me_cpu E) sf tf max_fwd) (\<lambda>fwd_len.
      if fwd_len < C_MIN_MATCH then Ok None
      else
      let max_back = min inp src_pos in
      bindR (if 0 < max_back then
               bindR (slice_range source (src_pos - max_back) src_pos) (\<lambda>sb.
               bindR (slice_range target (inp - max_back) inp) (\<lambda>tb.
               backward_match_fn (me_cpu E) sb tb max_back))
             else Ok 0) (\<lambda>back_len.
      Ok (Some \<lparr> m_target_pos = inp - back_len, m_length = back_len + fwd_len,
                 m_addr = of_nat (src_pos - back_len), m_is_source = True \<rparr>))))))"

text \<open>The fallback of \<open>extend_source_match\<close>: forward extension through a 16 KiB buffer.\<close>

definition EXTEND_BUF :: nat where "EXTEND_BUF = 16 * 1024"

function extend_chunks :: "MatchEngine \<Rightarrow> SourceData \<Rightarrow> byte list \<Rightarrow> nat \<Rightarrow> u64 \<Rightarrow> nat \<Rightarrow> nat \<Rightarrow> nat
    \<Rightarrow> (nat, EncodeError) res" where
  "extend_chunks E source target inp src_pos max_fwd tot off =
     (if off < max_fwd then
        bindR (sd_get_bytes source (src_pos + of_nat off) (min (max_fwd - off) EXTEND_BUF)) (\<lambda>buf.
        let n = length buf in
        if n = 0 then Ok tot
        else
        bindR (slice_from target (inp + off)) (\<lambda>t.
        bindR (forward_match_fn (me_cpu E) buf t n) (\<lambda>m.
        if m < n then Ok (tot + m)
        else extend_chunks E source target inp src_pos max_fwd (tot + m) (off + n))))
      else Ok tot)"
  by pat_completeness auto
termination
  by (relation "measure (\<lambda>(E, source, target, inp, src_pos, max_fwd, tot, off). max_fwd - off)")
    (auto simp flip: length_greater_0_conv)

declare extend_chunks.simps [simp del]

definition extend_source_match :: "MatchEngine \<Rightarrow> byte list \<Rightarrow> SourceData \<Rightarrow> nat \<Rightarrow> u64 \<Rightarrow> u64
    \<Rightarrow> (Match option, EncodeError) res" where
  "extend_source_match E target source inp src_pos source_len =
     (let max_fwd = min (length target - inp) (unat (source_len - src_pos)) in
      bindR (sd_as_slice source src_pos max_fwd) (\<lambda>c.
      bindR (case c of
               Some src_slice \<Rightarrow>
                 bindR (slice_from target inp) (\<lambda>t. forward_match_fn (me_cpu E) src_slice t max_fwd)
             | None \<Rightarrow> extend_chunks E source target inp src_pos max_fwd 0 0) (\<lambda>fwd_len.
      if fwd_len < C_MIN_MATCH then Ok None
      else
      let max_back = min inp (unat src_pos) in
      bindR (if 0 < max_back then
               bindR (sd_as_slice source (src_pos - of_nat max_back) max_back) (\<lambda>c.
               case c of
                 Some src_slice \<Rightarrow>
                   bindR (slice_range target (inp - max_back) inp) (\<lambda>tgt_slice.
                   backward_match_fn (me_cpu E) src_slice tgt_slice max_back)
               | None \<Rightarrow> Ok 0)
             else Ok 0) (\<lambda>back_len.
      Ok (Some \<lparr> m_target_pos = inp - back_len, m_length = back_len + fwd_len,
                 m_addr = src_pos - of_nat back_len, m_is_source = True \<rparr>)))))"

subsection \<open>The scan\<close>

text \<open>
  One turn of the main loop tries a run, a source match and a self match. \<open>Continue\<close> is the source's
  \<open>continue\<close>, after the scan moved past an accepted match; \<open>Fall\<close> goes on to the next attempt, with
  \<open>skip_min_match_decay\<close>.
\<close>

datatype Attempt = Continue Scan | Fall Scan bool

definition accept :: "MatchEngine \<Rightarrow> bool \<Rightarrow> byte list \<Rightarrow> nat \<Rightarrow> Scan \<Rightarrow> (Attempt, EncodeError) res" where
  "accept E do_large target len s =
     (if \<not> try_lazy len (max_lazy (me_config E)) (input_pos s) (length target)
      then bindR (restart E do_large target (s\<lparr> input_pos := input_pos s + len, min_match := C_MIN_MATCH \<rparr>))
             (\<lambda>s. Ok (Continue s))
      else Ok (Fall (s\<lparr> min_match := len \<rparr>) True))"

definition try_run :: "MatchEngine \<Rightarrow> bool \<Rightarrow> byte list \<Rightarrow> Scan \<Rightarrow> (Attempt, EncodeError) res" where
  "try_run E do_large target s =
     (if run_l s = small_look (me_config E) then
        let remaining = length target - input_pos s - run_l s in
        bindR (slice_from target (input_pos s + run_l s)) (\<lambda>t.
        bindR (run_length_fn (me_cpu E) t (run_c s) remaining) (\<lambda>r.
        let total_run = run_l s + r in
        if min_match s \<le> total_run \<and> MIN_RUN \<le> total_run
        then accept E do_large target total_run (push_match
               \<lparr> m_target_pos = input_pos s, m_length = total_run, m_addr = - 1, m_is_source = False \<rparr> s)
        else Ok (Fall s False)))
      else Ok (Fall s False))"

definition extend_match :: "MatchEngine \<Rightarrow> byte list \<Rightarrow> SourceData option \<Rightarrow> byte list option \<Rightarrow> nat \<Rightarrow> u64
    \<Rightarrow> (Match option, EncodeError) res" where
  "extend_match E target source contiguous inp src_pos =
     (case contiguous of
        Some src \<Rightarrow> extend_source_match_slice E target src inp src_pos
      | None \<Rightarrow> (case source of
          Some src \<Rightarrow> extend_source_match E target src inp src_pos (sd_len src)
        | None \<Rightarrow> Ok None))"

definition pop_while :: "('a \<Rightarrow> bool) \<Rightarrow> 'a list \<Rightarrow> 'a list" where
  "pop_while P xs = rev (dropWhile P (rev xs))"

text \<open>An extended source match is accepted on its forward length, and erases what it covers.\<close>

definition take_source_match :: "MatchEngine \<Rightarrow> bool \<Rightarrow> byte list \<Rightarrow> bool \<Rightarrow> Match \<Rightarrow> Scan
    \<Rightarrow> (Attempt, EncodeError) res" where
  "take_source_match E do_large target skip m s =
     (let back_len = input_pos s - m_target_pos m; fwd_len = m_length m - back_len in
      if min_match s \<le> fwd_len then
        let ms = (if 0 < back_len then pop_while (\<lambda>last. m_target_pos m \<le> m_target_pos last) (matches s)
                  else matches s) in
        accept E do_large target fwd_len (push_match m (s\<lparr> matches := ms \<rparr>))
      else Ok (Fall s skip))"

definition try_large :: "MatchEngine \<Rightarrow> byte list \<Rightarrow> SourceData option \<Rightarrow> byte list option \<Rightarrow> bool \<Rightarrow> Scan
    \<Rightarrow> (Attempt, EncodeError) res" where
  "try_large E target source contiguous skip s =
     (if source \<noteq> None \<and> input_pos s + large_look (me_config E) \<le> length target then
        bindR (LargeTable_lookup (me_large_table E) (lcksum s)) (\<lambda>l.
        case l of None \<Rightarrow> Ok (Fall s skip)
        | Some src_pos \<Rightarrow>
          bindR (extend_match E target source contiguous (input_pos s) src_pos) (\<lambda>r.
          case r of None \<Rightarrow> Ok (Fall s skip)
          | Some m \<Rightarrow> take_source_match E (source \<noteq> None) target skip m s))
      else Ok (Fall s skip))"

definition try_small :: "MatchEngine \<Rightarrow> bool \<Rightarrow> byte list \<Rightarrow> bool \<Rightarrow> Scan \<Rightarrow> (Attempt, EncodeError) res" where
  "try_small E do_large target skip s =
     bindR (small_match E (scan_table s) target (input_pos s) (scksum s) (min_match s)) (\<lambda>r.
     bindR (SmallTable_insert (scan_table s) (ucast (scksum s)) (of_nat (input_pos s))) (\<lambda>t.
     let s = s\<lparr> scan_table := t \<rparr> in
     case r of None \<Rightarrow> Ok (Fall s skip)
     | Some m \<Rightarrow>
       if min_match s \<le> m_length m then accept E do_large target (m_length m) (push_match m s)
       else Ok (Fall s skip)))"

definition advance_one :: "MatchEngine \<Rightarrow> bool \<Rightarrow> byte list \<Rightarrow> bool \<Rightarrow> Scan \<Rightarrow> (Scan, EncodeError) res" where
  "advance_one E do_large target skip s =
     (let s = s\<lparr> min_match := (if \<not> skip \<and> C_MIN_MATCH < min_match s then min_match s - 1 else min_match s),
                 input_pos := input_pos s + 1 \<rparr> in
      if length target < input_pos s + small_look (me_config E) then Ok s
      else
      bindR (slice_from target (input_pos s)) (\<lambda>t.
      bindR (small_cksum_at t) (\<lambda>sc.
      bindR (index_at target (input_pos s + small_look (me_config E) - 1)) (\<lambda>next_byte.
      let s = s\<lparr> scksum := sc \<rparr>;
          s = (if next_byte = run_c s then s\<lparr> run_l := run_l s + 1 \<rparr>
               else s\<lparr> run_c := next_byte, run_l := 1 \<rparr>) in
      if do_large \<and> input_pos s + large_look (me_config E) \<le> length target
      then bindR (slice_from target (input_pos s - 1)) (\<lambda>b.
           bindR (LargeHash_update_at (me_large_hash E) (lcksum s) b) (\<lambda>lc.
           Ok (s\<lparr> lcksum := lc \<rparr>)))
      else Ok s))))"

text \<open>\<open>after a f\<close> runs the next attempt unless the turn has ended.\<close>

definition after_attempt :: "(Attempt, EncodeError) res \<Rightarrow> (bool \<Rightarrow> Scan \<Rightarrow> (Attempt, EncodeError) res)
    \<Rightarrow> (Attempt, EncodeError) res" where
  "after_attempt a f = bindR a (\<lambda>r. case r of Continue s \<Rightarrow> Ok (Continue s) | Fall s skip \<Rightarrow> f skip s)"

definition scan_turn :: "MatchEngine \<Rightarrow> byte list \<Rightarrow> SourceData option \<Rightarrow> byte list option \<Rightarrow> Scan
    \<Rightarrow> (Scan, EncodeError) res" where
  "scan_turn E target source contiguous s =
     bindR (after_attempt (after_attempt (try_run E (source \<noteq> None) target s)
       (try_large E target source contiguous)) (try_small E (source \<noteq> None) target)) (\<lambda>r.
     case r of Continue s \<Rightarrow> Ok s | Fall s skip \<Rightarrow> advance_one E (source \<noteq> None) target skip s)"

subsection \<open>Progress of the scan\<close>

lemma restart_input_pos: "restart E d target s = Ok s' \<Longrightarrow> input_pos s' = input_pos s"
  by (cases "comprun (drop (input_pos s) target) (small_look (me_config E))")
    (auto simp: restart_def bindR_eq_Ok Let_def split: if_splits)

definition moves_on :: "nat \<Rightarrow> Attempt \<Rightarrow> bool" where
  "moves_on p r = (case r of Continue s \<Rightarrow> p < input_pos s | Fall s skip \<Rightarrow> input_pos s = p)"

lemma moves_on_simps [simp]:
  "moves_on p (Continue s) \<longleftrightarrow> p < input_pos s" "moves_on p (Fall s skip) \<longleftrightarrow> input_pos s = p"
  by (simp_all add: moves_on_def)

lemma accept_moves_on: "accept E d target len s = Ok r \<Longrightarrow> 0 < len \<Longrightarrow> moves_on (input_pos s) r"
  by (auto simp: accept_def bindR_eq_Ok dest: restart_input_pos split: if_splits)

lemma input_pos_push [simp]: "input_pos (push_match m s) = input_pos s"
  by (simp add: push_match_def)

lemma try_run_moves_on: "try_run E d target s = Ok r \<Longrightarrow> moves_on (input_pos s) r"
  by (auto simp: try_run_def bindR_eq_Ok Let_def MIN_RUN_def dest!: accept_moves_on split: if_splits)

lemma extend_match_fwd:
  "extend_match E target source contiguous inp src_pos = Ok (Some m) \<Longrightarrow> inp - m_target_pos m < m_length m"
  by (auto simp: extend_match_def extend_source_match_slice_def extend_source_match_def bindR_eq_Ok Let_def
      C_MIN_MATCH_def split: option.splits if_splits)

lemma take_source_match_moves_on:
  assumes "take_source_match E d target skip m s = Ok r" "input_pos s - m_target_pos m < m_length m"
  shows "moves_on (input_pos s) r"
  using assms accept_moves_on [of E d target "m_length m - (input_pos s - m_target_pos m)" "push_match m (s\<lparr> matches := _ \<rparr>)" r]
  by (simp add: take_source_match_def Let_def split: if_splits) auto

lemma try_large_moves_on:
  assumes "try_large E target source c skip s = Ok r"
  shows "moves_on (input_pos s) r"
proof -
  from assms consider "r = Fall s skip"
    | src_pos m where "extend_match E target source c (input_pos s) src_pos = Ok (Some m)"
        "take_source_match E (source \<noteq> None) target skip m s = Ok r"
    by (auto simp: try_large_def bindR_eq_Ok split: option.splits if_splits)
  then show ?thesis
    by cases (auto intro: take_source_match_moves_on extend_match_fwd)
qed

lemma small_match_length: "small_match E t target inp sck mm = Ok (Some m) \<Longrightarrow> 0 < m_length m"
  by (auto simp: small_match_def bindR_eq_Ok Let_def C_MIN_MATCH_def split: option.splits if_splits)

lemma try_small_moves_on: "try_small E d target skip s = Ok r \<Longrightarrow> moves_on (input_pos s) r"
  by (auto simp: try_small_def bindR_eq_Ok Let_def
      dest!: accept_moves_on small_match_length split: option.splits if_splits)

lemma after_attempt_moves_on:
  assumes "after_attempt a f = Ok r" and "\<And>r. a = Ok r \<Longrightarrow> moves_on p r"
    and "\<And>skip s r. f skip s = Ok r \<Longrightarrow> moves_on (input_pos s) r"
  shows "moves_on p r"
proof -
  from assms(1) obtain r0 where r0: "a = Ok r0"
    "(case r0 of Continue s \<Rightarrow> Ok (Continue s) | Fall s skip \<Rightarrow> f skip s) = Ok r"
    by (auto simp: after_attempt_def bindR_eq_Ok)
  then show ?thesis using assms(2) [OF r0(1)] assms(3) by (cases r0) auto
qed

lemma advance_one_input_pos: "advance_one E d target skip s = Ok s' \<Longrightarrow> input_pos s' = input_pos s + 1"
  by (auto simp: advance_one_def bindR_eq_Ok Let_def split: if_splits)

lemma scan_turn_progress:
  assumes "scan_turn E target source contiguous s = Ok s'"
  shows "input_pos s < input_pos s'"
proof -
  let ?d = "source \<noteq> None"
  from assms obtain r where
    r: "after_attempt (after_attempt (try_run E ?d target s) (try_large E target source contiguous))
        (try_small E ?d target) = Ok r"
    and s': "(case r of Continue s \<Rightarrow> Ok s | Fall s skip \<Rightarrow> advance_one E ?d target skip s) = Ok s'"
    by (auto simp: scan_turn_def bindR_eq_Ok)
  from r have "moves_on (input_pos s) r"
    by (rule after_attempt_moves_on)
      (auto elim!: after_attempt_moves_on dest: try_run_moves_on try_large_moves_on try_small_moves_on)
  with s' show ?thesis
    by (auto dest: advance_one_input_pos split: Attempt.splits)
qed

subsection \<open>Finding matches\<close>

function scan_loop :: "MatchEngine \<Rightarrow> byte list \<Rightarrow> SourceData option \<Rightarrow> byte list option \<Rightarrow> Scan
    \<Rightarrow> (Scan, EncodeError) res" where
  "scan_loop E target source contiguous s =
     (if length target < input_pos s + small_look (me_config E) then Ok s
      else bindR (scan_turn E target source contiguous s) (scan_loop E target source contiguous))"
  by pat_completeness auto
termination
  by (relation "measure (\<lambda>(E, target, source, c, s). Suc (length target) - input_pos s)")
    (auto dest: scan_turn_progress)

declare scan_loop.simps [simp del]

text \<open>The probe at \<open>match_srcpos\<close>; it gives the new \<open>match_srcpos\<close> and the scan state.\<close>

definition probe_accept :: "MatchEngine \<Rightarrow> bool \<Rightarrow> byte list \<Rightarrow> u64 \<Rightarrow> nat \<Rightarrow> Scan \<Rightarrow> (u64 \<times> Scan, EncodeError) res" where
  "probe_accept E do_large target src_pos fwd_len s =
     (if C_MIN_MATCH \<le> fwd_len then
        let s = push_match \<lparr> m_target_pos = 0, m_length = fwd_len, m_addr = src_pos, m_is_source = True \<rparr> s in
        bindR (restart E do_large target (s\<lparr> input_pos := fwd_len \<rparr>)) (\<lambda>s.
        Ok (if fwd_len = length target then src_pos + of_nat fwd_len else match_srcpos E, s))
      else Ok (match_srcpos E, s))"

definition probe :: "MatchEngine \<Rightarrow> byte list \<Rightarrow> SourceData option \<Rightarrow> byte list option \<Rightarrow> Scan
    \<Rightarrow> (u64 \<times> Scan, EncodeError) res" where
  "probe E target source contiguous s =
     (case contiguous of
        Some src \<Rightarrow>
          let src_pos = unat (match_srcpos E) in
          if src_pos < length src then
            let max_fwd = min (length target) (length src - src_pos) in
            if C_MIN_MATCH \<le> max_fwd then
              bindR (slice_from src src_pos) (\<lambda>sf.
              bindR (forward_match_fn (me_cpu E) sf target max_fwd) (\<lambda>fwd_len.
              probe_accept E (source \<noteq> None) target (of_nat src_pos) fwd_len s))
            else Ok (match_srcpos E, s)
          else Ok (match_srcpos E, s)
      | None \<Rightarrow> (case source of
          Some src \<Rightarrow>
            if match_srcpos E < sd_len src then
              let max_fwd = min (length target) (unat (sd_len src - match_srcpos E)) in
              if C_MIN_MATCH \<le> max_fwd then
                bindR (sd_as_slice src (match_srcpos E) max_fwd) (\<lambda>c.
                bindR (case c of
                         Some src_slice \<Rightarrow> forward_match_fn (me_cpu E) src_slice target max_fwd
                       | None \<Rightarrow> Ok 0) (\<lambda>fwd_len.
                probe_accept E (source \<noteq> None) target (match_srcpos E) fwd_len s))
              else Ok (match_srcpos E, s)
            else Ok (match_srcpos E, s)
        | None \<Rightarrow> Ok (match_srcpos E, s)))"

subsection \<open>Matches to instructions\<close>

definition emit_add_all :: "byte list \<Rightarrow> Instruction list" where
  "emit_add_all target = (if target = [] then [] else [Add (of_nat (length target))])"

definition sort_match :: "Match list \<Rightarrow> Match \<Rightarrow> Match list" where
  "sort_match out m =
     (let out = pop_while (\<lambda>l. m_target_pos m < m_target_pos l + m_length l \<and> m_length l < m_length m) out in
      if out = [] \<or> m_target_pos (last out) + m_length (last out) \<le> m_target_pos m
           \<or> m_length (last out) < m_length m
      then out @ [m] else out)"

definition match_instruction :: "u64 \<Rightarrow> Match \<Rightarrow> Instruction" where
  "match_instruction source_len m =
     (if m_addr m = - 1 then Run (of_nat (m_length m))
      else if m_is_source m then Copy (of_nat (m_length m)) (m_addr m) 0
      else Copy (of_nat (m_length m)) (source_len + m_addr m) 0)"

definition emit_match :: "u64 \<Rightarrow> nat \<times> Instruction list \<Rightarrow> Match \<Rightarrow> nat \<times> Instruction list" where
  "emit_match source_len acc m = (case acc of (covered_to, insts) \<Rightarrow>
     if m_target_pos m < covered_to then (covered_to, insts)
     else (m_target_pos m + m_length m,
           insts @ (if covered_to < m_target_pos m then [Add (of_nat (m_target_pos m - covered_to))] else [])
             @ [match_instruction source_len m]))"

definition matches_to_instructions :: "byte list \<Rightarrow> u64 \<Rightarrow> Match list \<Rightarrow> Instruction list" where
  "matches_to_instructions target source_len ms =
     (case foldl (emit_match source_len) (0, []) (foldl sort_match [] ms) of (covered_to, insts) \<Rightarrow>
        insts @ (if covered_to < length target then [Add (of_nat (length target - covered_to))] else []))"

text \<open>The small table is reset first; the prefetch hints have no effect on the result.\<close>

definition find_matches :: "MatchEngine \<Rightarrow> byte list \<Rightarrow> SourceData option
    \<Rightarrow> (MatchEngine \<times> Instruction list, EncodeError) res" where
  "find_matches E target source =
     (let source_len = (case source of None \<Rightarrow> 0 | Some src \<Rightarrow> sd_len src) in
      bindR (case source of None \<Rightarrow> Ok None | Some src \<Rightarrow> sd_as_slice src 0 (unat (sd_len src))) (\<lambda>contiguous.
      let E = E\<lparr> me_small_table := SmallTable_reset (me_small_table E) \<rparr> in
      if length target < small_look (me_config E) then Ok (E, emit_add_all target)
      else
      bindR (restart E (source \<noteq> None) target (initial_scan E)) (\<lambda>s.
      bindR (probe E target source contiguous s) (\<lambda>(srcpos, s).
      bindR (scan_loop E target source contiguous s) (\<lambda>s.
      Ok (E\<lparr> me_small_table := scan_table s, match_srcpos := srcpos \<rparr>,
          matches_to_instructions target source_len (matches s)))))))"

end
