(* ===== verification/Match_Extend.thy ===== *)
theory Match_Extend
  imports Matching
begin

text \<open>
  Match extension is correct: the matches that \<open>small_match\<close> and the two forms of
  \<open>extend_source_match\<close> report are byte ranges that agree, whatever position they start from. The
  locale \<open>source_data\<close> is what the engine relies on of the \<open>SourceData\<close> trait.
\<close>

section \<open>Agreement of byte ranges\<close>

definition agrees :: "'a list \<Rightarrow> nat \<Rightarrow> 'a list \<Rightarrow> nat \<Rightarrow> nat \<Rightarrow> bool" where
  "agrees xs i ys j n \<longleftrightarrow> i + n \<le> length xs \<and> j + n \<le> length ys \<and> (\<forall>k < n. xs ! (i + k) = ys ! (j + k))"

lemma agrees_0 [simp]: "agrees xs i ys j 0 \<longleftrightarrow> i \<le> length xs \<and> j \<le> length ys"
  by (simp add: agrees_def)

lemma agrees_append:
  assumes "agrees xs i ys j m" "agrees xs (i + m) ys (j + m) n"
  shows "agrees xs i ys j (m + n)"
proof -
  have "xs ! (i + k) = ys ! (j + k)" if "k < m + n" for k
  proof (cases "k < m")
    case False
    then have "k - m < n" "k = m + (k - m)" using that by auto
    then show ?thesis using assms(2) by (metis add.assoc agrees_def)
  qed (use assms(1) in \<open>simp add: agrees_def\<close>)
  then show ?thesis using assms by (simp add: agrees_def)
qed

lemma agrees_prefix_len:
  assumes "i \<le> length xs" "j \<le> length ys"
  shows "agrees xs i ys j (prefix_len (take n (drop i xs)) (take n (drop j ys)))"
proof -
  let ?a = "take n (drop i xs)" and ?b = "take n (drop j ys)"
  let ?p = "prefix_len ?a ?b"
  have le: "?p \<le> length ?a" "?p \<le> length ?b" by (rule prefix_len_le)+
  have "xs ! (i + k) = ys ! (j + k)" if "k < ?p" for k
    using prefix_len_nth_less [OF that] that le assms by simp
  then show ?thesis using le assms by (auto simp: agrees_def)
qed

lemma agrees_suffix_len:
  assumes "n \<le> i" "i \<le> length xs" "n \<le> j" "j \<le> length ys"
  defines "p \<equiv> suffix_len (take n (drop (i - n) xs)) (take n (drop (j - n) ys))"
  shows "p \<le> n" and "agrees xs (i - p) ys (j - p) p"
proof -
  let ?a = "take n (drop (i - n) xs)" and ?b = "take n (drop (j - n) ys)"
  have len: "length ?a = n" "length ?b = n" using assms by simp_all
  show p: "p \<le> n" using prefix_len_le(1) [of "rev ?a" "rev ?b"] len by (simp add: p_def suffix_len_def)
  have "xs ! (i - p + k) = ys ! (j - p + k)" if "k < p" for k
  proof -
    have "rev ?a ! (p - 1 - k) = rev ?b ! (p - 1 - k)"
      using that by (intro prefix_len_nth_less) (simp add: p_def suffix_len_def)
    then have "?a ! (n - p + k) = ?b ! (n - p + k)" using that p len by (simp add: rev_nth)
    then show ?thesis using that p assms by simp
  qed
  then show "agrees xs (i - p) ys (j - p) p" using p assms by (simp add: agrees_def)
qed

lemma agrees_mono: "agrees xs i ys j n \<Longrightarrow> m \<le> n \<Longrightarrow> agrees xs i ys j m"
  by (simp add: agrees_def)

section \<open>Kernel contracts\<close>

lemma returns_forward [wp]:
  "n \<le> length s1 \<Longrightarrow> n \<le> length s2 \<Longrightarrow>
     returns (forward_match_fn cpu s1 s2 n) Q \<longleftrightarrow> Q (prefix_len (take n s1) (take n s2))"
  by (simp add: forward_match_fn_correct returns_Ok)

lemma returns_backward [wp]:
  "n \<le> length s1 \<Longrightarrow> n \<le> length s2 \<Longrightarrow>
     returns (backward_match_fn cpu s1 s2 n) Q \<longleftrightarrow> Q (suffix_len (take n s1) (take n s2))"
  by (simp add: backward_match_fn_correct returns_Ok)

lemma returns_run_length [wp]:
  "n \<le> length data \<Longrightarrow> returns (run_length_fn cpu data c n) Q \<longleftrightarrow> Q (run_len (take n data) c)"
  by (simp add: run_length_fn_correct returns_Ok)

section \<open>Valid matches\<close>

text \<open>A match is long enough, lies within the target, and repeats a byte, source bytes or target bytes.\<close>

definition valid_match :: "byte list \<Rightarrow> byte list \<Rightarrow> Match \<Rightarrow> bool" where
  "valid_match S T m \<longleftrightarrow> (if m_addr m = - 1 then MIN_RUN else C_MIN_MATCH) \<le> m_length m \<and> m_target_pos m + m_length m \<le> length T
     \<and> (if m_addr m = - 1 then \<forall>k < m_length m. T ! (m_target_pos m + k) = T ! m_target_pos m
        else if m_is_source m then agrees S (unat (m_addr m)) T (m_target_pos m) (m_length m)
        else unat (m_addr m) < m_target_pos m \<and> agrees T (unat (m_addr m)) T (m_target_pos m) (m_length m))"

lemma valid_match_pos: "valid_match S T m \<Longrightarrow> 0 < m_length m"
  by (auto simp: valid_match_def MIN_RUN_def C_MIN_MATCH_def split: if_splits)

text \<open>A 64-bit position below \<open>2^63\<close> is not the RUN sentinel.\<close>

lemma unat_minus_one_u64: "unat (- 1 :: u64) = 2 ^ 64 - 1"
  by (simp only: unsigned_minus_1_eq_mask) (simp add: mask_eq_exp_minus_1)

lemma pos_not_sentinel: "n < 2 ^ 63 \<Longrightarrow> (of_nat n :: u64) \<noteq> - 1"
proof
  assume n: "n < 2 ^ 63" and "(of_nat n :: u64) = - 1"
  then have "unat (of_nat n :: u64) = 2 ^ 64 - 1" using unat_minus_one_u64 by simp
  then show False using n by (simp add: unat_of_nat_id)
qed

lemma unat_pos [simp]: "n < 2 ^ 63 \<Longrightarrow> unat (of_nat n :: u64) = n"
  by (simp add: unat_of_nat_id)

definition match_opt_ok :: "byte list \<Rightarrow> byte list \<Rightarrow> Match option \<Rightarrow> bool" where
  "match_opt_ok S T r = (case r of None \<Rightarrow> True | Some m \<Rightarrow> valid_match S T m)"

section \<open>Self matches\<close>

definition walk_ok :: "byte list \<Rightarrow> nat \<Rightarrow> nat \<times> nat \<Rightarrow> bool" where
  "walk_ok T inp r = (case r of (bl, bo) \<Rightarrow> 0 < bl \<longrightarrow> bo < inp \<and> agrees T bo T inp bl)"

lemma returns_chain_prev: "small_ok t \<Longrightarrow> (\<And>r. Q r) \<Longrightarrow> returns (chain_prev t pos cur) Q"
  using chain_prev_total [of t pos cur, where 'e = 'a] by (auto simp: returns_def)

lemma chain_walk_ok:
  assumes "small_ok t" "inp \<le> length T"
  shows "walk_ok T inp (bl, bo) \<Longrightarrow> returns (chain_walk E t T inp chain base bl bo) (walk_ok T inp)"
proof (induction "unat (chain - 1)" arbitrary: chain base bl bo rule: less_induct)
  case less
  show ?case
  proof (cases "inp \<le> base")
    case True
    then show ?thesis using less.prems by (subst chain_walk.simps) (simp add: returns_Ok)
  next
    case False
    let ?cmp = "prefix_len (take (length T - inp) (drop base T)) (take (length T - inp) (drop inp T))"
    have "walk_ok T inp (?cmp, base)"
      using agrees_prefix_len [of base T inp T "length T - inp"] False assms by (simp add: walk_ok_def)
    then have best: "walk_ok T inp (if bl < ?cmp then (?cmp, base) else (bl, bo))"
      using less.prems by simp
    have rec: "returns (chain_walk E t T inp (chain - 1) b bl' bo') (walk_ok T inp)"
      if "chain - 1 \<noteq> 0" "walk_ok T inp (bl', bo')" for b bl' bo'
      using less.hyps [of "chain - 1"] that chain_decreases [of chain] by simp
    show ?thesis
      using False assms best rec
      by (subst chain_walk.simps)
        (auto simp: wp Let_def split: option.splits intro!: returns_chain_prev)
  qed
qed

lemma small_match_ok:
  assumes "small_ok t" "inp \<le> length T" "length T < 2 ^ 63"
  shows "returns (small_match E t T inp sck mm)
    (\<lambda>r. match_opt_ok S T r \<and> (\<forall>m. r = Some m \<longrightarrow> m_target_pos m = inp))" (is "returns _ ?Q")
proof -
  have walk: "returns (chain_walk E t T inp ch hd 0 0) (walk_ok T inp)" for ch hd
    by (rule chain_walk_ok [OF assms(1,2)]) (simp add: walk_ok_def)
  have found: "match_opt_ok S T (Some \<lparr> m_target_pos = inp, m_length = bl, m_addr = of_nat bo, m_is_source = False \<rparr>)"
    if "walk_ok T inp (bl, bo)" "\<not> bl < C_MIN_MATCH" for bl bo
    using that assms pos_not_sentinel [of bo]
    by (auto simp: walk_ok_def match_opt_ok_def valid_match_def C_MIN_MATCH_def agrees_def)
  have none: "match_opt_ok S T None" by (simp add: match_opt_ok_def)
  show ?thesis
    unfolding small_match_def SmallTable_lookup_eq [OF assms(1)] Let_def
    using none found by (auto simp: wp split: prod.splits intro!: returns_mono [OF walk])
qed

section \<open>Source matches\<close>

text \<open>
  What the engine relies on of a source: its length, and that bytes it hands out within its
  length are its bytes. It may refuse a slice and may fill a buffer only in part.
\<close>

locale source_data =
  fixes data :: "'s \<Rightarrow> SourceData" and bytes :: "'s \<Rightarrow> byte list" and ready :: "'s \<Rightarrow> bool"
  assumes small: "ready s \<Longrightarrow> length (bytes s) < 2 ^ 63"
    and len: "ready s \<Longrightarrow> sd_len (data s) = of_nat (length (bytes s))"
    and as_slice: "ready s \<Longrightarrow> unat off + n \<le> length (bytes s) \<Longrightarrow>
      sd_as_slice (data s) off n \<in> {Ok None, Ok (Some (take n (drop (unat off) (bytes s))))}"
    and get_bytes: "ready s \<Longrightarrow> unat off + n \<le> length (bytes s) \<Longrightarrow>
      \<exists>k \<le> n. sd_get_bytes (data s) off n = Ok (take k (drop (unat off) (bytes s)))"
begin

lemma returns_as_slice:
  assumes "ready s" "unat off + n \<le> length (bytes s)" "Q None" "Q (Some (take n (drop (unat off) (bytes s))))"
  shows "returns (sd_as_slice (data s) off n) Q"
  using as_slice [OF assms(1,2)] assms(3,4) by (auto simp: returns_def)

lemma extend_chunks_ok:
  assumes "ready s" "length T < 2 ^ 63" "inp + mx \<le> length T" "unat sp + mx \<le> length (bytes s)"
  shows "off \<le> mx \<Longrightarrow> agrees (bytes s) (unat sp) T inp off \<Longrightarrow>
    returns (extend_chunks E (data s) T inp sp mx off off) (\<lambda>r. agrees (bytes s) (unat sp) T inp r)"
proof (induction "mx - off" arbitrary: off rule: less_induct)
  case less
  show ?case
  proof (cases "off < mx")
    case True
    have pos: "unat (sp + of_nat off) = unat sp + off"
      using True assms(1,4) small [OF assms(1)] by (subst unat_add_no_wrap) simp_all
    define n where "n = min (mx - off) EXTEND_BUF"
    have n: "off + n \<le> mx" using True by (simp add: n_def)
    obtain k where k: "k \<le> n"
      "sd_get_bytes (data s) (sp + of_nat off) n = Ok (take k (drop (unat sp + off) (bytes s)))"
      using get_bytes [OF assms(1), of "sp + of_nat off" n] pos n assms(4) by auto
    let ?b = "take k (drop (unat sp + off) (bytes s))"
    define m where "m = prefix_len ?b (take k (drop (inp + off) T))"
    have len: "length ?b = k" "k \<le> length T - (inp + off)" "inp + off \<le> length T"
      using k(1) n assms(3,4) by auto
    have m: "m \<le> k" using prefix_len_le(1) [of ?b] len(1) unfolding m_def by metis
    have "agrees (bytes s) (unat sp + off) T (inp + off) m"
      unfolding m_def using True assms(3,4) by (intro agrees_prefix_len) simp_all
    then have ag: "agrees (bytes s) (unat sp) T inp (off + m)" by (rule agrees_append [OF less.prems(2)])
    have "forward_match_fn (me_cpu E) ?b (drop (inp + off) T) k = (Ok m :: (_, EncodeError) res)"
      using forward_match_fn_correct [of k ?b "drop (inp + off) T"] len by (simp add: m_def del: length_take)
    then have step: "extend_chunks E (data s) T inp sp mx off off = (if k = 0 then Ok off
        else if m < k then Ok (off + m) else extend_chunks E (data s) T inp sp mx (off + m) (off + k))"
      using True k(2) len by (subst extend_chunks.simps) (simp add: Let_def flip: n_def del: length_take length_0_conv)
    have "returns (extend_chunks E (data s) T inp sp mx (off + k) (off + k))
        (\<lambda>r. agrees (bytes s) (unat sp) T inp r)" if "0 < k" "m = k"
      using less.hyps [of "off + k"] k(1) n True that ag by simp
    then show ?thesis using ag m less.prems(2) unfolding step by (auto simp: wp)
  next
    case False
    then show ?thesis using less.prems by (subst extend_chunks.simps) (simp add: returns_Ok)
  qed
qed

text \<open>A forward and a backward extension around the same position make one match.\<close>

lemma extended_match:
  assumes "agrees (bytes s) sp T inp f" "C_MIN_MATCH \<le> f" "b \<le> min inp sp" "ready s"
    and "agrees (bytes s) (sp - b) T (inp - b) b"
    and "addr = of_nat (sp - b)"
  shows "match_opt_ok (bytes s) T
    (Some \<lparr> m_target_pos = inp - b, m_length = b + f, m_addr = addr, m_is_source = True \<rparr>)"
proof -
  have "agrees (bytes s) (sp - b) T (inp - b) (b + f)"
    by (rule agrees_append [OF assms(5)]) (use assms(1,3) in simp)
  moreover from this have lt: "sp - b < 2 ^ 63"
    using small [OF assms(4)] assms(2) by (simp add: agrees_def)
  moreover have "addr \<noteq> - 1" using pos_not_sentinel [OF lt] assms(6) by simp
  ultimately show ?thesis
    using assms(2,6) by (simp add: match_opt_ok_def valid_match_def C_MIN_MATCH_def agrees_def)
qed

lemma extend_source_match_slice_ok:
  assumes "ready s" "inp \<le> length T"
  shows "returns (extend_source_match_slice E T (bytes s) inp p) (\<lambda>r. match_opt_ok (bytes s) T r
    \<and> (\<forall>m. r = Some m \<longrightarrow> m_target_pos m \<le> inp))"
proof (cases "unat p < length (bytes s)")
  case True
  let ?sp = "unat p" and ?S = "bytes s"
  define mf where "mf = min (length T - inp) (length ?S - ?sp)"
  define f where "f = prefix_len (take mf (drop ?sp ?S)) (take mf (drop inp T))"
  define mb where "mb = min inp ?sp"
  define b where "b = suffix_len (take mb (drop (?sp - mb) ?S)) (take mb (drop (inp - mb) T))"
  have f: "agrees ?S ?sp T inp f" unfolding f_def using True assms by (intro agrees_prefix_len) simp_all
  have b: "b \<le> mb" "agrees ?S (?sp - b) T (inp - b) b"
    unfolding b_def using True assms by (intro agrees_suffix_len; simp add: mb_def)+
  have "b \<le> min inp ?sp" using b(1) by (simp add: mb_def)
  then have "match_opt_ok ?S T (Some \<lparr> m_target_pos = inp - b, m_length = b + f,
      m_addr = of_nat (?sp - b), m_is_source = True \<rparr>)" if "\<not> f < C_MIN_MATCH"
    using that by (intro extended_match [OF f _ _ assms(1) b(2)]) simp_all
  moreover have "b = 0" if "mb = 0" using b(1) that by simp
  moreover have "mb \<le> ?sp" "mb \<le> inp" "mf \<le> length T - inp" "mf \<le> length ?S - ?sp"
    by (simp_all add: mb_def mf_def)
  ultimately show ?thesis
    using True assms(2) unfolding extend_source_match_slice_def Let_def
    by (fold mf_def mb_def) (auto simp: wp match_opt_ok_def [of _ _ None] simp flip: f_def b_def)
next
  case False
  then show ?thesis by (simp add: extend_source_match_slice_def wp match_opt_ok_def)
qed

lemma extend_source_match_ok:
  assumes "ready s" "inp \<le> length T" "length T < 2 ^ 63" "unat p < length (bytes s)"
  shows "returns (extend_source_match E T (data s) inp p (sd_len (data s))) (\<lambda>r. match_opt_ok (bytes s) T r
    \<and> (\<forall>m. r = Some m \<longrightarrow> m_target_pos m \<le> inp))"
proof -
  let ?sp = "unat p" and ?S = "bytes s"
  have avail: "unat (sd_len (data s) - p) = length ?S - ?sp"
    using small [OF assms(1)] assms(4) unfolding len [OF assms(1)]
    by (subst unat_sub_no_wrap) (simp_all add: word_le_nat_alt)
  define mf where "mf = min (length T - inp) (length ?S - ?sp)"
  have mf: "inp + mf \<le> length T" "?sp + mf \<le> length ?S" using assms(2,4) by (simp_all add: mf_def)
  let ?F = "bindR (sd_as_slice (data s) p mf) (\<lambda>c. case c of
      Some src_slice \<Rightarrow> bindR (slice_from T inp) (\<lambda>t. forward_match_fn (me_cpu E) src_slice t mf)
    | None \<Rightarrow> extend_chunks E (data s) T inp p mf 0 0)"
  have fwd: "returns ?F (agrees ?S ?sp T inp)"
    using mf assms agrees_prefix_len [of ?sp ?S inp T mf] extend_chunks_ok [OF assms(1,3) mf, of 0 E]
    by (auto simp: wp intro!: returns_as_slice)
  define mb where "mb = min inp ?sp"
  have back_pos: "unat (p - of_nat mb) = ?sp - mb"
    using small [OF assms(1)] assms(4) by (subst unat_sub_no_wrap) (simp_all add: mb_def word_le_nat_alt)
  let ?B = "if 0 < mb then bindR (sd_as_slice (data s) (p - of_nat mb) mb) (\<lambda>c. case c of
      Some src_slice \<Rightarrow> bindR (slice_range T (inp - mb) inp) (\<lambda>tgt_slice.
        backward_match_fn (me_cpu E) src_slice tgt_slice mb)
    | None \<Rightarrow> Ok 0) else Ok 0"
  have bwd: "returns ?B (\<lambda>b. b \<le> mb \<and> agrees ?S (?sp - b) T (inp - b) b)"
  proof (cases "0 < mb")
    case True
    have mb: "mb \<le> ?sp" "mb \<le> inp" by (simp_all add: mb_def)
    show ?thesis
      unfolding returns_if returns_bind if_P [OF True]
      by (rule returns_as_slice [OF assms(1)])
        (use agrees_suffix_len [OF mb(1) _ mb(2), of ?S T] mb assms back_pos in \<open>simp_all add: wp\<close>)
  qed (use assms in \<open>simp add: wp\<close>)
  let ?m = "\<lambda>f b. \<lparr> m_target_pos = inp - b, m_length = b + f, m_addr = p - of_nat b, m_is_source = True \<rparr>"
  have res: "match_opt_ok ?S T (Some (?m f b))"
    if "agrees ?S ?sp T inp f" "\<not> f < C_MIN_MATCH" "b \<le> mb" "agrees ?S (?sp - b) T (inp - b) b" for f b
  proof (rule extended_match [OF that(1) _ _ assms(1) that(4)])
    have "of_nat (?sp - b) = (of_nat ?sp - of_nat b :: u64)" using that(3) by (simp add: mb_def of_nat_diff)
    then show "p - of_nat b = of_nat (?sp - b)" by simp
  qed (use that in \<open>simp_all add: mb_def\<close>)
  have eq: "extend_source_match E T (data s) inp p (sd_len (data s))
      = bindR ?F (\<lambda>f. if f < C_MIN_MATCH then Ok None else bindR ?B (\<lambda>b. Ok (Some (?m f b))))"
    by (simp only: extend_source_match_def avail Let_def bindR_assoc mf_def mb_def)
  show ?thesis
    unfolding eq returns_bind [of ?F]
  proof (rule returns_mono [OF fwd])
    fix f
    assume f: "agrees ?S ?sp T inp f"
    have "returns ?B (\<lambda>b. match_opt_ok ?S T (Some (?m f b)))" if "\<not> f < C_MIN_MATCH"
      by (rule returns_mono [OF bwd]) (use res [OF f that] in blast)
    then show "returns (if f < C_MIN_MATCH then Ok None else bindR ?B (\<lambda>b. Ok (Some (?m f b))))
        (\<lambda>r. match_opt_ok ?S T r \<and> (\<forall>m. r = Some m \<longrightarrow> m_target_pos m \<le> inp))"
      by (simp add: returns_bind returns_Ok match_opt_ok_def [of _ _ None])
  qed
qed

end

end
