(* ===== verification/Match_Scan.thy ===== *)
theory Match_Scan
  imports Match_Extend
begin

text \<open>
  Correctness of the match engine: whatever the hash tables hold, every match the scan records
  is a true match, the scan ends without a panic, and the instructions cover the target.
\<close>

section \<open>The scan\<close>

text \<open>
  \<open>engine_ok E n\<close>: the tables are well formed and the source table holds positions of a source of
  \<open>n\<close> bytes. Nothing else is assumed of what the tables hold.
\<close>

definition engine_ok :: "MatchEngine \<Rightarrow> nat \<Rightarrow> bool" where
  "engine_ok E n \<longleftrightarrow> config_ok (me_config E) \<and> small_ok (me_small_table E) \<and> large_ok (me_large_table E)
     \<and> look (me_large_hash E) = large_look (me_config E)
     \<and> (\<forall>e \<in> set (lt_table (me_large_table E)). e \<noteq> 0 \<longrightarrow> unat (e - 1) < n)"

definition run_ok :: "MatchEngine \<Rightarrow> byte list \<Rightarrow> Scan \<Rightarrow> bool" where
  "run_ok E T s \<longleftrightarrow> (input_pos s + small_look (me_config E) \<le> length T \<longrightarrow>
     run_tail (drop (input_pos s) T) (small_look (me_config E)) (run_l s) (run_c s))"

definition scan_ok :: "MatchEngine \<Rightarrow> byte list \<Rightarrow> byte list \<Rightarrow> Scan \<Rightarrow> bool" where
  "scan_ok E S T s \<longleftrightarrow> input_pos s \<le> length T \<and> small_ok (scan_table s)
     \<and> (\<forall>m \<in> set (matches s). valid_match S T m) \<and> run_ok E T s"

definition attempt_ok :: "MatchEngine \<Rightarrow> byte list \<Rightarrow> byte list \<Rightarrow> nat \<Rightarrow> Attempt \<Rightarrow> bool" where
  "attempt_ok E S T p r = (case r of Continue s \<Rightarrow> scan_ok E S T s | Fall s skip \<Rightarrow> scan_ok E S T s \<and> input_pos s = p)"

lemma attempt_ok_simps [simp]:
  "attempt_ok E S T p (Continue s) \<longleftrightarrow> scan_ok E S T s"
  "attempt_ok E S T p (Fall s skip) \<longleftrightarrow> scan_ok E S T s \<and> input_pos s = p"
  by (simp_all add: attempt_ok_def)

text \<open>The 32-bit reads succeed on four bytes, the checksum on \<open>large_look\<close> bytes.\<close>

lemma returns_small_cksum: "4 \<le> length bs \<Longrightarrow> (\<And>x. Q x) \<Longrightarrow> returns (small_cksum bs) Q"
  by (simp add: small_cksum_def read_u32_ne_def wp)

lemma returns_small_cksum_at: "4 \<le> length bs \<Longrightarrow> (\<And>x. Q x) \<Longrightarrow> returns (small_cksum_at bs) Q"
  by (simp add: small_cksum_at_def read_u32_ne_def wp)

lemma returns_checksum: "look lh \<le> length bs \<Longrightarrow> (\<And>x. Q x) \<Longrightarrow> returns (LargeHash_checksum lh bs) Q"
  by (simp add: LargeHash_checksum_eq wp)

lemma returns_update_at: "look lh < length bs \<Longrightarrow> (\<And>x. Q x) \<Longrightarrow> returns (LargeHash_update_at lh old bs) Q"
  by (auto simp: LargeHash_update_at_def wp)

lemma restart_ok:
  assumes "engine_ok E n" "input_pos s \<le> length T" "small_ok (scan_table s)" "\<forall>m \<in> set (matches s). valid_match S T m"
  shows "returns (restart E d T s) (\<lambda>s'. scan_ok E S T s' \<and> input_pos s' = input_pos s)"
proof (cases "input_pos s + small_look (me_config E) \<le> length T")
  case True
  let ?t = "drop (input_pos s) T"
  obtain rl rc where rc: "comprun ?t (small_look (me_config E)) = (rl, rc)" by fastforce
  have run: "run_tail ?t (small_look (me_config E)) rl rc"
    using comprun_run [OF _ rc] True by simp
  have cfg: "small_look (me_config E) = 4" "look (me_large_hash E) = large_look (me_config E)"
    using assms(1) by (simp_all add: engine_ok_def config_ok_def)
  then show ?thesis
    using True assms(2-4) run rc [unfolded cfg(1)] unfolding restart_def Let_def
    by (auto simp: wp scan_ok_def run_ok_def intro!: returns_small_cksum returns_checksum)
next
  case False
  then show ?thesis using assms by (simp add: restart_def wp scan_ok_def run_ok_def)
qed

lemma accept_ok:
  assumes "engine_ok E n" "scan_ok E S T s" "input_pos s + l \<le> length T"
  shows "returns (accept E d T l s) (attempt_ok E S T (input_pos s))"
proof -
  let ?s = "s\<lparr> input_pos := input_pos s + l, min_match := C_MIN_MATCH \<rparr>"
  have "returns (restart E d T ?s) (\<lambda>s'. scan_ok E S T s' \<and> input_pos s' = input_pos ?s)"
    using assms by (intro restart_ok) (auto simp: scan_ok_def)
  moreover have "scan_ok E S T (s\<lparr> min_match := l \<rparr>)" using assms(2) by (simp add: scan_ok_def run_ok_def)
  ultimately show ?thesis
    unfolding accept_def by (auto simp: wp elim!: returns_mono)
qed

lemma scan_ok_push:
  "scan_ok E S T s \<Longrightarrow> valid_match S T m \<Longrightarrow> set ms \<subseteq> set (matches s) \<Longrightarrow> scan_ok E S T (push_match m (s\<lparr> matches := ms \<rparr>))"
  by (auto simp: scan_ok_def run_ok_def push_match_def)

lemma scan_ok_push_all: "scan_ok E S T s \<Longrightarrow> valid_match S T m \<Longrightarrow> scan_ok E S T (push_match m s)"
  using scan_ok_push [of E S T s m "matches s"] by simp

lemma set_pop_while: "set (pop_while P xs) \<subseteq> set xs"
  by (auto simp: pop_while_def dest: set_dropWhileD)

lemma run_len_bytes: "k < run_len bs c \<Longrightarrow> bs ! k = c" "run_len bs c \<le> length bs"
  using nth_mem [of k "takeWhile (\<lambda>x. x = c) bs"] set_takeWhileD [of "bs ! k"]
  by (auto simp: run_len_def length_takeWhile_le takeWhile_nth dest: set_takeWhileD)

lemma try_run_ok:
  assumes "engine_ok E n" "scan_ok E S T s" "input_pos s + small_look (me_config E) \<le> length T"
  shows "returns (try_run E d T s) (attempt_ok E S T (input_pos s))"
proof (cases "run_l s = small_look (me_config E)")
  case True
  let ?p = "input_pos s"
  let ?rest = "drop (?p + run_l s) T"
  define r where "r = run_len ?rest (run_c s)"
  have look: "small_look (me_config E) = 4" using assms(1) by (simp add: engine_ok_def config_ok_def)
  have r_le: "r \<le> length T - ?p - run_l s" using run_len_bytes(2) [of ?rest] by (simp add: r_def)
  have "run_tail (drop ?p T) 4 4 (run_c s)"
    using assms(2,3) True look by (simp add: scan_ok_def run_ok_def)
  then have head: "T ! (?p + k) = run_c s" if "k < 4" for k
    using that assms(3) look by (auto simp: run_tail_def dest!: spec [of _ "3 - k"])
  have all: "T ! (?p + k) = run_c s" if "k < 4 + r" for k
  proof (cases "k < 4")
    case False
    then have "k - 4 < r" using that by simp
    then have "?rest ! (k - 4) = run_c s"
      unfolding r_def by (rule run_len_bytes(1))
    then show ?thesis using False that r_le True look assms(3) by simp
  qed (simp add: head)
  have "valid_match S T \<lparr> m_target_pos = ?p, m_length = run_l s + r, m_addr = - 1, m_is_source = False \<rparr>"
    if "MIN_RUN \<le> run_l s + r"
    using that all all [of 0] True look r_le assms(3) by (simp add: valid_match_def)
  then show ?thesis
    using True look assms r_le accept_ok [OF assms(1) scan_ok_push_all [OF assms(2)], of _ "run_l s + r" d]
    unfolding try_run_def Let_def
    by (auto simp: wp r_def)
qed (use assms(2) in \<open>simp add: try_run_def wp\<close>)

lemma take_source_match_ok:
  assumes "engine_ok E n" "scan_ok E S T s" "valid_match S T m" "m_target_pos m \<le> input_pos s"
  shows "returns (take_source_match E d T skip m s) (attempt_ok E S T (input_pos s))"
proof -
  let ?ms = "if 0 < input_pos s - m_target_pos m
    then pop_while (\<lambda>last. m_target_pos m \<le> m_target_pos last) (matches s) else matches s"
  let ?f = "m_length m - (input_pos s - m_target_pos m)"
  have "set ?ms \<subseteq> set (matches s)" using set_pop_while [of _ "matches s"] by auto
  then have ok: "scan_ok E S T (push_match m (s\<lparr> matches := ?ms \<rparr>))" using assms by (intro scan_ok_push)
  have "input_pos s + ?f \<le> length T" using assms(2-4) by (auto simp: valid_match_def scan_ok_def)
  then have "returns (accept E d T ?f (push_match m (s\<lparr> matches := ?ms \<rparr>))) (attempt_ok E S T (input_pos s))"
    using accept_ok [OF assms(1) ok, of ?f d] by simp
  then show ?thesis using assms(2) by (simp add: take_source_match_def Let_def wp)
qed

lemma try_small_ok:
  assumes "engine_ok E n" "scan_ok E S T s" "length T < 2 ^ 63"
  shows "returns (try_small E d T skip s) (attempt_ok E S T (input_pos s))"
proof -
  have t: "small_ok (scan_table s)" "input_pos s \<le> length T" using assms(2) by (simp_all add: scan_ok_def)
  let ?t = "small_inserted (scan_table s) (ucast (scksum s)) (of_nat (input_pos s))"
  have ok: "scan_ok E S T (s\<lparr> scan_table := ?t \<rparr>)"
    using assms(2) small_ok_inserted [OF t(1)] by (simp add: scan_ok_def run_ok_def)
  have acc: "returns (accept E d T (m_length m) (push_match m (s\<lparr> scan_table := ?t \<rparr>))) (attempt_ok E S T (input_pos s))"
    if "valid_match S T m" "m_target_pos m = input_pos s" for m
    using accept_ok [OF assms(1) scan_ok_push_all [OF ok that(1)], of "m_length m" d] that
    by (simp add: valid_match_def)
  show ?thesis
    unfolding try_small_def returns_bind
    by (rule returns_mono [OF small_match_ok [OF t assms(3)]])
      (use ok acc in \<open>auto simp: SmallTable_insert_eq [OF t(1)] wp Let_def match_opt_ok_def split: option.splits\<close>)
qed

lemma advance_one_ok:
  assumes "engine_ok E n" "scan_ok E S T s" "input_pos s + small_look (me_config E) \<le> length T"
  shows "returns (advance_one E d T skip s) (scan_ok E S T)"
proof -
  have cfg: "small_look (me_config E) = 4" "look (me_large_hash E) = large_look (me_config E)"
    using assms(1) by (simp_all add: engine_ok_def config_ok_def)
  let ?p = "input_pos s"
  have run: "run_tail (drop ?p T) 4 (run_l s) (run_c s)"
    using assms(2,3) cfg by (simp add: scan_ok_def run_ok_def)
  have same: "run_tail (drop (Suc ?p) T) 4 (Suc (run_l s)) (run_c s)"
    if "?p + 4 < length T" "T ! (?p + 4) = run_c s"
    unfolding run_tail_def
  proof (intro allI impI)
    fix j assume j: "j < Suc (run_l s)" "j < 4"
    show "drop (Suc ?p) T ! (4 - 1 - j) = run_c s"
    proof (cases j)
      case (Suc i)
      then have "drop ?p T ! (4 - 1 - i) = run_c s" using run j by (auto simp: run_tail_def)
      moreover have "drop ?p T ! (4 - 1 - i) = T ! (?p + (4 - 1 - i))" using that(1) by simp
      moreover have "drop (Suc ?p) T ! (4 - 1 - j) = T ! (Suc ?p + (4 - 1 - j))" using that(1) by simp
      moreover have "Suc ?p + (4 - 1 - j) = ?p + (4 - 1 - i)" using Suc j by simp
      ultimately show ?thesis by (simp only:)
    qed (use that in \<open>simp add: add.commute\<close>)
  qed
  have new: "run_tail (drop (Suc ?p) T) 4 1 (T ! (?p + 4))" if "?p + 4 < length T"
    using that by (auto simp: run_tail_def add.commute)
  have ok: "scan_ok E S T s'"
    if "?p + 4 < length T" "input_pos s' = Suc ?p" "scan_table s' = scan_table s" "matches s' = matches s"
      "run_c s' = T ! (?p + 4)" "run_l s' = (if T ! (?p + 4) = run_c s then Suc (run_l s) else 1)" for s'
    using that assms(2) cfg same [OF that(1)] new [OF that(1)]
    by (cases "T ! (?p + 4) = run_c s") (simp_all add: scan_ok_def run_ok_def)
  show ?thesis
  proof (cases "?p + 4 < length T")
    case True
    show ?thesis
      using True cfg unfolding advance_one_def Let_def
      by (cases "T ! (?p + 4) = run_c s")
        (auto simp: wp add.commute intro!: returns_small_cksum_at returns_update_at ok)
  next
    case False
    with assms(2,3) cfg show ?thesis by (simp add: advance_one_def Let_def wp scan_ok_def run_ok_def)
  qed
qed

context source_data
begin

definition source_bytes :: "'s option \<Rightarrow> byte list" where
  "source_bytes src = (case src of None \<Rightarrow> [] | Some s \<Rightarrow> bytes s)"

definition sources :: "'s option \<Rightarrow> byte list option \<Rightarrow> bool" where
  "sources src c \<longleftrightarrow> (\<forall>s. src = Some s \<longrightarrow> ready s) \<and> (c = None \<or> src \<noteq> None \<and> c = Some (source_bytes src))"

lemma extend_match_ok:
  assumes "sources src c" "src \<noteq> None" "inp \<le> length T" "length T < 2 ^ 63" "unat p < length (source_bytes src)"
  shows "returns (extend_match E T (map_option data src) c inp p) (\<lambda>r. match_opt_ok (source_bytes src) T r
    \<and> (\<forall>m. r = Some m \<longrightarrow> m_target_pos m \<le> inp))"
  using assms extend_source_match_slice_ok [OF _ assms(3)] extend_source_match_ok [OF _ assms(3,4)]
  by (auto simp: extend_match_def sources_def source_bytes_def split: option.splits)

lemma large_lookup_ok:
  assumes "engine_ok E n" "\<And>p. unat p < n \<Longrightarrow> Q (Some p)" "Q None"
  shows "returns (LargeTable_lookup (me_large_table E) c) Q"
proof -
  have t: "large_ok (me_large_table E)" using assms(1) by (simp add: engine_ok_def)
  have "lt_table (me_large_table E) ! bucket (lt_cfg (me_large_table E)) c \<in> set (lt_table (me_large_table E))"
    using large_bucket_less [OF t] by simp
  then show ?thesis
    using assms by (auto simp: LargeTable_lookup_eq [OF t] wp Let_def engine_ok_def)
qed

lemma try_large_ok:
  assumes "sources src c" "engine_ok E (length (source_bytes src))" "scan_ok E (source_bytes src) T s" "length T < 2 ^ 63"
  shows "returns (try_large E T (map_option data src) c skip s) (attempt_ok E (source_bytes src) T (input_pos s))"
proof -
  have pos: "input_pos s \<le> length T" using assms(3) by (simp add: scan_ok_def)
  have "returns (bindR (extend_match E T (map_option data src) c (input_pos s) p) (\<lambda>r.
      case r of None \<Rightarrow> Ok (Fall s skip) | Some m \<Rightarrow> take_source_match E (map_option data src \<noteq> None) T skip m s))
    (attempt_ok E (source_bytes src) T (input_pos s))" if "src \<noteq> None" "unat p < length (source_bytes src)" for p
    unfolding returns_bind
    by (rule returns_mono [OF extend_match_ok [OF assms(1) that(1) pos assms(4) that(2)]])
      (use assms(3) take_source_match_ok [OF assms(2,3)] in
        \<open>auto simp: wp match_opt_ok_def split: option.splits\<close>)
  then show ?thesis
    using assms(3) unfolding try_large_def returns_if returns_bind [of "LargeTable_lookup _ _"]
    by (auto simp: returns_Ok intro!: large_lookup_ok [OF assms(2)])
qed

lemma after_attempt_ok:
  assumes "returns a (attempt_ok E S T p)" "\<And>skip s. scan_ok E S T s \<Longrightarrow> input_pos s = p \<Longrightarrow> returns (f skip s) (attempt_ok E S T p)"
  shows "returns (after_attempt a f) (attempt_ok E S T p)"
  unfolding after_attempt_def returns_bind
  by (rule returns_mono [OF assms(1)]) (use assms(2) in \<open>auto simp: wp split: Attempt.splits\<close>)

lemma scan_turn_ok:
  assumes "sources src c" "engine_ok E (length (source_bytes src))" "scan_ok E (source_bytes src) T s" "length T < 2 ^ 63"
    and "input_pos s + small_look (me_config E) \<le> length T"
  shows "returns (scan_turn E T (map_option data src) c s) (scan_ok E (source_bytes src) T)"
proof -
  have "returns (after_attempt (after_attempt (try_run E (map_option data src \<noteq> None) T s)
      (try_large E T (map_option data src) c)) (try_small E (map_option data src \<noteq> None) T))
    (attempt_ok E (source_bytes src) T (input_pos s))"
    using try_run_ok [OF assms(2,3,5)] try_large_ok [OF assms(1,2) _ assms(4)] try_small_ok [OF assms(2) _ assms(4)]
    by (metis (no_types, lifting) after_attempt_ok)
  then show ?thesis
    unfolding scan_turn_def returns_bind
    by (rule returns_mono)
      (use advance_one_ok [OF assms(2)] assms(5) in \<open>auto simp: wp split: Attempt.splits\<close>)
qed

lemma scan_loop_ok:
  assumes "sources src c" "engine_ok E (length (source_bytes src))" "length T < 2 ^ 63"
  shows "scan_ok E (source_bytes src) T s \<Longrightarrow>
    returns (scan_loop E T (map_option data src) c s) (scan_ok E (source_bytes src) T)"
proof (induction "Suc (length T) - input_pos s" arbitrary: s rule: less_induct)
  case less
  show ?case
  proof (cases "length T < input_pos s + small_look (me_config E)")
    case False
    then have "returns (scan_turn E T (map_option data src) c s) (scan_ok E (source_bytes src) T)"
      using less.prems assms by (intro scan_turn_ok) simp_all
    then have "returns (scan_turn E T (map_option data src) c s)
        (\<lambda>s'. returns (scan_loop E T (map_option data src) c s') (scan_ok E (source_bytes src) T))"
      by (rule returns_mono) (use less.hyps False in \<open>auto dest!: scan_turn_progress\<close>)
    with False show ?thesis by (subst scan_loop.simps) (simp add: wp)
  qed (use less.prems in \<open>subst scan_loop.simps, simp add: wp\<close>)
qed

lemma probe_accept_ok:
  assumes "sources src c" "src \<noteq> None" "engine_ok E n" "scan_ok E (source_bytes src) T s"
    and "agrees (source_bytes src) (unat p) T 0 f"
  shows "returns (probe_accept E d T p f s) (\<lambda>(q, s'). scan_ok E (source_bytes src) T s')"
proof (cases "C_MIN_MATCH \<le> f")
  case True
  let ?m = "\<lparr> m_target_pos = 0, m_length = f, m_addr = p, m_is_source = True \<rparr>"
  have "length (source_bytes src) < 2 ^ 63" using assms(1,2) small by (auto simp: sources_def source_bytes_def)
  then have "p \<noteq> - 1" using assms(5) True unat_minus_one_u64 by (auto simp: agrees_def C_MIN_MATCH_def)
  then have "valid_match (source_bytes src) T ?m"
    using assms(5) True by (simp add: valid_match_def C_MIN_MATCH_def agrees_def)
  then have ok: "scan_ok E (source_bytes src) T (push_match ?m s)" by (rule scan_ok_push_all [OF assms(4)])
  have "f \<le> length T" using assms(5) by (simp add: agrees_def)
  then have "returns (restart E d T ((push_match ?m s)\<lparr> input_pos := f \<rparr>))
      (\<lambda>s'. scan_ok E (source_bytes src) T s' \<and> input_pos s' = input_pos ((push_match ?m s)\<lparr> input_pos := f \<rparr>))"
    using ok by (intro restart_ok [OF assms(3)]) (auto simp: scan_ok_def)
  then show ?thesis
    using True by (auto simp: probe_accept_def Let_def wp elim!: returns_mono)
qed (use assms(4) in \<open>simp add: probe_accept_def wp\<close>)

lemma probe_ok:
  assumes "sources src c" "engine_ok E n" "scan_ok E (source_bytes src) T s"
  shows "returns (probe E T (map_option data src) c s) (\<lambda>(q, s'). scan_ok E (source_bytes src) T s')"
proof (cases src)
  case None
  then have "c = None" using assms(1) by (auto simp: sources_def)
  with None assms(3) show ?thesis by (simp add: probe_def wp)
next
  case (Some x)
  have x: "ready x" using assms(1) Some by (simp add: sources_def)
  let ?S = "source_bytes src"
  have S: "?S = bytes x" by (simp add: Some source_bytes_def)
  note acc = probe_accept_ok [OF assms(1) _ assms(2,3)]
  have ag: "agrees ?S i T 0 (prefix_len (take k (drop i ?S)) (take k T))" if "i \<le> length ?S" for i k
    using agrees_prefix_len [OF that, of 0 T k] by simp
  consider "c = Some ?S" | "c = None" using assms(1) by (auto simp: sources_def)
  then show ?thesis
  proof cases
    case 1
    then show ?thesis
      using assms(3) ag [of "unat (match_srcpos E)"] Some acc
      by (auto simp: probe_def Let_def wp)
  next
    case 2
    let ?p = "match_srcpos E"
    have avail: "unat (sd_len (data x) - ?p) = length ?S - unat ?p" if "?p < sd_len (data x)"
      using that small [OF x] unfolding len [OF x] S
      by (subst unat_sub_no_wrap) (simp_all add: word_le_nat_alt word_less_nat_alt)
    have lt: "unat ?p < length ?S" if "?p < sd_len (data x)"
      using that small [OF x] by (simp add: len [OF x] S word_less_nat_alt)
    show ?thesis
    proof (cases "?p < sd_len (data x)")
      case True
      define mf where "mf = min (length T) (length (bytes x) - unat ?p)"
      have mf: "unat ?p + mf \<le> length (bytes x)" "mf \<le> length T" using lt [OF True] by (simp_all add: mf_def S)
      have acc': "returns (probe_accept E d T ?p f s) (\<lambda>(q, s'). scan_ok E (bytes x) T s')"
        if "agrees (bytes x) (unat ?p) T 0 f" for d f
        using acc [of ?p f d] that Some unfolding S by simp
      have "returns (sd_as_slice (data x) ?p mf) (\<lambda>c. returns (case c of
           Some src_slice \<Rightarrow> forward_match_fn (me_cpu E) src_slice T mf | None \<Rightarrow> (Ok 0 :: (nat, EncodeError) res))
         (\<lambda>f. returns (probe_accept E True T ?p f s) (\<lambda>(q, s'). scan_ok E (bytes x) T s')))"
        using mf lt [OF True] ag [of "unat ?p" mf] unfolding S
        by (intro returns_as_slice [OF x]) (auto simp: wp intro!: acc')
      then show ?thesis
        using 2 True avail [OF True] assms(3) unfolding S
        by (simp add: probe_def Let_def wp Some flip: mf_def)
    qed (use 2 Some assms(3) in \<open>simp add: probe_def wp\<close>)
  qed
qed

end

section \<open>Instructions that cover a target\<close>

fun inst_length :: "Instruction \<Rightarrow> nat" where
  "inst_length (Add n) = unat n"
| "inst_length (Copy n a m) = unat n"
| "inst_length (Run n) = unat n"

fun inst_ok :: "byte list \<Rightarrow> byte list \<Rightarrow> nat \<Rightarrow> Instruction \<Rightarrow> bool" where
  "inst_ok S T p (Add n) \<longleftrightarrow> 0 < unat n \<and> p + unat n \<le> length T"
| "inst_ok S T p (Copy n a m) \<longleftrightarrow> 0 < unat n \<and> (agrees S (unat a) T p (unat n)
     \<or> length S \<le> unat a \<and> unat a - length S < p \<and> agrees T (unat a - length S) T p (unat n))"
| "inst_ok S T p (Run n) \<longleftrightarrow> 0 < unat n \<and> p + unat n \<le> length T \<and> (\<forall>k < unat n. T ! (p + k) = T ! p)"

fun covers :: "byte list \<Rightarrow> byte list \<Rightarrow> nat \<Rightarrow> Instruction list \<Rightarrow> nat \<Rightarrow> bool" where
  "covers S T p [] q \<longleftrightarrow> p = q"
| "covers S T p (i # is) q \<longleftrightarrow> inst_ok S T p i \<and> covers S T (p + inst_length i) is q"

text \<open>The shortest COPY and RUN worth an instruction.\<close>

fun inst_wide :: "Instruction \<Rightarrow> bool" where
  "inst_wide (Add n) \<longleftrightarrow> True"
| "inst_wide (Copy n a m) \<longleftrightarrow> C_MIN_MATCH \<le> unat n"
| "inst_wide (Run n) \<longleftrightarrow> MIN_RUN \<le> unat n"

lemma covers_append: "covers S T p (is @ js) q \<longleftrightarrow> (\<exists>r. covers S T p is r \<and> covers S T r js q)"
  by (induction "is" arbitrary: p) auto

lemma covers_trans: "covers S T p is r \<Longrightarrow> covers S T r js q \<Longrightarrow> covers S T p (is @ js) q"
  by (auto simp: covers_append)

lemma unat_len32 [simp]: "n < 2 ^ 32 \<Longrightarrow> unat (of_nat n :: u32) = n"
  by (simp add: unat_of_nat_id)

lemma gap_covers:
  assumes "p \<le> q" "q \<le> length T" "length T < 2 ^ 32"
  shows "covers S T p (if p < q then [Add (of_nat (q - p))] else []) q"
proof -
  have "unat (of_nat (q - p) :: u32) = q - p" using assms by (intro unat_len32) simp
  then show ?thesis using assms by (simp del: of_nat_diff)
qed

lemma match_instruction_ok:
  assumes "valid_match S T m" "length T < 2 ^ 32" "length S < 2 ^ 63" "n = of_nat (length S)"
  shows "inst_ok S T (m_target_pos m) (match_instruction n m) \<and> inst_length (match_instruction n m) = m_length m
     \<and> inst_wide (match_instruction n m)"
proof -
  have l: "unat (of_nat (m_length m) :: u32) = m_length m" using assms(1,2) by (auto simp: valid_match_def)
  have "unat (n + m_addr m) = length S + unat (m_addr m)" if "unat (m_addr m) < m_target_pos m"
    using that assms unfolding assms(4) by (subst unat_add_no_wrap) (auto simp: valid_match_def)
  then show ?thesis using assms(1) l valid_match_pos [OF assms(1)] by (auto simp: match_instruction_def valid_match_def)
qed

lemma emit_match_covers:
  assumes "valid_match S T m" "length T < 2 ^ 32" "length S < 2 ^ 63" "n = of_nat (length S)"
    and "covers S T 0 insts c" "list_all inst_wide insts" "emit_match n (c, insts) m = (c', insts')"
  shows "covers S T 0 insts' c' \<and> list_all inst_wide insts'"
proof (cases "m_target_pos m < c")
  case False
  let ?gap = "if c < m_target_pos m then [Add (of_nat (m_target_pos m - c))] else []"
  have "covers S T c ?gap (m_target_pos m)"
    using False assms(1,2) by (intro gap_covers) (auto simp: valid_match_def)
  moreover have "covers S T (m_target_pos m) [match_instruction n m] (m_target_pos m + m_length m)"
    using match_instruction_ok [OF assms(1-4)] by simp
  ultimately have "covers S T 0 (insts @ ?gap @ [match_instruction n m]) (m_target_pos m + m_length m)"
    using assms(5) by (intro covers_trans)
  moreover have "list_all inst_wide (insts @ ?gap @ [match_instruction n m])"
    using assms(6) match_instruction_ok [OF assms(1-4)] by simp
  ultimately show ?thesis using False assms(7) by (auto simp: emit_match_def)
qed (use assms in \<open>simp add: emit_match_def\<close>)

lemma emit_matches_covers:
  assumes "length T < 2 ^ 32" "length S < 2 ^ 63" "n = of_nat (length S)"
  shows "\<forall>m \<in> set ms. valid_match S T m \<Longrightarrow> covers S T 0 insts c \<Longrightarrow> list_all inst_wide insts
    \<Longrightarrow> foldl (emit_match n) (c, insts) ms = (c', insts') \<Longrightarrow> covers S T 0 insts' c' \<and> list_all inst_wide insts'"
proof (induction ms arbitrary: c insts)
  case (Cons m ms)
  obtain c1 i1 where e: "emit_match n (c, insts) m = (c1, i1)" by fastforce
  have "covers S T 0 i1 c1 \<and> list_all inst_wide i1"
    using emit_match_covers [OF _ assms Cons.prems(2,3) e] Cons.prems(1) by simp
  with Cons.IH [of i1 c1] Cons.prems e show ?case by simp
qed simp

lemma covers_le: "covers S T p is q \<Longrightarrow> p \<le> length T \<Longrightarrow> q \<le> length T"
proof (induction "is" arbitrary: p)
  case (Cons i "is")
  then show ?case by (cases i) (auto simp: agrees_def)
qed simp

lemma set_sort_matches: "set (foldl sort_match out ms) \<subseteq> set out \<union> set ms"
proof (induction ms arbitrary: out)
  case (Cons m ms)
  have "set (sort_match out m) \<subseteq> set out \<union> {m}"
    using set_pop_while [of _ out] by (auto simp: sort_match_def Let_def)
  with Cons [of "sort_match out m"] show ?case by auto
qed simp

lemma matches_to_instructions_covers:
  assumes "\<forall>m \<in> set ms. valid_match S T m" "length T < 2 ^ 32" "length S < 2 ^ 63"
  shows "covers S T 0 (matches_to_instructions T (of_nat (length S)) ms) (length T)
     \<and> list_all inst_wide (matches_to_instructions T (of_nat (length S)) ms)"
proof -
  obtain c insts where f: "foldl (emit_match (of_nat (length S))) (0, []) (foldl sort_match [] ms) = (c, insts)"
    by fastforce
  have c: "covers S T 0 insts c" "list_all inst_wide insts"
    using emit_matches_covers [OF assms(2,3) refl _ _ _ f] assms(1) set_sort_matches [of "[]" ms] by auto
  have le: "c \<le> length T" by (rule covers_le [OF c(1)]) simp
  show ?thesis
    unfolding matches_to_instructions_def f prod.case
    using covers_trans [OF c(1) gap_covers [OF le order_refl assms(2)]] c(2) by simp
qed

lemma emit_add_all_covers:
  "length T < 2 ^ 32 \<Longrightarrow> covers S T 0 (emit_add_all T) (length T) \<and> list_all inst_wide (emit_add_all T)"
  by (simp add: emit_add_all_def)

section \<open>Building and indexing an engine\<close>

lemma sprevsz_bound: "int (sprevsz_for config w) < 2 ^ 63"
proof -
  have "sprevsz_for config w \<le> DEFAULT_SPREVSZ"
    by (auto simp: sprevsz_for_def DEFAULT_SPREVSZ_def)
  then show ?thesis by (simp add: DEFAULT_SPREVSZ_def)
qed

lemma MatchEngine_new_ok:
  assumes "config_ok config"
  shows "returns (MatchEngine_new cpu config n w) (\<lambda>E. engine_ok E k \<and> me_config E = config)"
proof -
  have step: "large_step config \<noteq> 0" using assms by (simp add: config_ok_def)
  have table: "\<forall>e \<in> set (lt_table (LargeTable_new slots)). e = 0" for slots
    by (auto simp: LargeTable_new_def Let_def)
  then show ?thesis
    using assms step small_ok_new [OF sprevsz_bound] large_ok_new
    by (auto simp: MatchEngine_new_def large_slots_for_def wp Let_def engine_ok_def LargeHash_new_def)
qed

definition table_within :: "LargeTable \<Rightarrow> nat \<Rightarrow> bool" where
  "table_within t n \<longleftrightarrow> large_ok t \<and> (\<forall>e \<in> set (lt_table t). e \<noteq> 0 \<longrightarrow> unat (e - 1) < n)"

lemma table_within_inserted:
  assumes "table_within t n" "p < n" "n < 2 ^ 63"
  shows "table_within (large_inserted t c (of_nat p)) n"
proof -
  have "unat ((of_nat p + 1 :: u64) - 1) < n" using assms(2,3) by simp
  moreover have "e \<in> set (lt_table (large_inserted t c (of_nat p))) \<Longrightarrow> e = of_nat p + 1 \<or> e \<in> set (lt_table t)" for e
    using set_update_subset_insert [of "lt_table t" _ "of_nat p + 1"] by (auto simp: large_inserted_def)
  ultimately show ?thesis
    using assms(1) large_ok_inserted [of t] unfolding table_within_def by metis
qed

lemma index_loop_ok:
  assumes "0 < step" "off + length chunk \<le> n" "n < 2 ^ 63" "0 < look lh"
  shows "table_within t n \<Longrightarrow> pos + look lh \<le> length chunk \<Longrightarrow>
    returns (index_loop lh step chunk off pos t) (\<lambda>t'. table_within t' n)"
proof (induction pos arbitrary: t rule: less_induct)
  case (less pos)
  have ins: "table_within (large_inserted t c (of_nat (off + pos))) n" for c
    using less.prems assms by (intro table_within_inserted) simp_all
  have t: "large_ok t" using less.prems(1) by (simp add: table_within_def)
  have rec: "returns (index_loop lh step chunk off (pos - step) t') (\<lambda>t'. table_within t' n)"
    if "\<not> pos < step" "table_within t' n" for t'
    by (rule less.IH) (use that less.prems assms in simp_all)
  show ?case
    by (subst index_loop.simps)
      (use less.prems assms(1) ins rec in
        \<open>auto simp: wp LargeTable_insert_eq [OF t] simp del: of_nat_add intro!: returns_checksum\<close>)
qed

context source_data
begin

lemma index_chunks_ok:
  assumes "ready s" "config_ok (me_config E)" "look (me_large_hash E) = large_look (me_config E)"
  defines "n \<equiv> length (bytes s)"
  shows "table_within t n \<Longrightarrow> returns (index_chunks E (data s) n off t) (\<lambda>t'. table_within t' n)"
proof (induction "n - off" arbitrary: off t rule: less_induct)
  case less
  show ?case
  proof (cases "off < n")
    case True
    define stop where "stop = min (off + INDEX_CHUNK) n"
    have stop: "off < stop" "stop \<le> n" using True by (simp_all add: stop_def INDEX_CHUNK_def)
    have n: "n < 2 ^ 63" using small [OF assms(1)] by (simp add: n_def)
    have rec: "returns (index_chunks E (data s) n stop t') (\<lambda>t'. table_within t' n)" if "table_within t' n" for t'
      by (rule less.hyps) (use that True stop in simp_all)
    let ?l = "large_look (me_config E)" and ?chunk = "take (stop - off) (drop off (bytes s))"
    have look: "0 < ?l" "0 < large_step (me_config E)" using assms(2) by (simp_all add: config_ok_def)
    have chunk: "returns (index_loop (me_large_hash E) (large_step (me_config E)) ?chunk off (stop - off - ?l) t)
        (\<lambda>t'. table_within t' n)" if "\<not> stop - off < ?l"
      by (rule index_loop_ok [OF look(2) _ n _ less.prems])
        (use that stop look assms(3) in \<open>auto simp: n_def\<close>)
    have "returns (sd_as_slice (data s) (of_nat off) (stop - off)) (\<lambda>c. returns (case c of
           Some chunk \<Rightarrow> index_loop (me_large_hash E) (large_step (me_config E)) chunk off (stop - off - ?l) t
         | None \<Rightarrow> Ok t) (\<lambda>t. returns (index_chunks E (data s) n stop t) (\<lambda>t'. table_within t' n)))"
      if "\<not> stop - off < ?l"
      using True stop n rec less.prems chunk [OF that]
      by (intro returns_as_slice [OF assms(1)]) (auto simp: n_def wp elim!: returns_mono)
    then show ?thesis
      using True less.prems by (subst index_chunks.simps) (simp add: Let_def wp flip: stop_def)
  qed (use less.prems in \<open>subst index_chunks.simps, simp add: wp\<close>)
qed

lemma index_source_ok:
  assumes "ready s" "engine_ok E (length (bytes s))"
  shows "returns (index_source E (data s)) (\<lambda>E'. engine_ok E' (length (bytes s)) \<and> me_config E' = me_config E)"
proof -
  let ?n = "length (bytes s)" and ?l = "large_look (me_config E)"
  have n: "?n < 2 ^ 63" "unat (sd_len (data s)) = ?n" using small [OF assms(1)] by (simp_all add: len [OF assms(1)])
  have E: "config_ok (me_config E)" "look (me_large_hash E) = ?l" "table_within (me_large_table E) ?n"
    using assms(2) by (auto simp: engine_ok_def table_within_def)
  have look: "0 < ?l" "0 < large_step (me_config E)" using E(1) by (simp_all add: config_ok_def)
  have whole: "returns (index_loop (me_large_hash E) (large_step (me_config E)) (bytes s) 0 (?n - ?l) (me_large_table E))
      (\<lambda>t'. table_within t' ?n)" if "\<not> ?n < ?l"
    by (rule index_loop_ok [OF look(2) _ n(1) _ E(3)]) (use that look E(2) in simp_all)
  have upd: "engine_ok (E\<lparr> me_large_table := t \<rparr>) ?n" if "table_within t ?n" for t
    using that assms(2) by (simp add: engine_ok_def table_within_def)
  have "returns (sd_as_slice (data s) 0 ?n) (\<lambda>c. returns (case c of
         Some src \<Rightarrow> index_loop (me_large_hash E) (large_step (me_config E)) src 0 (?n - ?l) (me_large_table E)
       | None \<Rightarrow> index_chunks E (data s) ?n 0 (me_large_table E)) (\<lambda>t. engine_ok (E\<lparr> me_large_table := t \<rparr>) ?n))"
    if "\<not> ?n < ?l"
    using returns_mono [OF whole [OF that]] returns_mono [OF index_chunks_ok [OF assms(1) E, of 0]] upd
    by (intro returns_as_slice [OF assms(1)]) auto
  then show ?thesis using assms(2) by (simp add: index_source_def n(2) Let_def wp)
qed

lemma find_matches_ok:
  assumes "\<forall>s. src = Some s \<longrightarrow> ready s" "engine_ok E (length (source_bytes src))" "length T < 2 ^ 32"
  shows "returns (find_matches E T (map_option data src)) (\<lambda>(E', insts). engine_ok E' (length (source_bytes src))
    \<and> me_config E' = me_config E \<and> covers (source_bytes src) T 0 insts (length T) \<and> list_all inst_wide insts)"
proof -
  let ?S = "source_bytes src"
  define F where "F = E\<lparr> me_small_table := SmallTable_reset (me_small_table E) \<rparr>"
  define n where "n = (case map_option data src of None \<Rightarrow> 0 | Some src \<Rightarrow> sd_len src)"
  have n: "n = of_nat (length ?S)" "length ?S < 2 ^ 63"
    using assms(1) len small by (auto simp: n_def source_bytes_def split: option.splits)
  have T: "length T < 2 ^ 63" using assms(3) by simp
  have E: "engine_ok F (length ?S)" using assms(2) small_ok_reset by (simp add: engine_ok_def F_def)
  have start: "returns (restart F d T (initial_scan F)) (scan_ok F ?S T)" for d
    by (rule returns_mono [OF restart_ok [OF E]]) (use E in \<open>auto simp: initial_scan_def engine_ok_def\<close>)
  have fin: "engine_ok (F\<lparr> me_small_table := scan_table s, match_srcpos := q \<rparr>) (length ?S)
      \<and> covers ?S T 0 (matches_to_instructions T n (matches s)) (length T)
      \<and> list_all inst_wide (matches_to_instructions T n (matches s))" if "scan_ok F ?S T s" for s q
    using that E matches_to_instructions_covers [of "matches s" ?S T] assms(3) n
    by (auto simp: scan_ok_def engine_ok_def)
  have cfg: "me_config F = me_config E" by (simp add: F_def)
  have body: "returns (bindR (restart F d T (initial_scan F)) (\<lambda>s.
      bindR (probe F T (map_option data src) c s) (\<lambda>(srcpos, s).
      bindR (scan_loop F T (map_option data src) c s) (\<lambda>s.
      Ok (F\<lparr> me_small_table := scan_table s, match_srcpos := srcpos \<rparr>, matches_to_instructions T n (matches s))))))
    (\<lambda>(E', insts). engine_ok E' (length ?S) \<and> me_config E' = me_config E \<and> covers ?S T 0 insts (length T)
      \<and> list_all inst_wide insts)"
    if "sources src c" for c d
    unfolding returns_bind
    by (rule returns_mono [OF start], rule returns_mono [OF probe_ok [OF that E]], assumption)
      (auto simp: wp fin cfg intro!: returns_mono [OF scan_loop_ok [OF that E T]])
  have src: "returns (case map_option data src of None \<Rightarrow> Ok None | Some src \<Rightarrow> sd_as_slice src 0 (unat (sd_len src)))
      (sources src)"
  proof (cases src)
    case (Some s)
    then have "ready s" "unat (sd_len (data s)) = length (bytes s)"
      using assms(1) small [of s] by (simp_all add: len)
    then show ?thesis using Some by (auto simp: sources_def source_bytes_def intro!: returns_as_slice)
  qed (simp add: wp sources_def)
  show ?thesis
    unfolding find_matches_def Let_def returns_bind [of "case map_option data src of None \<Rightarrow> _ | Some src \<Rightarrow> _ src"]
    by (fold F_def n_def, rule returns_mono [OF src])
      (use E emit_add_all_covers [OF assms(3)] body cfg in \<open>simp add: returns_if returns_Ok\<close>)
qed

end

section \<open>In-memory sources\<close>

interpretation slice_source: source_data slice_data "\<lambda>s. s" "\<lambda>s. length s < 2 ^ 63"
proof unfold_locales
  fix s :: "byte list" and off :: u64 and n
  assume s: "length s < 2 ^ 63"
  show "sd_len (slice_data s) = of_nat (length s)" by (simp add: slice_data_def)
  assume n: "unat off + n \<le> length s"
  have e: "unat (off + of_nat n) = unat off + n" using s n by (subst unat_add_no_wrap) simp_all
  show "sd_as_slice (slice_data s) off n \<in> {Ok None, Ok (Some (take n (drop (unat off) s)))}"
    using n by (simp add: slice_data_def slice_as_slice_def e)
  show "\<exists>k \<le> n. sd_get_bytes (slice_data s) off n = Ok (take k (drop (unat off) s))"
  proof (cases "length s \<le> unat off")
    case False
    then show ?thesis
      using n by (intro exI [of _ n]) (simp add: slice_data_def slice_get_bytes_def Let_def min_absorb1)
  qed (auto simp: slice_data_def slice_get_bytes_def Let_def intro: exI [of _ 0])
qed

section \<open>Properties\<close>

text \<open>
  C5: The match engine is correct whatever its hash tables hold. On every CPU, for every profile,
  every in-memory source (or none) and every target below 4 GiB, \<open>find_matches\<close> returns (no
  unchecked access leaves its buffer and the scan ends), keeps the engine fit for the next
  window, and its instructions cover the target exactly: each COPY names source or earlier
  target bytes that equal the target there, and each RUN a stretch of one byte. No COPY is shorter
  than 4 bytes and no RUN shorter than 8.
\<close>

theorem find_matches_covers:
  assumes "engine_ok E (length S)" and "length S < 2 ^ 63" and "length T < 2 ^ 32"
    and "source = Some (slice_data S) \<or> source = None \<and> S = []"
  shows "\<exists>E' insts. find_matches E T source = Ok (E', insts) \<and> engine_ok E' (length S)
     \<and> me_config E' = me_config E \<and> covers S T 0 insts (length T) \<and> list_all inst_wide insts"
proof -
  obtain src where src: "source = map_option slice_data src" "S = slice_source.source_bytes src"
    using assms(4) by (metis option.simps(4,5,8,9) slice_source.source_bytes_def)
  have "\<forall>s. src = Some s \<longrightarrow> length s < 2 ^ 63" using assms(2) src(2) by (auto simp: slice_source.source_bytes_def)
  from slice_source.find_matches_ok [OF this, of E T] show ?thesis
    using assms(1,3) src by (auto simp: returns_def)
qed

theorem find_matches_covers_witness:
  "\<exists>E E' insts. MatchEngine_new Aarch64 (config_for_level 6) 3 64 = Ok E
     \<and> find_matches E [1, 2, 3, 4, 1, 2, 3, 4, 5] (Some (slice_data [1, 2, 3])) = Ok (E', insts)
     \<and> covers [1, 2, 3] [1, 2, 3, 4, 1, 2, 3, 4, 5] 0 insts (length [1, 2, 3, 4, 1, 2, 3, 4, 5 :: byte])"
proof -
  obtain E where "MatchEngine_new Aarch64 (config_for_level 6) 3 64 = Ok E"
      "engine_ok E (length [1, 2, 3 :: byte])"
    using MatchEngine_new_ok [OF config_ok_level, of Aarch64 6 3 64 "length [1, 2, 3 :: byte]"] by (auto simp: returns_def)
  then show ?thesis
    using find_matches_covers [of E "[1, 2, 3]" "[1, 2, 3, 4, 1, 2, 3, 4, 5]" "Some (slice_data [1, 2, 3])"]
    by (auto simp del: covers.simps)
qed

end
