(* ===== verification/Address_Cache.thy ===== *)
theory Address_Cache
  imports Varint
begin

text \<open>
  The NEAR/SAME address cache of \<open>src/src/vcdiff/address_cache.rs\<close>: its state, \<open>update\<close>,
  the encoder's choice of an address mode and the decoder's inverse. The interface that the
  window encoder and the window decoder share is the locale \<open>address_codec\<close>, interpreted
  here on the cache itself.
\<close>

section \<open>Definitions\<close>

definition VCD_SELF :: byte where
  "VCD_SELF = 0"

definition VCD_HERE :: byte where
  "VCD_HERE = 1"

record AddressCache =
  s_near :: nat
  s_same :: nat
  near_slots :: "u64 list"
  same_slots :: "u64 list"
  next_slot :: nat

datatype EncodedAddr =
    VarInt "byte list" nat  \<comment> \<open>the scratch bytes and how many of them are used\<close>
  | SameByte byte

datatype AddressCacheError = AddrUnderflow | InvalidAddr

definition AddressCache_with_sizes :: "nat \<Rightarrow> nat \<Rightarrow> AddressCache" where
  "AddressCache_with_sizes sn ss =
     \<lparr> s_near = sn, s_same = ss, near_slots = replicate sn 0,
       same_slots = replicate (ss * 256) 0, next_slot = 0 \<rparr>"

definition AddressCache_new :: AddressCache where
  "AddressCache_new = AddressCache_with_sizes 4 3"

definition AddressCache_init :: "AddressCache \<Rightarrow> AddressCache" where
  "AddressCache_init c =
     c\<lparr> near_slots := replicate (length (near_slots c)) 0,
        same_slots := replicate (length (same_slots c)) 0, next_slot := 0 \<rparr>"

definition mode_count :: "AddressCache \<Rightarrow> nat" where
  "mode_count c = 2 + s_near c + s_same c"

definition same_start :: "AddressCache \<Rightarrow> nat" where
  "same_start c = 2 + s_near c"

text \<open>
  \<open>update\<close> in its two halves. The stores \<open>near[next_slot]\<close> and \<open>same[idx]\<close> panic outside the
  arrays, which the invariant below excludes.
\<close>

definition update_near :: "AddressCache \<Rightarrow> u64 \<Rightarrow> (AddressCache, 'e) res" where
  "update_near c addr =
     (if 0 < s_near c then
        (if next_slot c < length (near_slots c) then
           Ok (c\<lparr> near_slots := (near_slots c)[next_slot c := addr],
                  next_slot := (next_slot c + 1) mod s_near c \<rparr>)
         else Panic)
      else Ok c)"

definition update_same :: "AddressCache \<Rightarrow> u64 \<Rightarrow> (AddressCache, 'e) res" where
  "update_same c addr =
     (if 0 < s_same c then
        (let idx = unat addr mod (s_same c * 256) in
           if idx < length (same_slots c) then Ok (c\<lparr> same_slots := (same_slots c)[idx := addr] \<rparr>)
           else Panic)
      else Ok c)"

definition AddressCache_update :: "AddressCache \<Rightarrow> u64 \<Rightarrow> (AddressCache, 'e) res" where
  "AddressCache_update c addr = bindR (update_near c addr) (\<lambda>c. update_same c addr)"

subsection \<open>Encoding\<close>

definition emit_non_same :: "u64 \<Rightarrow> byte \<Rightarrow> (byte \<times> EncodedAddr, 'e) res" where
  "emit_non_same val mode =
     bindR (encode_u64 val (replicate 10 0)) (\<lambda>(buf, len).
     bindR (slice_from buf (10 - len)) (\<lambda>s.
     Ok (mode, VarInt (s @ replicate (10 - len) 0) len)))"

text \<open>
  The search over the NEAR slots, from slot \<open>i\<close> on: the best difference and mode so far, and
  whether the loop returned early because the difference fits in one byte.
\<close>

fun near_search :: "u64 list \<Rightarrow> nat \<Rightarrow> u64 \<Rightarrow> u64 \<Rightarrow> byte \<Rightarrow> u64 \<times> byte \<times> bool" where
  "near_search [] i addr best_d best_m = (best_d, best_m, False)"
| "near_search (n # ns) i addr best_d best_m =
     (if n \<le> addr \<and> addr - n < best_d
      then (if addr - n \<le> 127 then (addr - n, of_nat i + 2, True)
            else near_search ns (Suc i) addr (addr - n) (of_nat i + 2))
      else near_search ns (Suc i) addr best_d best_m)"

text \<open>
  The tail of \<open>encode\<close> after the NEAR loop: the SAME table when it holds the address, else the
  best mode found. Each exit updates the cache.
\<close>

definition finish_emit ::
  "AddressCache \<Rightarrow> u64 \<Rightarrow> u64 \<Rightarrow> byte \<Rightarrow> (AddressCache \<times> byte \<times> EncodedAddr, 'e) res" where
  "finish_emit c addr best_d best_m =
     bindR (emit_non_same best_d best_m) (\<lambda>(m, e).
     bindR (AddressCache_update c addr) (\<lambda>c. Ok (c, m, e)))"

definition encode_same ::
  "AddressCache \<Rightarrow> u64 \<Rightarrow> u64 \<Rightarrow> byte \<Rightarrow> (AddressCache \<times> byte \<times> EncodedAddr, 'e) res" where
  "encode_same c addr best_d best_m =
     (if 0 < s_same c then
        (let d_idx = unat addr mod (s_same c * 256) in
         bindR (index_at (same_slots c) d_idx) (\<lambda>v.
           if v = addr then
             bindR (AddressCache_update c addr) (\<lambda>c'.
               Ok (c', of_nat (same_start c + d_idx div 256), SameByte (of_nat (d_idx mod 256))))
           else finish_emit c addr best_d best_m))
      else finish_emit c addr best_d best_m)"

text \<open>\<open>for i in 0..self.s_near\<close> reads \<open>self.near[i]\<close>: the first \<open>s_near\<close> slots.\<close>

definition encode_near ::
  "AddressCache \<Rightarrow> u64 \<Rightarrow> u64 \<Rightarrow> byte \<Rightarrow> (AddressCache \<times> byte \<times> EncodedAddr, 'e) res" where
  "encode_near c addr best_d best_m =
     bindR (slice_range (near_slots c) 0 (s_near c)) (\<lambda>ns.
       case near_search ns 0 addr best_d best_m of
         (d, m, True) \<Rightarrow> finish_emit c addr d m
       | (d, m, False) \<Rightarrow> encode_same c addr d m)"

definition AddressCache_encode ::
  "AddressCache \<Rightarrow> u64 \<Rightarrow> u64 \<Rightarrow> (AddressCache \<times> byte \<times> EncodedAddr, 'e) res" where
  "AddressCache_encode c addr here =
     (if addr \<le> 127 then finish_emit c addr addr VCD_SELF
      else
        let d = here - addr in
          if d < addr then
            (if d \<le> 127 then finish_emit c addr d VCD_HERE else encode_near c addr d VCD_HERE)
          else encode_near c addr addr VCD_SELF)"

definition as_bytes :: "EncodedAddr \<Rightarrow> byte list" where
  "as_bytes e = (case e of VarInt bytes len \<Rightarrow> take len bytes | SameByte b \<Rightarrow> [b])"

definition EncodedAddr_write_to :: "EncodedAddr \<Rightarrow> byte list \<Rightarrow> byte list" where
  "EncodedAddr_write_to e w =
     (case e of VarInt bytes len \<Rightarrow> write_all w (take len bytes) | SameByte b \<Rightarrow> write_all w [b])"

definition EncodedAddr_len :: "EncodedAddr \<Rightarrow> nat" where
  "EncodedAddr_len e = (case e of VarInt _ len \<Rightarrow> len | SameByte _ \<Rightarrow> 1)"

definition EncodedAddr_is_empty :: "EncodedAddr \<Rightarrow> bool" where
  "EncodedAddr_is_empty e \<longleftrightarrow> EncodedAddr_len e = 0"

subsection \<open>Decoding\<close>

definition checked_sub :: "u64 \<Rightarrow> u64 \<Rightarrow> u64 option" where
  "checked_sub a b = (if b \<le> a then Some (a - b) else None)"

definition checked_add :: "u64 \<Rightarrow> u64 \<Rightarrow> u64 option" where
  "checked_add a b = (if unat a + unat b < 2 ^ 64 then Some (a + b) else None)"

definition ok_or :: "'a option \<Rightarrow> 'e \<Rightarrow> ('a, 'e) res" where
  "ok_or x e = (case x of Some v \<Rightarrow> Ok v | None \<Rightarrow> Err e)"

text \<open>The address of a SELF, HERE or NEAR mode from its integer.\<close>

definition resolve_addr :: "AddressCache \<Rightarrow> nat \<Rightarrow> u64 \<Rightarrow> u64 \<Rightarrow> (u64, AddressCacheError) res" where
  "resolve_addr c mode raw here =
     (if mode = 0 then Ok raw
      else if mode = 1 then ok_or (checked_sub here raw) InvalidAddr
      else bindR (index_at (near_slots c) (mode - 2)) (\<lambda>n. ok_or (checked_add n raw) InvalidAddr))"

definition decode_raw ::
  "AddressCache \<Rightarrow> nat \<Rightarrow> byte list \<Rightarrow> u64 \<Rightarrow> (u64 \<times> nat, AddressCacheError) res" where
  "decode_raw c mode addr_data here =
     (if mode < same_start c then
        bindR (map_err (\<lambda>_. AddrUnderflow) (read_u64 addr_data)) (\<lambda>(raw, consumed).
        bindR (resolve_addr c mode raw here) (\<lambda>addr. Ok (addr, consumed)))
      else
        (case addr_data of
           [] \<Rightarrow> Err AddrUnderflow
         | b # _ \<Rightarrow>
             bindR (index_at (same_slots c) ((mode - same_start c) * 256 + unat b)) (\<lambda>addr.
             Ok (addr, 1))))"

definition AddressCache_decode ::
  "AddressCache \<Rightarrow> byte \<Rightarrow> byte list \<Rightarrow> u64 \<Rightarrow> (AddressCache \<times> u64 \<times> nat, AddressCacheError) res" where
  "AddressCache_decode c mode addr_data here =
     bindR (decode_raw c (unat mode) addr_data here) (\<lambda>(addr, consumed).
       if here \<le> addr then Err InvalidAddr
       else bindR (AddressCache_update c addr) (\<lambda>c. Ok (c, addr, consumed)))"

section \<open>The cache invariant\<close>

definition cache_ok :: "AddressCache \<Rightarrow> bool" where
  "cache_ok c \<longleftrightarrow>
     length (near_slots c) = s_near c \<and> length (same_slots c) = s_same c * 256
     \<and> (0 < s_near c \<longrightarrow> next_slot c < s_near c) \<and> mode_count c \<le> 256"

definition default_cache :: "AddressCache \<Rightarrow> bool" where
  "default_cache c \<longleftrightarrow> cache_ok c \<and> s_near c = 4 \<and> s_same c = 3"

lemma default_cache_new [simp]: "default_cache AddressCache_new"
  by (simp add: default_cache_def cache_ok_def AddressCache_new_def AddressCache_with_sizes_def
      mode_count_def)

lemma default_cache_ok [simp]: "default_cache c \<Longrightarrow> cache_ok c"
  by (simp add: default_cache_def)

lemma cache_init_eq_new: "default_cache c \<Longrightarrow> AddressCache_init c = AddressCache_new"
  by (cases c) (simp add: default_cache_def cache_ok_def AddressCache_init_def AddressCache_new_def
      AddressCache_with_sizes_def)

text \<open>The total version of \<open>update\<close> on caches that satisfy the invariant.\<close>

definition updated :: "AddressCache \<Rightarrow> u64 \<Rightarrow> AddressCache" where
  "updated c addr =
     c\<lparr> near_slots := (near_slots c)[next_slot c := addr],
        next_slot := (if 0 < s_near c then (next_slot c + 1) mod s_near c else next_slot c),
        same_slots := (same_slots c)[unat addr mod (s_same c * 256) := addr] \<rparr>"

lemma update_Ok: "cache_ok c \<Longrightarrow> AddressCache_update c addr = Ok (updated c addr)"
  by (cases c) (auto simp: AddressCache_update_def update_near_def update_same_def updated_def cache_ok_def Let_def)

lemma updated_sizes [simp]:
  "s_near (updated c addr) = s_near c" "s_same (updated c addr) = s_same c"
  by (simp_all add: updated_def)

lemma cache_ok_updated: "cache_ok c \<Longrightarrow> cache_ok (updated c addr)"
  by (auto simp: cache_ok_def updated_def mode_count_def)

lemma default_cache_updated: "default_cache c \<Longrightarrow> default_cache (updated c addr)"
  by (simp add: default_cache_def cache_ok_updated)

section \<open>What the encoder emits\<close>

definition pad10 :: "byte list \<Rightarrow> EncodedAddr" where
  "pad10 bs = VarInt (bs @ replicate (10 - length bs) 0) (length bs)"

lemma as_bytes_pad10 [simp]: "as_bytes (pad10 bs) = bs"
  by (simp add: as_bytes_def pad10_def)

lemma as_bytes_SameByte [simp]: "as_bytes (SameByte b) = [b]"
  by (simp add: as_bytes_def)

lemma write_to_as_bytes: "EncodedAddr_write_to e w = w @ as_bytes e"
  by (cases e) (simp_all add: EncodedAddr_write_to_def as_bytes_def write_all_def)

lemma length_vint_u64_le: "length (vint (unat (d :: u64))) \<le> 10"
  using less_trans [OF u64_lt, of "128 ^ 10" d] by (intro length_vint_le) auto

lemma emit_non_same_eq [simp]: "emit_non_same d m = Ok (m, pad10 (vint (unat d)))"
  using length_vint_u64_le [of d]
  by (simp add: emit_non_same_def encode_u64_eq MAX_VARINT_LEN_def pad10_def)

lemma finish_emit_eq:
  "cache_ok c \<Longrightarrow> finish_emit c addr d m = Ok (updated c addr, m, pad10 (vint (unat d)))"
  by (simp add: finish_emit_def update_Ok)

text \<open>A difference and a mode from which the decoder recovers the address.\<close>

definition addr_form :: "AddressCache \<Rightarrow> u64 \<Rightarrow> u64 \<Rightarrow> u64 \<Rightarrow> byte \<Rightarrow> bool" where
  "addr_form c addr here d m \<longleftrightarrow>
     (m = 0 \<and> d = addr) \<or> (m = 1 \<and> d = here - addr)
     \<or> (\<exists>j < s_near c. near_slots c ! j \<le> addr \<and> d = addr - near_slots c ! j \<and> m = of_nat j + 2)"

definition same_form :: "AddressCache \<Rightarrow> u64 \<Rightarrow> byte \<Rightarrow> EncodedAddr \<Rightarrow> bool" where
  "same_form c addr m e \<longleftrightarrow>
     0 < s_same c \<and> (let idx = unat addr mod (s_same c * 256) in
       same_slots c ! idx = addr \<and> m = of_nat (same_start c + idx div 256)
       \<and> e = SameByte (of_nat (idx mod 256)))"

lemma near_search_result:
  "near_search ns i addr bd bm = (d, m, fl) \<Longrightarrow>
   (d = bd \<and> m = bm) \<or> (\<exists>j < length ns. ns ! j \<le> addr \<and> d = addr - ns ! j \<and> m = of_nat (i + j) + 2)"
proof (induction ns i addr bd bm rule: near_search.induct)
  case (2 n ns i addr bd bm)
  let ?P = "\<lambda>d m. \<exists>j < length (n # ns). (n # ns) ! j \<le> addr \<and> d = addr - (n # ns) ! j \<and> m = of_nat (i + j) + 2"
  have here: "?P (addr - n) (of_nat i + 2)" if "n \<le> addr"
    using that by (intro exI [of _ 0]) auto
  have later: "?P d m"
    if "\<exists>j < length ns. ns ! j \<le> addr \<and> d = addr - ns ! j \<and> m = of_nat (Suc i + j) + 2"
  proof -
    from that obtain j where "j < length ns" "ns ! j \<le> addr" "d = addr - ns ! j" "m = of_nat (Suc i + j) + 2"
      by blast
    then show ?thesis by (intro exI [of _ "Suc j"]) auto
  qed
  show ?case
  proof (cases "n \<le> addr \<and> addr - n < bd")
    case True
    show ?thesis
    proof (cases "addr - n \<le> 127")
      case True
      with \<open>n \<le> addr \<and> _\<close> "2.prems" here show ?thesis by auto
    next
      case False
      then have "near_search ns (Suc i) addr (addr - n) (of_nat i + 2) = (d, m, fl)"
        using True "2.prems" by simp
      then show ?thesis using "2.IH"(1) [OF True False] here later True by auto
    qed
  next
    case False
    then have "near_search ns (Suc i) addr bd bm = (d, m, fl)"
      using "2.prems" by auto
    then show ?thesis using "2.IH"(2) [OF False] later by auto
  qed
qed simp

lemma encode_same_cases:
  assumes "cache_ok c" "addr_form c addr here d m"
  shows "\<exists>m' e. encode_same c addr d m = Ok (updated c addr, m', e)
     \<and> ((\<exists>d'. addr_form c addr here d' m' \<and> e = pad10 (vint (unat d'))) \<or> same_form c addr m' e)"
proof (cases "0 < s_same c \<and> same_slots c ! (unat addr mod (s_same c * 256)) = addr")
  case True
  moreover have "unat addr mod (s_same c * 256) < length (same_slots c)"
    using assms(1) True by (simp add: cache_ok_def)
  ultimately show ?thesis
    using assms by (simp add: encode_same_def Let_def update_Ok same_form_def)
next
  case False
  have "encode_same c addr d m = finish_emit c addr d m"
  proof (cases "0 < s_same c")
    case True
    then have "unat addr mod (s_same c * 256) < length (same_slots c)"
      using assms(1) by (simp add: cache_ok_def)
    with True False show ?thesis by (simp add: encode_same_def Let_def)
  qed (simp add: encode_same_def)
  then show ?thesis using assms by (auto simp: finish_emit_eq)
qed

lemma encode_near_cases:
  assumes "cache_ok c" "addr_form c addr here bd bm"
  shows "\<exists>m e. encode_near c addr bd bm = Ok (updated c addr, m, e)
     \<and> ((\<exists>d. addr_form c addr here d m \<and> e = pad10 (vint (unat d))) \<or> same_form c addr m e)"
proof -
  obtain d m fl where ns: "near_search (near_slots c) 0 addr bd bm = (d, m, fl)"
    by (cases "near_search (near_slots c) 0 addr bd bm") auto
  have len: "length (near_slots c) = s_near c" using assms(1) by (simp add: cache_ok_def)
  then have eq: "encode_near c addr bd bm =
      (if fl then finish_emit c addr d m else encode_same c addr d m)"
    by (simp add: encode_near_def ns)
  have form: "addr_form c addr here d m"
    using near_search_result [OF ns] assms(2) len by (auto simp: addr_form_def)
  show ?thesis
  proof (cases fl)
    case True
    with eq form assms show ?thesis by (auto simp: finish_emit_eq)
  next
    case False
    show ?thesis
      unfolding eq if_not_P [OF False] by (rule encode_same_cases [OF assms(1) form])
  qed
qed

lemma AddressCache_encode_cases:
  assumes "cache_ok c"
  shows "\<exists>m e. AddressCache_encode c addr here = Ok (updated c addr, m, e)
     \<and> ((\<exists>d. addr_form c addr here d m \<and> e = pad10 (vint (unat d))) \<or> same_form c addr m e)"
proof -
  have self: "addr_form c addr here addr VCD_SELF" and here: "addr_form c addr here (here - addr) VCD_HERE"
    by (simp_all add: addr_form_def VCD_SELF_def VCD_HERE_def)
  show ?thesis
    using self here encode_near_cases [OF assms self] encode_near_cases [OF assms here] assms
    by (auto simp: AddressCache_encode_def Let_def finish_emit_eq)
qed

section \<open>The decoder inverts the encoder\<close>

lemma decode_raw_form:
  assumes "cache_ok c" "addr_form c addr here d m" "addr < here"
  shows "decode_raw c (unat m) (vint (unat d) @ rest) here = Ok (addr, length (vint (unat d)))"
proof -
  have rd: "read_u64 (vint (unat d) @ rest) = Ok (d, length (vint (unat d)))"
    using u64_lt [of d] by (subst read_u64_vint) auto
  have lt: "unat addr < unat here" using assms(3) by (simp add: word_less_nat_alt)
  from assms(2) consider "m = 0" "d = addr" | "m = 1" "d = here - addr"
    | j where "j < s_near c" "near_slots c ! j \<le> addr" "d = addr - near_slots c ! j" "m = of_nat j + 2"
    unfolding addr_form_def by blast
  then show ?thesis
  proof cases
    case 1
    with rd show ?thesis by (simp add: decode_raw_def same_start_def resolve_addr_def)
  next
    case 2
    have "here - addr \<le> here" using assms(3) by (simp add: word_sub_le)
    with 2 rd show ?thesis
      by (simp add: decode_raw_def same_start_def resolve_addr_def checked_sub_def ok_or_def)
  next
    case 3
    have len: "length (near_slots c) = s_near c" "s_near c \<le> 254"
      using assms(1) by (auto simp: cache_ok_def mode_count_def)
    have m: "unat m = j + 2"
      using 3(1,4) len(2) unat_of_nat_id [of "j + 2", where ?'w = 8] by (simp add: add.commute)
    have "unat (near_slots c ! j) + unat d = unat addr"
      using 3(2,3) by (simp add: unat_sub word_le_nat_alt)
    moreover have "near_slots c ! j + d = addr" using 3(3) by simp
    ultimately have "checked_add (near_slots c ! j) d = Some addr"
      by (simp add: checked_add_def)
    with 3(1) m len rd show ?thesis
      by (simp add: decode_raw_def same_start_def resolve_addr_def ok_or_def)
  qed
qed

lemma decode_raw_same:
  assumes "cache_ok c" "same_form c addr m e"
  shows "decode_raw c (unat m) (as_bytes e @ rest) here = Ok (addr, length (as_bytes e))"
proof -
  let ?idx = "unat addr mod (s_same c * 256)"
  from assms(2) have s: "0 < s_same c" "same_slots c ! ?idx = addr"
    and m: "m = of_nat (same_start c + ?idx div 256)" and e: "e = SameByte (of_nat (?idx mod 256))"
    by (auto simp: same_form_def Let_def)
  have idx: "?idx < s_same c * 256" using s by simp
  then have "?idx div 256 < s_same c" by (simp add: less_mult_imp_div_less)
  then have um: "unat m = same_start c + ?idx div 256"
    using assms(1) unfolding m
    by (intro unat_of_nat_id) (simp add: cache_ok_def mode_count_def same_start_def)
  have "unat (of_nat (?idx mod 256) :: byte) = ?idx mod 256" by (intro unat_of_nat_id) simp
  moreover have "?idx div 256 * 256 + ?idx mod 256 = ?idx" by simp
  ultimately show ?thesis
    using s idx assms(1) um by (simp add: decode_raw_def e cache_ok_def)
qed

lemma AddressCache_decode_encode:
  assumes "cache_ok c" "addr < here" "AddressCache_encode c addr here = Ok (c', m, e)"
  shows "AddressCache_decode c m (as_bytes e @ rest) here = Ok (c', addr, length (as_bytes e))"
proof -
  have raw: "decode_raw c (unat m) (as_bytes e @ rest) here = Ok (addr, length (as_bytes e))"
    and c': "c' = updated c addr"
    using AddressCache_encode_cases [OF assms(1), of addr here, where 'a = 'a] assms(3)
      decode_raw_form [OF assms(1) _ assms(2)] decode_raw_same [OF assms(1)]
    by auto
  then show ?thesis
    using assms(1,2) by (simp add: AddressCache_decode_def update_Ok)
qed


section \<open>The interface of the cache\<close>

text \<open>
  What the window encoder and the window decoder rely on: an encoder and a decoder of
  addresses over a state that both keep, such that decoding what was encoded gives the
  address, consumes exactly its bytes, and leaves both sides in the same state.
\<close>

locale address_codec =
  fixes invar :: "'c \<Rightarrow> bool"
    and fresh :: 'c
    and enc :: "'c \<Rightarrow> u64 \<Rightarrow> u64 \<Rightarrow> ('c \<times> byte \<times> EncodedAddr, 'e) res"
    and dec :: "'c \<Rightarrow> byte \<Rightarrow> byte list \<Rightarrow> u64 \<Rightarrow> ('c \<times> u64 \<times> nat, 'f) res"
    and modes :: nat
  assumes invar_fresh: "invar fresh"
    and enc_total: "invar c \<Longrightarrow> \<exists>c' m e. enc c addr here = Ok (c', m, e)"
    and enc_invar: "invar c \<Longrightarrow> enc c addr here = Ok (c', m, e) \<Longrightarrow> invar c'"
    and enc_mode: "invar c \<Longrightarrow> enc c addr here = Ok (c', m, e) \<Longrightarrow> unat m < modes"
    and dec_enc: "invar c \<Longrightarrow> addr < here \<Longrightarrow> enc c addr here = Ok (c', m, e) \<Longrightarrow>
                    dec c m (as_bytes e @ rest) here = Ok (c', addr, length (as_bytes e))"
begin

text \<open>A whole address section: every address is encoded, then all are decoded in order.\<close>

fun enc_section :: "'c \<Rightarrow> (u64 \<times> u64) list \<Rightarrow> ('c \<times> byte list \<times> byte list, 'e) res" where
  "enc_section c [] = Ok (c, [], [])"
| "enc_section c ((addr, here) # as) =
     bindR (enc c addr here) (\<lambda>(c, m, e).
     bindR (enc_section c as) (\<lambda>(c, ms, bs). Ok (c, m # ms, as_bytes e @ bs)))"

fun dec_section :: "'c \<Rightarrow> byte list \<Rightarrow> u64 list \<Rightarrow> byte list \<Rightarrow> ('c \<times> u64 list \<times> byte list, 'f) res" where
  "dec_section c (m # ms) (here # hs) bs =
     bindR (dec c m bs here) (\<lambda>(c, addr, n).
     bindR (dec_section c ms hs (drop n bs)) (\<lambda>(c, as, bs). Ok (c, addr # as, bs)))"
| "dec_section c _ _ bs = Ok (c, [], bs)"

lemma section_roundtrip:
  assumes "invar c" and "\<forall>(addr, here) \<in> set as. addr < here"
  shows "\<exists>c' ms bs. enc_section c as = Ok (c', ms, bs) \<and> invar c'
           \<and> dec_section c ms (map snd as) (bs @ rest) = Ok (c', map fst as, rest)"
  using assms
proof (induction as arbitrary: c)
  case (Cons a as)
  obtain addr here where a: "a = (addr, here)" by (cases a)
  obtain c1 m e where e: "enc c addr here = Ok (c1, m, e)"
    using enc_total [OF Cons.prems(1)] by blast
  have "invar c1" using enc_invar [OF Cons.prems(1) e] .
  then obtain c' ms bs where IH: "enc_section c1 as = Ok (c', ms, bs)" "invar c'"
    "dec_section c1 ms (map snd as) (bs @ rest) = Ok (c', map fst as, rest)"
    using Cons.IH [of c1] Cons.prems(2) by fastforce
  moreover have "dec c m (as_bytes e @ bs @ rest) here = Ok (c1, addr, length (as_bytes e))"
    using dec_enc [OF Cons.prems(1) _ e] Cons.prems(2) a by simp
  ultimately show ?case by (simp add: a e)
qed simp

end

lemma default_cache_encode:
  assumes "default_cache c" "AddressCache_encode c addr here = Ok (c', m, e)"
  shows "default_cache c' \<and> unat m < 9"
proof -
  have ok: "cache_ok c" and n: "s_near c = 4" "s_same c = 3"
    using assms(1) by (auto simp: default_cache_def)
  have c': "c' = updated c addr"
    and forms: "(\<exists>d. addr_form c addr here d m) \<or> same_form c addr m e"
    using AddressCache_encode_cases [OF ok, of addr here, where 'a = 'a] assms(2) by auto
  from forms have "unat m < 9"
  proof
    assume "\<exists>d. addr_form c addr here d m"
    then consider "m = 0" | "m = 1" | j where "j < 4" "m = of_nat j + 2"
      unfolding addr_form_def n by blast
    then show ?thesis
      using unat_of_nat_id [of "j + 2" for j, where ?'w = 8] by cases (auto simp: add.commute)
  next
    assume s: "same_form c addr m e"
    have "unat addr mod 768 < 3 * 256" by simp
    then have "unat addr mod 768 div 256 < 3" by (rule less_mult_imp_div_less)
    moreover from s have "m = of_nat (6 + unat addr mod 768 div 256)"
      unfolding same_form_def Let_def same_start_def n by simp
    then have "unat m = 6 + unat addr mod 768 div 256"
      using calculation by (simp only:) (intro unat_of_nat_id, simp)
    ultimately show ?thesis by simp
  qed
  with c' default_cache_updated [OF assms(1)] show ?thesis by simp
qed

interpretation cache: address_codec default_cache AddressCache_new AddressCache_encode AddressCache_decode 9
proof unfold_locales
  fix c addr here
  assume c: "default_cache c"
  show "\<exists>c' m e. AddressCache_encode c addr here = Ok (c', m, e)"
    using AddressCache_encode_cases [OF default_cache_ok [OF c], of addr here] by blast
  fix c' m e
  assume e: "AddressCache_encode c addr here = Ok (c', m, e)"
  show "default_cache c'" "unat m < 9" using default_cache_encode [OF c e] by auto
  fix rest
  assume "addr < here"
  then show "AddressCache_decode c m (as_bytes e @ rest) here = Ok (c', addr, length (as_bytes e))"
    using c e by (intro AddressCache_decode_encode) auto
qed (rule default_cache_new)

lemma decode_safe:
  assumes "default_cache c" and "unat mode < mode_count c"
  shows "AddressCache_decode c mode addr_data here \<noteq> Panic
     \<and> (\<forall>c' addr n. AddressCache_decode c mode addr_data here = Ok (c', addr, n) \<longrightarrow>
          addr < here \<and> n \<le> length addr_data \<and> default_cache c')"
proof -
  have ok: "cache_ok c" and n: "s_near c = 4" "s_same c = 3"
      "length (near_slots c) = 4" "length (same_slots c) = 768"
    using assms(1) by (auto simp: default_cache_def cache_ok_def)
  have mode: "unat mode < 9" using assms(2) by (simp add: mode_count_def n)
  have rd: "read_u64 addr_data \<noteq> Panic" by (simp add: read_u64_def read_u64_loop_eq)
  have ra: "resolve_addr c (unat mode) raw here \<noteq> Panic" if "unat mode < 6" for raw
    using that n by (auto simp: resolve_addr_def ok_or_def index_at_def split: option.splits)
  have same: "(unat mode - 6) * 256 + unat (b::byte) < 768" if "6 \<le> unat mode" for b
    using that mode byte_lt [of b] by linarith
  have raw_safe: "decode_raw c (unat mode) addr_data here \<noteq> Panic"
    using rd ra same by (auto simp: decode_raw_def same_start_def n bindR_eq_Panic not_less split: list.splits)
  have raw_len: "n \<le> length addr_data" if "decode_raw c (unat mode) addr_data here = Ok (addr, n)" for addr n
    using that by (auto simp: decode_raw_def bindR_eq_Ok dest: read_u64_Ok split: if_splits list.splits)
  show ?thesis
    using raw_safe raw_len default_cache_updated [OF assms(1)]
    by (auto simp: AddressCache_decode_def bindR_eqs update_Ok ok not_le split: if_splits)
qed

section \<open>Properties\<close>

text \<open>
  C19: Addresses round-trip through the cache. In any state the default cache reaches, every
  address below \<open>here\<close> is encoded without a panic under one of the nine modes; decoding those
  bytes under that mode, whatever follows them, gives the address back, consumes exactly those
  bytes, and leaves the decoder's cache equal to the encoder's.
\<close>

theorem address_roundtrip:
  assumes "default_cache c" and "addr < here"
  shows "\<exists>c' m e. AddressCache_encode c addr here = (Ok (c', m, e) :: (_, unit) res)
           \<and> default_cache c' \<and> unat m < mode_count c
           \<and> AddressCache_decode c m (as_bytes e @ rest) here = Ok (c', addr, EncodedAddr_len e)"
proof -
  obtain c' m e where e: "AddressCache_encode c addr here = (Ok (c', m, e) :: (_, unit) res)"
    using cache.enc_total [OF assms(1)] by blast
  have "length (as_bytes e) = EncodedAddr_len e"
    using AddressCache_encode_cases [OF default_cache_ok [OF assms(1)], of addr here, where 'a = unit] e
    by (auto simp: EncodedAddr_len_def pad10_def as_bytes_def same_form_def Let_def)
  moreover have "mode_count c = 9" using assms(1) by (simp add: default_cache_def mode_count_def)
  ultimately show ?thesis
    using e cache.enc_invar [OF assms(1) e] cache.enc_mode [OF assms(1) e]
      cache.dec_enc [OF assms(1,2) e] by auto
qed

theorem address_roundtrip_witness:
  "\<exists>c' m e. AddressCache_encode AddressCache_new 990 1000 = (Ok (c', m, e) :: (_, unit) res)
     \<and> AddressCache_decode AddressCache_new m (as_bytes e @ [1, 2]) 1000 = Ok (c', 990, EncodedAddr_len e)"
  using address_roundtrip [OF default_cache_new, of 990 1000 "[1, 2]"] by auto

text \<open>
  C24: Decoding an address is memory safe and never yields a forward reference. With a mode of
  the default cache and any address bytes whatever, \<open>decode\<close> does not panic (every index into
  the NEAR and SAME arrays is in range), and an address it returns is below \<open>here\<close>, was read
  from bytes that exist, and leaves the cache well formed.
\<close>

theorem address_decode_safe:
  assumes "default_cache c" and "unat mode < mode_count c"
  shows "AddressCache_decode c mode addr_data here \<noteq> Panic
     \<and> (\<forall>c' addr n. AddressCache_decode c mode addr_data here = Ok (c', addr, n) \<longrightarrow>
          addr < here \<and> n \<le> length addr_data \<and> default_cache c')"
  by (rule decode_safe [OF assms])

theorem address_decode_safe_witness:
  "default_cache AddressCache_new \<and> unat (8 :: byte) < mode_count AddressCache_new
   \<and> AddressCache_decode AddressCache_new 8 [255] 5 \<noteq> Panic"
proof -
  have "unat (8 :: byte) < mode_count AddressCache_new"
    by (simp add: mode_count_def AddressCache_new_def AddressCache_with_sizes_def)
  then show ?thesis using address_decode_safe [OF default_cache_new, of 8 "[255]" 5] by simp
qed

end
