(* ===== verification/Vcd_Header.thy ===== *)
theory Vcd_Header
  imports Varint
begin

text \<open>
  The VCDIFF file header and window header, \<open>src/src/vcdiff/header.rs\<close>: the flag constants,
  the two structures, and their encoders and decoders in the field order of the source. A
  decoder takes the bytes still to be read and returns the rest of them with the header.
\<close>

section \<open>Definitions\<close>

definition VCDIFF_MAGIC :: "byte list" where "VCDIFF_MAGIC = [0xD6, 0xC3, 0xC4, 0x00]"

definition VCD_SECONDARY :: byte where "VCD_SECONDARY = push_bit 0 1"
definition VCD_CODETABLE :: byte where "VCD_CODETABLE = push_bit 1 1"
definition VCD_APPHEADER :: byte where "VCD_APPHEADER = push_bit 2 1"
definition VCD_INVHDR :: byte where "VCD_INVHDR = NOT 0x07"

definition VCD_SOURCE :: byte where "VCD_SOURCE = push_bit 0 1"
definition VCD_TARGET :: byte where "VCD_TARGET = push_bit 1 1"
definition VCD_ADLER32 :: byte where "VCD_ADLER32 = push_bit 2 1"
definition VCD_INVWIN :: byte where "VCD_INVWIN = NOT 0x07"

definition VCD_DATACOMP :: byte where "VCD_DATACOMP = push_bit 0 1"
definition VCD_INSTCOMP :: byte where "VCD_INSTCOMP = push_bit 1 1"
definition VCD_ADDRCOMP :: byte where "VCD_ADDRCOMP = push_bit 2 1"
definition VCD_INVDEL :: byte where "VCD_INVDEL = NOT 0x07"

definition VCD_DJW_ID :: byte where "VCD_DJW_ID = 1"
definition VCD_LZMA_ID :: byte where "VCD_LZMA_ID = 2"
definition VCD_FGK_ID :: byte where "VCD_FGK_ID = 16"

definition HARD_MAX_WINSIZE :: u64 where "HARD_MAX_WINSIZE = push_bit 24 1"

subsection \<open>File header\<close>

record FileHeader =
  hdr_ind :: byte
  secondary_id :: "byte option"
  app_header :: "byte list option"

definition FileHeader_encode :: "FileHeader \<Rightarrow> byte list \<Rightarrow> (byte list, 'e) res" where
  "FileHeader_encode h w =
     (let w = write_all w VCDIFF_MAGIC;
          w = write_all w [hdr_ind h];
          w = (if hdr_ind h AND VCD_SECONDARY \<noteq> 0
               then write_all w [case secondary_id h of Some sid \<Rightarrow> sid | None \<Rightarrow> 0] else w)
      in if hdr_ind h AND VCD_APPHEADER \<noteq> 0 then
           (case app_header h of
              Some data \<Rightarrow> bindR (write_usize w (of_nat (length data))) (\<lambda>w. Ok (write_all w data))
            | None \<Rightarrow> write_usize w 0)
         else Ok w)"

definition FileHeader_decode :: "byte list \<Rightarrow> (FileHeader \<times> byte list, io_error) res" where
  "FileHeader_decode r =
     bindR (read_exact r 4) (\<lambda>(magic, r).
     if take 3 magic \<noteq> take 3 VCDIFF_MAGIC then Err (InvalidData ''invalid VCDIFF magic'')
     else if magic ! 3 \<noteq> 0 then Err (InvalidData ''unsupported VCDIFF version'')
     else
     bindR (read_exact r 1) (\<lambda>(buf1, r).
     let hdr_ind = buf1 ! 0 in
     if hdr_ind AND VCD_INVHDR \<noteq> 0 then Err (InvalidData ''invalid header indicator bits'')
     else
     bindR (if hdr_ind AND VCD_SECONDARY \<noteq> 0
            then bindR (read_exact r 1) (\<lambda>(buf1, r). Ok (Some (buf1 ! 0), r))
            else Ok (None, r)) (\<lambda>(secondary_id, r).
     if hdr_ind AND VCD_CODETABLE \<noteq> 0 then Err (UnsupportedIo ''VCD_CODETABLE is not supported'')
     else
     bindR (if hdr_ind AND VCD_APPHEADER \<noteq> 0
            then bindR (stream_read_usize r) (\<lambda>(len, r).
                 bindR (vec_zeroed len) (\<lambda>n.
                 bindR (read_exact r n) (\<lambda>(data, r). Ok (Some data, r))))
            else Ok (None, r)) (\<lambda>(app_header, r).
     Ok (\<lparr> hdr_ind = hdr_ind, secondary_id = secondary_id, app_header = app_header \<rparr>, r)))))"

subsection \<open>Window header\<close>

record WindowHeader =
  win_ind :: byte
  copy_window_len :: u64
  copy_window_offset :: u64
  enc_len :: u64
  target_window_len :: u64
  del_ind :: byte
  data_len :: u64
  inst_len :: u64
  addr_len :: u64
  wh_adler32 :: "u32 option"

definition has_source :: "WindowHeader \<Rightarrow> bool" where
  "has_source h \<longleftrightarrow> win_ind h AND VCD_SOURCE \<noteq> 0"

definition has_target :: "WindowHeader \<Rightarrow> bool" where
  "has_target h \<longleftrightarrow> win_ind h AND VCD_TARGET \<noteq> 0"

definition has_checksum :: "WindowHeader \<Rightarrow> bool" where
  "has_checksum h \<longleftrightarrow> win_ind h AND VCD_ADLER32 \<noteq> 0"

definition to_be_bytes :: "u32 \<Rightarrow> byte list" where
  "to_be_bytes c = [ucast (drop_bit 24 c), ucast (drop_bit 16 c), ucast (drop_bit 8 c), ucast c]"

definition from_be_bytes :: "byte list \<Rightarrow> u32" where
  "from_be_bytes bs = push_bit 24 (ucast (bs ! 0)) OR push_bit 16 (ucast (bs ! 1))
     OR push_bit 8 (ucast (bs ! 2)) OR ucast (bs ! 3)"

definition WindowHeader_encode :: "WindowHeader \<Rightarrow> byte list \<Rightarrow> (byte list, 'e) res" where
  "WindowHeader_encode h w =
     (let w = write_all w [win_ind h] in
     bindR (if has_source h \<or> has_target h
            then bindR (write_u64 w (copy_window_len h)) (\<lambda>w. write_u64 w (copy_window_offset h))
            else Ok w) (\<lambda>w.
     bindR (write_u64 w (enc_len h)) (\<lambda>w.
     bindR (write_u64 w (target_window_len h)) (\<lambda>w.
     let w = write_all w [del_ind h] in
     bindR (write_u64 w (data_len h)) (\<lambda>w.
     bindR (write_u64 w (inst_len h)) (\<lambda>w.
     bindR (write_u64 w (addr_len h)) (\<lambda>w.
     if has_checksum h then
       (case wh_adler32 h of Some cksum \<Rightarrow> Ok (write_all w (to_be_bytes cksum)) | None \<Rightarrow> Ok w)
     else Ok w)))))))"

definition compute_enc_len :: "WindowHeader \<Rightarrow> u64" where
  "compute_enc_len h =
     (let len = 0;
          len = len + of_nat (sizeof_u64 (target_window_len h));
          len = len + 1;
          len = len + of_nat (sizeof_u64 (data_len h));
          len = len + of_nat (sizeof_u64 (inst_len h));
          len = len + of_nat (sizeof_u64 (addr_len h));
          len = len + data_len h;
          len = len + inst_len h;
          len = len + addr_len h
      in if has_checksum h then len + 4 else len)"

text \<open>The steps of \<open>WindowHeader::decode\<close>, named after the decoder states its comments give.\<close>

definition read_copy_window :: "byte \<Rightarrow> byte list \<Rightarrow> ((u64 \<times> u64) \<times> byte list, io_error) res" where
  "read_copy_window wi r =
     (let has_copy = (wi AND (VCD_SOURCE OR VCD_TARGET) \<noteq> 0) in
      if wi AND VCD_SOURCE \<noteq> 0 \<and> wi AND VCD_TARGET \<noteq> 0
      then Err (InvalidData ''VCD_SOURCE and VCD_TARGET are mutually exclusive'')
      else if has_copy
      then bindR (stream_read_u64 r) (\<lambda>(len, r). bindR (stream_read_u64 r) (\<lambda>(off, r). Ok ((len, off), r)))
      else Ok ((0, 0), r))"

definition read_target_len :: "byte list \<Rightarrow> (u64 \<times> byte list, io_error) res" where
  "read_target_len r =
     bindR (stream_read_u64 r) (\<lambda>(target_window_len, r).
     if HARD_MAX_WINSIZE < target_window_len then Err (InvalidData ''target window too large'')
     else Ok (target_window_len, r))"

definition read_del_ind :: "byte list \<Rightarrow> (byte \<times> byte list, io_error) res" where
  "read_del_ind r =
     bindR (read_exact r 1) (\<lambda>(buf1, r).
     let del_ind = buf1 ! 0 in
     if del_ind AND VCD_INVDEL \<noteq> 0 then Err (InvalidData ''invalid delta indicator bits'')
     else Ok (del_ind, r))"

definition read_cksum :: "byte \<Rightarrow> byte list \<Rightarrow> (u32 option \<times> byte list, io_error) res" where
  "read_cksum wi r =
     (if wi AND VCD_ADLER32 \<noteq> 0
      then bindR (read_exact r 4) (\<lambda>(cksum_buf, r). Ok (Some (from_be_bytes cksum_buf), r))
      else Ok (None, r))"

definition check_enc_len :: "WindowHeader \<Rightarrow> byte list \<Rightarrow> (WindowHeader option \<times> byte list, io_error) res" where
  "check_enc_len hdr r =
     (let expected = compute_enc_len hdr in
      if enc_len hdr \<noteq> expected then Err (InvalidData ''enc_len mismatch'') else Ok (Some hdr, r))"

definition WindowHeader_decode :: "byte list \<Rightarrow> (WindowHeader option \<times> byte list, io_error) res" where
  "WindowHeader_decode r =
     (case read_exact r 1 of
        Err UnexpectedEof \<Rightarrow> Ok (None, r)
      | Err e \<Rightarrow> Err e
      | Panic \<Rightarrow> Panic
      | Ok (buf1, r) \<Rightarrow>
     let wi = buf1 ! 0 in
     if wi AND VCD_INVWIN \<noteq> 0 then Err (InvalidData ''invalid window indicator bits'')
     else
     bindR (read_copy_window wi r) (\<lambda>((cl, co), r).
     bindR (stream_read_u64 r) (\<lambda>(el, r).
     bindR (read_target_len r) (\<lambda>(tw, r).
     bindR (read_del_ind r) (\<lambda>(di, r).
     bindR (stream_read_u64 r) (\<lambda>(dl, r).
     bindR (stream_read_u64 r) (\<lambda>(il, r).
     bindR (stream_read_u64 r) (\<lambda>(al, r).
     bindR (read_cksum wi r) (\<lambda>(ad, r).
     check_enc_len \<lparr> win_ind = wi, copy_window_len = cl, copy_window_offset = co, enc_len = el,
                    target_window_len = tw, del_ind = di, data_len = dl, inst_len = il,
                    addr_len = al, wh_adler32 = ad \<rparr> r)))))))))"

section \<open>Reading a number from the stream\<close>

lemma stream_read_u64_not_Panic [simp]: "stream_read_u64 r \<noteq> Panic"
  by (cases "(r, 0 :: nat, read_u64 r)" rule: stream_of.cases)
    (auto simp: stream_read_u64_eq read_u64_def read_u64_loop_eq)

lemma stream_read_u64_shorter:
  assumes "stream_read_u64 r = Ok (v, r')"
  shows "length r' < length r"
proof -
  from assms obtain k where k: "read_u64 r = Ok (v, k)" "r' = drop k r"
    by (cases "(r, 0 :: nat, read_u64 r)" rule: stream_of.cases) (auto simp: stream_read_u64_eq)
  have "0 < k" using k(1) by (auto simp: read_u64_def read_u64_loop_eq dest: read_word_loop_grows)
  with k(2) read_u64_Ok [OF k(1)] show ?thesis by auto
qed

section \<open>Big-endian words\<close>

lemma from_to_be_bytes [simp]: "from_be_bytes (to_be_bytes c) = c"
proof (rule bit_word_eqI)
  fix n assume "n < LENGTH(32)"
  then consider "n < 8" | "8 \<le> n" "n < 16" | "16 \<le> n" "n < 24" | "24 \<le> n" "n < 32"
    by force
  then show "bit (from_be_bytes (to_be_bytes c)) n \<longleftrightarrow> bit c n"
    by cases (auto simp: from_be_bytes_def to_be_bytes_def bit_simps)
qed

lemma length_to_be_bytes [simp]: "length (to_be_bytes c) = 4"
  by (simp add: to_be_bytes_def)

lemma to_from_be_bytes:
  assumes "length bs = 4"
  shows "to_be_bytes (from_be_bytes bs) = bs"
proof -
  obtain a b c d where "bs = [a, b, c, d]" using assms by (auto simp: numeral_eq_Suc length_Suc_conv)
  then show ?thesis
    by (auto simp: from_be_bytes_def to_be_bytes_def bit_eq_iff bit_simps dest: bit_imp_le_length)
qed

section \<open>File header\<close>

lemma stream_read_usize_vint [simp]:
  "n < 2 ^ 64 \<Longrightarrow> stream_read_usize (vint n @ rest) = Ok (of_nat n, rest)"
  by (simp add: stream_read_usize_def)

lemma read_byte [simp]: "read_exact (x # xs) 1 = Ok ([x], xs)"
  by (simp add: read_exact_def)

text \<open>What a file header says once the fields its flags leave out are dropped.\<close>

definition file_header_ok :: "FileHeader \<Rightarrow> bool" where
  "file_header_ok h \<longleftrightarrow> hdr_ind h AND VCD_INVHDR = 0 \<and> hdr_ind h AND VCD_CODETABLE = 0
     \<and> (case app_header h of Some data \<Rightarrow> int (length data) < 2 ^ 63 | None \<Rightarrow> True)"

definition file_header_canon :: "FileHeader \<Rightarrow> FileHeader" where
  "file_header_canon h = \<lparr> hdr_ind = hdr_ind h,
     secondary_id = (if hdr_ind h AND VCD_SECONDARY \<noteq> 0
        then Some (case secondary_id h of Some sid \<Rightarrow> sid | None \<Rightarrow> 0) else None),
     app_header = (if hdr_ind h AND VCD_APPHEADER \<noteq> 0
        then Some (case app_header h of Some data \<Rightarrow> data | None \<Rightarrow> []) else None) \<rparr>"

definition file_header_bytes :: "FileHeader \<Rightarrow> byte list" where
  "file_header_bytes h = VCDIFF_MAGIC @ [hdr_ind h]
     @ (if hdr_ind h AND VCD_SECONDARY \<noteq> 0
        then [case secondary_id h of Some sid \<Rightarrow> sid | None \<Rightarrow> 0] else [])
     @ (if hdr_ind h AND VCD_APPHEADER \<noteq> 0
        then (case app_header h of Some data \<Rightarrow> vint (length data) @ data | None \<Rightarrow> vint 0) else [])"

lemma FileHeader_encode_eq:
  "file_header_ok h \<Longrightarrow> FileHeader_encode h w = Ok (w @ file_header_bytes h)"
  by (auto simp: FileHeader_encode_def file_header_bytes_def file_header_ok_def write_all_def
      unat_of_nat_id split: option.splits)

lemma FileHeader_decode_bytes:
  assumes "file_header_ok h"
  shows "FileHeader_decode (file_header_bytes h @ rest) = Ok (file_header_canon h, rest)"
proof -
  have "read_exact (file_header_bytes h @ rest) 4 = Ok (VCDIFF_MAGIC, drop 4 (file_header_bytes h @ rest))"
    by (simp add: read_exact_def file_header_bytes_def VCDIFF_MAGIC_def)
  then show ?thesis
    using assms
    by (auto simp: FileHeader_decode_def VCDIFF_MAGIC_def file_header_bytes_def file_header_ok_def
        file_header_canon_def split: option.splits)
qed

section \<open>Window header\<close>

definition window_header_ok :: "WindowHeader \<Rightarrow> bool" where
  "window_header_ok h \<longleftrightarrow> win_ind h AND VCD_INVWIN = 0 \<and> \<not> (has_source h \<and> has_target h)
     \<and> target_window_len h \<le> HARD_MAX_WINSIZE \<and> del_ind h AND VCD_INVDEL = 0
     \<and> enc_len h = compute_enc_len h
     \<and> (has_source h \<or> has_target h \<or> copy_window_len h = 0 \<and> copy_window_offset h = 0)
     \<and> (has_checksum h \<longleftrightarrow> wh_adler32 h \<noteq> None)"

definition window_header_bytes :: "WindowHeader \<Rightarrow> byte list" where
  "window_header_bytes h = [win_ind h]
     @ (if has_source h \<or> has_target h
        then vint (unat (copy_window_len h)) @ vint (unat (copy_window_offset h)) else [])
     @ vint (unat (enc_len h)) @ vint (unat (target_window_len h)) @ [del_ind h]
     @ vint (unat (data_len h)) @ vint (unat (inst_len h)) @ vint (unat (addr_len h))
     @ (if has_checksum h then (case wh_adler32 h of Some c \<Rightarrow> to_be_bytes c | None \<Rightarrow> []) else [])"

lemma WindowHeader_encode_eq: "WindowHeader_encode h w = Ok (w @ window_header_bytes h)"
  by (auto simp: WindowHeader_encode_def window_header_bytes_def write_all_def Let_def split: option.splits)

lemma and_source_or_target:
  "win_ind h AND (VCD_SOURCE OR VCD_TARGET) \<noteq> 0 \<longleftrightarrow> has_source h \<or> has_target h"
  by (simp add: has_source_def has_target_def bit.conj_disj_distrib or_eq_0_iff)

lemma WindowHeader_decode_bytes:
  assumes "window_header_ok h"
  shows "WindowHeader_decode (window_header_bytes h @ rest) = Ok (Some h, rest)"
proof (cases h)
  case (fields wi cl co el tw di dl il al ad)
  have ok: "wi AND VCD_INVWIN = 0" "\<not> (wi AND VCD_SOURCE \<noteq> 0 \<and> wi AND VCD_TARGET \<noteq> 0)" "\<not> HARD_MAX_WINSIZE < tw"
      "di AND VCD_INVDEL = 0" "compute_enc_len h = el"
      "has_source h \<or> has_target h \<or> cl = 0 \<and> co = 0" "has_checksum h \<longleftrightarrow> ad \<noteq> None"
    using assms by (auto simp: window_header_ok_def fields has_source_def has_target_def)
  have copy: "read_copy_window wi ((if has_source h \<or> has_target h
        then vint (unat cl) @ vint (unat co) else []) @ r) = Ok ((cl, co), r)" for r
    using ok(2,6) and_source_or_target [of h]
    by (auto simp: read_copy_window_def fields Let_def has_source_def has_target_def)
  have cksum: "read_cksum wi ((if has_checksum h
        then (case ad of Some c \<Rightarrow> to_be_bytes c | None \<Rightarrow> []) else []) @ r) = Ok (ad, r)" for r
    using ok(7) by (auto simp: read_cksum_def fields has_checksum_def)
  have sel: "enc_len h = el" by (simp add: fields)
  have bytes: "window_header_bytes h @ rest = wi #
       (if has_source h \<or> has_target h then vint (unat cl) @ vint (unat co) else [])
     @ vint (unat el) @ vint (unat tw) @ di # vint (unat dl) @ vint (unat il) @ vint (unat al)
     @ (if has_checksum h then (case ad of Some c \<Rightarrow> to_be_bytes c | None \<Rightarrow> []) else []) @ rest"
    by (simp add: window_header_bytes_def fields)
  show ?thesis
    unfolding bytes WindowHeader_decode_def using ok(1,3,4,5) sel
    by (simp add: Let_def copy cksum read_target_len_def read_del_ind_def)
      (simp add: check_enc_len_def Let_def fields [symmetric])
qed

lemma read_copy_window_Ok:
  "read_copy_window wi r = Ok ((cl, co), r') \<Longrightarrow>
     \<not> (wi AND VCD_SOURCE \<noteq> 0 \<and> wi AND VCD_TARGET \<noteq> 0)
     \<and> (wi AND VCD_SOURCE \<noteq> 0 \<or> wi AND VCD_TARGET \<noteq> 0 \<or> cl = 0 \<and> co = 0) \<and> length r' \<le> length r"
  by (auto simp: read_copy_window_def Let_def bindR_eq_Ok bit.conj_disj_distrib or_eq_0_iff
      split: if_splits dest!: stream_read_u64_shorter)

lemma read_target_len_Ok:
  "read_target_len r = Ok (tw, r') \<Longrightarrow> tw \<le> HARD_MAX_WINSIZE \<and> length r' < length r"
  by (auto simp: read_target_len_def bindR_eq_Ok not_less dest!: stream_read_u64_shorter)

lemma read_del_ind_Ok: "read_del_ind r = Ok (di, r') \<Longrightarrow> di AND VCD_INVDEL = 0 \<and> length r' < length r"
  by (auto simp: read_del_ind_def Let_def bindR_eq_Ok dest!: read_exact_length)

lemma read_cksum_Ok:
  "read_cksum wi r = Ok (ad, r') \<Longrightarrow> (wi AND VCD_ADLER32 \<noteq> 0 \<longleftrightarrow> ad \<noteq> None) \<and> length r' \<le> length r"
  by (auto simp: read_cksum_def bindR_eq_Ok split: if_splits dest!: read_exact_length)

lemma check_enc_len_Ok:
  "check_enc_len hdr r = Ok (x, r') \<longleftrightarrow> enc_len hdr = compute_enc_len hdr \<and> x = Some hdr \<and> r' = r"
  by (auto simp: check_enc_len_def Let_def)

lemma header_steps_not_Panic [simp]: "read_copy_window wi r \<noteq> Panic" "read_target_len r \<noteq> Panic"
    "read_del_ind r \<noteq> Panic" "read_cksum wi r \<noteq> Panic" "check_enc_len hdr r \<noteq> Panic"
  by (auto simp: read_copy_window_def read_target_len_def read_del_ind_def read_cksum_def
      check_enc_len_def Let_def bindR_eq_Panic)

lemmas header_step_Oks = read_copy_window_Ok read_target_len_Ok read_del_ind_Ok read_cksum_Ok
  stream_read_u64_shorter

lemma WindowHeader_decode_Ok:
  assumes "WindowHeader_decode r = Ok (Some h, r')"
  shows "window_header_ok h \<and> length r' < length r"
proof (cases r)
  case (Cons wi r1)
  from assms obtain cl co r2 el r3 tw r4 di r5 dl r6 il r7 al r8 ad r9 where
    st: "read_copy_window wi r1 = Ok ((cl, co), r2)" "stream_read_u64 r2 = Ok (el, r3)"
      "read_target_len r3 = Ok (tw, r4)" "read_del_ind r4 = Ok (di, r5)"
      "stream_read_u64 r5 = Ok (dl, r6)" "stream_read_u64 r6 = Ok (il, r7)"
      "stream_read_u64 r7 = Ok (al, r8)" "read_cksum wi r8 = Ok (ad, r9)"
    and wi: "wi AND VCD_INVWIN = 0"
    and fin: "check_enc_len \<lparr> win_ind = wi, copy_window_len = cl, copy_window_offset = co, enc_len = el,
                    target_window_len = tw, del_ind = di, data_len = dl, inst_len = il,
                    addr_len = al, wh_adler32 = ad \<rparr> r9 = Ok (Some h, r')"
    unfolding WindowHeader_decode_def by (simp add: Cons Let_def bindR_eq_Ok split_paired_Ex) blast
  note facts = header_step_Oks(1) [OF st(1)] header_step_Oks(2) [OF st(3)] header_step_Oks(3) [OF st(4)]
    header_step_Oks(4) [OF st(8)] st(2,5-7) [THEN stream_read_u64_shorter]
  from fin have h: "h = \<lparr> win_ind = wi, copy_window_len = cl, copy_window_offset = co, enc_len = el,
      target_window_len = tw, del_ind = di, data_len = dl, inst_len = il, addr_len = al, wh_adler32 = ad \<rparr>"
    and enc: "enc_len h = compute_enc_len h" and "r' = r9" by (auto simp: check_enc_len_Ok)
  have "window_header_ok h"
    unfolding window_header_ok_def has_source_def has_target_def has_checksum_def
    using wi facts enc by (simp add: h)
  moreover have "length r' < length r" using facts \<open>r' = r9\<close> Cons by simp
  ultimately show ?thesis ..
qed (use assms in \<open>simp add: WindowHeader_decode_def\<close>)

lemma WindowHeader_decode_not_Panic: "WindowHeader_decode r \<noteq> Panic"
  unfolding WindowHeader_decode_def
  by (cases r) (auto simp: Let_def bindR_eq_Panic)

lemma WindowHeader_decode_None: "WindowHeader_decode r = Ok (None, r') \<longleftrightarrow> r = [] \<and> r' = []"
  unfolding WindowHeader_decode_def
  by (cases r) (auto simp: Let_def bindR_eq_Ok check_enc_len_Ok)

section \<open>Properties\<close>

text \<open>
  C22: The file header round-trips. A header whose indicator has only supported bits is written
  without error, and decoding what was written, whatever follows it, returns the header (with
  the fields its flags declare, an absent secondary id or application header written as 0 or as
  empty) and leaves exactly what followed.
\<close>

theorem file_header_roundtrip:
  assumes "file_header_ok h"
  shows "\<exists>bs. FileHeader_encode h w = (Ok (w @ bs) :: (_, io_error) res)
           \<and> FileHeader_decode (bs @ rest) = Ok (file_header_canon h, rest)"
  using FileHeader_encode_eq [OF assms] FileHeader_decode_bytes [OF assms] by blast

theorem file_header_roundtrip_witness:
  "\<exists>bs. FileHeader_encode \<lparr> hdr_ind = 5, secondary_id = Some 2, app_header = Some [7, 8] \<rparr> []
       = (Ok ([] @ bs) :: (_, io_error) res)
     \<and> FileHeader_decode (bs @ [9]) =
         Ok (\<lparr> hdr_ind = 5, secondary_id = Some 2, app_header = Some [7, 8] \<rparr>, [9])"
proof -
  have "file_header_ok \<lparr> hdr_ind = 5, secondary_id = Some 2, app_header = Some [7, 8] \<rparr>"
    "file_header_canon \<lparr> hdr_ind = 5, secondary_id = Some 2, app_header = Some [7, 8] \<rparr>
      = \<lparr> hdr_ind = 5, secondary_id = Some 2, app_header = Some [7, 8] \<rparr>" by code_simp+
  with file_header_roundtrip [of "\<lparr> hdr_ind = 5, secondary_id = Some 2, app_header = Some [7, 8] \<rparr>" "[]" "[9]"]
  show ?thesis by simp
qed

text \<open>
  C21: The window header round-trips. Every well-formed window header is written without error and
  decoded back field for field, the redundant \<open>enc_len\<close> check included, leaving what followed.
\<close>

theorem window_header_roundtrip:
  assumes "window_header_ok h"
  shows "\<exists>bs. WindowHeader_encode h w = (Ok (w @ bs) :: (_, io_error) res)
           \<and> WindowHeader_decode (bs @ rest) = Ok (Some h, rest)"
  using WindowHeader_encode_eq WindowHeader_decode_bytes [OF assms] by blast

theorem window_header_roundtrip_witness:
  "\<exists>bs. WindowHeader_encode \<lparr> win_ind = 5, copy_window_len = 300, copy_window_offset = 70000,
        enc_len = 18, target_window_len = 200, del_ind = 0, data_len = 3, inst_len = 4,
        addr_len = 1, wh_adler32 = Some 0xAABBCCDD \<rparr> [] = (Ok ([] @ bs) :: (_, io_error) res)
     \<and> WindowHeader_decode (bs @ [1]) = Ok (Some \<lparr> win_ind = 5, copy_window_len = 300,
        copy_window_offset = 70000, enc_len = 18, target_window_len = 200, del_ind = 0,
        data_len = 3, inst_len = 4, addr_len = 1, wh_adler32 = Some 0xAABBCCDD \<rparr>, [1])"
  by (rule window_header_roundtrip) code_simp

text \<open>
  C23: Whatever bytes it is given, the window header decoder does not panic; end of input before a
  window is the only case it reports as \<open>None\<close>; and a header it accepts is well formed: known
  flag bits only, not both source and target, a target window of at most 16 MiB, and a consistent
  \<open>enc_len\<close>. Each accepted header consumes at least one byte.
\<close>

theorem window_header_decode_sound:
  "WindowHeader_decode r \<noteq> Panic
   \<and> (\<forall>r'. WindowHeader_decode r = Ok (None, r') \<longleftrightarrow> r = [] \<and> r' = [])
   \<and> (\<forall>h r'. WindowHeader_decode r = Ok (Some h, r') \<longrightarrow> window_header_ok h \<and> length r' < length r)"
  using WindowHeader_decode_not_Panic WindowHeader_decode_None WindowHeader_decode_Ok by blast

theorem window_header_decode_sound_witness:
  "window_header_ok \<lparr> win_ind = 0, copy_window_len = 0, copy_window_offset = 0, enc_len = 7,
     target_window_len = 5, del_ind = 0, data_len = 1, inst_len = 1, addr_len = 0, wh_adler32 = None \<rparr>"
proof -
  have "WindowHeader_decode [0, 7, 5, 0, 1, 1, 0] = Ok (Some \<lparr> win_ind = 0, copy_window_len = 0,
     copy_window_offset = 0, enc_len = 7, target_window_len = 5, del_ind = 0, data_len = 1,
     inst_len = 1, addr_len = 0, wh_adler32 = None \<rparr>, [])" by code_simp
  then show ?thesis using window_header_decode_sound by blast
qed

text \<open>
  An application header whose declared length exceeds \<open>isize::MAX\<close> makes the file header
  decoder panic instead of returning an error: the buffer is allocated before any byte of it is
  read.
\<close>

theorem file_header_decode_panics:
  "FileHeader_decode (VCDIFF_MAGIC @ [VCD_APPHEADER] @ vint (2 ^ 63)) = Panic"
proof -
  have "stream_read_u64 (vint (2 ^ 63) @ []) = Ok (of_nat (2 ^ 63), [])" by (rule stream_read_u64_vint) simp
  then show ?thesis
    by (simp add: FileHeader_decode_def VCDIFF_MAGIC_def VCD_APPHEADER_def VCD_INVHDR_def VCD_SECONDARY_def
        VCD_CODETABLE_def read_exact_def stream_read_usize_def vec_zeroed_def)
qed

end
