(* ===== verification/Vcd_Encoder.thy ===== *)
theory Vcd_Encoder
  imports Address_Cache Code_Table Vcd_Header
begin

text \<open>
  The VCDIFF window and stream encoders, \<open>src/src/vcdiff/encoder.rs\<close>. A window encoder queues
  one instruction so that it can be packed with the next one into a double opcode. The
  checksum function is a parameter: the default build takes it from the \<open>simd-adler32\<close> crate;
  \<open>adler32_simple\<close> is the fallback that the source itself defines.
\<close>

section \<open>Definitions\<close>

record SourceWindow =
  sw_len :: u64
  sw_offset :: u64

record PendingInst =
  pinfo :: InstructionInfo
  pcode1 :: byte

record WindowEncoder =
  data_section :: "byte list"
  inst_section :: "byte list"
  addr_section :: "byte list"
  acache :: AddressCache
  pending :: "PendingInst option"
  target_len :: u64
  source_window :: "SourceWindow option"
  emit_checksum :: bool

definition WindowEncoder_new :: "SourceWindow option \<Rightarrow> bool \<Rightarrow> WindowEncoder" where
  "WindowEncoder_new src chk =
     \<lparr> data_section = [], inst_section = [], addr_section = [], acache = AddressCache_new,
       pending = None, target_len = 0, source_window = src, emit_checksum = chk \<rparr>"

text \<open>The capacities only size the first allocation.\<close>

definition WindowEncoder_with_capacity ::
    "SourceWindow option \<Rightarrow> bool \<Rightarrow> nat \<Rightarrow> nat \<Rightarrow> nat \<Rightarrow> WindowEncoder" where
  "WindowEncoder_with_capacity src chk data_cap inst_cap addr_cap =
     \<lparr> data_section = [], inst_section = [], addr_section = [], acache = AddressCache_new,
       pending = None, target_len = 0, source_window = src, emit_checksum = chk \<rparr>"

definition encoder_here :: "WindowEncoder \<Rightarrow> u64" where
  "encoder_here e = (case source_window e of Some s \<Rightarrow> sw_len s | None \<Rightarrow> 0) + target_len e"

definition emit_opcode_single :: "WindowEncoder \<Rightarrow> byte \<Rightarrow> InstructionInfo \<Rightarrow> (WindowEncoder, 'e) res" where
  "emit_opcode_single e code inst =
     (let e = e\<lparr> inst_section := inst_section e @ [code] \<rparr> in
      bindR (index_at default_code_table (unat code)) (\<lambda>entry.
      if size1 entry = 0
      then bindR (write_u32 (inst_section e) (isize inst)) (\<lambda>w. Ok (e\<lparr> inst_section := w \<rparr>))
      else Ok e))"

definition emit_opcode_double :: "WindowEncoder \<Rightarrow> byte \<Rightarrow> WindowEncoder" where
  "emit_opcode_double e code = e\<lparr> inst_section := inst_section e @ [code] \<rparr>"

definition flush_pending :: "WindowEncoder \<Rightarrow> (WindowEncoder, 'e) res" where
  "flush_pending e = (case pending e of
     Some p \<Rightarrow> emit_opcode_single (e\<lparr> pending := None \<rparr>) (pcode1 p) (pinfo p)
   | None \<Rightarrow> Ok e)"

definition emit_instruction :: "WindowEncoder \<Rightarrow> InstructionInfo \<Rightarrow> (WindowEncoder, 'e) res" where
  "emit_instruction e inst =
     (let chosen = choose_instruction (map_option pinfo (pending e)) inst in
      case code2 chosen of
        Some c2 \<Rightarrow>
          (case pending e of
             Some _ \<Rightarrow> Ok (emit_opcode_double (e\<lparr> pending := None \<rparr>) c2)
           | None \<Rightarrow> Panic)
      | None \<Rightarrow>
          bindR (flush_pending e) (\<lambda>e.
          Ok (e\<lparr> pending := Some \<lparr> pinfo = inst, pcode1 = code1 chosen \<rparr> \<rparr>)))"

definition encoder_add :: "WindowEncoder \<Rightarrow> byte list \<Rightarrow> (WindowEncoder, 'e) res" where
  "encoder_add e data =
     (if data = [] then Ok e
      else
      let e = e\<lparr> data_section := data_section e @ data \<rparr> in
      bindR (emit_instruction e \<lparr> itype = XD3_ADD, isize = of_nat (length data) \<rparr>) (\<lambda>e.
      Ok (e\<lparr> target_len := target_len e + of_nat (length data) \<rparr>)))"

definition encoder_copy :: "WindowEncoder \<Rightarrow> u32 \<Rightarrow> u64 \<Rightarrow> byte \<Rightarrow> (WindowEncoder, 'e) res" where
  "encoder_copy e len addr mode =
     (if len = 0 then Ok e
      else
      let here = encoder_here e in
      bindR (AddressCache_encode (acache e) addr here) (\<lambda>(c, enc_mode, encoded_addr).
      let e = e\<lparr> acache := c, addr_section := EncodedAddr_write_to encoded_addr (addr_section e) \<rparr> in
      bindR (emit_instruction e \<lparr> itype = XD3_CPY + enc_mode, isize = len \<rparr>) (\<lambda>e.
      Ok (e\<lparr> target_len := target_len e + ucast len \<rparr>))))"

definition copy_with_auto_mode :: "WindowEncoder \<Rightarrow> u32 \<Rightarrow> u64 \<Rightarrow> (WindowEncoder, 'e) res" where
  "copy_with_auto_mode e len addr = encoder_copy e len addr 0"

definition encoder_run :: "WindowEncoder \<Rightarrow> u32 \<Rightarrow> byte \<Rightarrow> (WindowEncoder, 'e) res" where
  "encoder_run e len b =
     (if len = 0 then Ok e
      else
      let e = e\<lparr> data_section := data_section e @ [b] \<rparr> in
      bindR (emit_instruction e \<lparr> itype = XD3_RUN, isize = len \<rparr>) (\<lambda>e.
      Ok (e\<lparr> target_len := target_len e + ucast len \<rparr>)))"

subsection \<open>Finished windows\<close>

record WindowSections =
  ws_source_window :: "SourceWindow option"
  ws_target_len :: u64
  ws_checksum :: "u32 option"
  ws_data :: "byte list"
  ws_inst :: "byte list"
  ws_addr :: "byte list"

definition finish_sections ::
    "(byte list \<Rightarrow> u32) \<Rightarrow> WindowEncoder \<Rightarrow> byte list option \<Rightarrow> (WindowSections, 'e) res" where
  "finish_sections adler e target_data =
     bindR (flush_pending e) (\<lambda>e.
     let checksum = (if emit_checksum e then map_option adler target_data else None) in
     Ok \<lparr> ws_source_window = source_window e, ws_target_len = target_len e,
          ws_checksum = checksum, ws_data = data_section e, ws_inst = inst_section e,
          ws_addr = addr_section e \<rparr>)"

definition assemble_header :: "WindowSections \<Rightarrow> byte \<Rightarrow> WindowHeader" where
  "assemble_header s del =
     (let wi = 0;
          wi = (if ws_source_window s \<noteq> None then wi OR VCD_SOURCE else wi);
          wi = (if ws_checksum s \<noteq> None then wi OR VCD_ADLER32 else wi);
          wh = \<lparr> win_ind = wi,
                 copy_window_len = (case ws_source_window s of Some w \<Rightarrow> sw_len w | None \<Rightarrow> 0),
                 copy_window_offset = (case ws_source_window s of Some w \<Rightarrow> sw_offset w | None \<Rightarrow> 0),
                 enc_len = 0, target_window_len = ws_target_len s, del_ind = del,
                 data_len = of_nat (length (ws_data s)), inst_len = of_nat (length (ws_inst s)),
                 addr_len = of_nat (length (ws_addr s)), wh_adler32 = ws_checksum s \<rparr>
      in wh\<lparr> enc_len := compute_enc_len wh \<rparr>)"

definition assemble :: "WindowSections \<Rightarrow> byte \<Rightarrow> (byte list, 'e) res" where
  "assemble s del =
     bindR (WindowHeader_encode (assemble_header s del) []) (\<lambda>out.
     Ok (out @ ws_data s @ ws_inst s @ ws_addr s))"

definition encoder_finish ::
    "(byte list \<Rightarrow> u32) \<Rightarrow> WindowEncoder \<Rightarrow> byte list option \<Rightarrow> (byte list, 'e) res" where
  "encoder_finish adler e target_data =
     bindR (finish_sections adler e target_data) (\<lambda>s. assemble s 0)"

subsection \<open>Stream encoder\<close>

record StreamEncoder =
  writer :: "byte list"
  header_written :: bool
  file_header :: FileHeader
  se_emit_checksum :: bool

definition FileHeader_default :: FileHeader where
  "FileHeader_default = \<lparr> hdr_ind = 0, secondary_id = None, app_header = None \<rparr>"

definition StreamEncoder_new :: "byte list \<Rightarrow> bool \<Rightarrow> StreamEncoder" where
  "StreamEncoder_new w chk =
     \<lparr> writer = w, header_written = False, file_header = FileHeader_default, se_emit_checksum = chk \<rparr>"

definition set_app_header :: "StreamEncoder \<Rightarrow> byte list \<Rightarrow> StreamEncoder" where
  "set_app_header s data = s\<lparr> file_header := (file_header s)
     \<lparr> hdr_ind := hdr_ind (file_header s) OR VCD_APPHEADER, app_header := Some data \<rparr> \<rparr>"

definition set_secondary_id :: "StreamEncoder \<Rightarrow> byte \<Rightarrow> StreamEncoder" where
  "set_secondary_id s i = s\<lparr> file_header := (file_header s)
     \<lparr> hdr_ind := hdr_ind (file_header s) OR VCD_SECONDARY, secondary_id := Some i \<rparr> \<rparr>"

definition ensure_header :: "StreamEncoder \<Rightarrow> (StreamEncoder, 'e) res" where
  "ensure_header s =
     (if \<not> header_written s
      then bindR (FileHeader_encode (file_header s) (writer s)) (\<lambda>w.
        Ok (s\<lparr> writer := w, header_written := True \<rparr>))
      else Ok s)"

definition write_window ::
    "(byte list \<Rightarrow> u32) \<Rightarrow> StreamEncoder \<Rightarrow> WindowEncoder \<Rightarrow> byte list option \<Rightarrow> (StreamEncoder, 'e) res" where
  "write_window adler s window target_data =
     bindR (ensure_header s) (\<lambda>s.
     bindR (encoder_finish adler window target_data) (\<lambda>encoded.
     Ok (s\<lparr> writer := write_all (writer s) encoded \<rparr>)))"

definition write_raw_window :: "StreamEncoder \<Rightarrow> byte list \<Rightarrow> (StreamEncoder, 'e) res" where
  "write_raw_window s encoded =
     bindR (ensure_header s) (\<lambda>s. Ok (s\<lparr> writer := write_all (writer s) encoded \<rparr>))"

definition stream_finish :: "StreamEncoder \<Rightarrow> (byte list, 'e) res" where
  "stream_finish s =
     bindR (if \<not> header_written s
            then FileHeader_encode (file_header s) (writer s) else Ok (writer s)) Ok"

definition adler32_simple :: "byte list \<Rightarrow> u32" where
  "adler32_simple data =
     (case foldl (\<lambda>(a, b) byte.
          let a = (a + ucast byte) mod 65521; b = (b + a) mod 65521 in (a, b)) (1 :: u32, 0 :: u32) data of
        (a, b) \<Rightarrow> push_bit 16 b OR a)"

section \<open>The instruction section as a list of instructions\<close>

text \<open>
  \<open>chunk bs hs\<close>: the bytes \<open>bs\<close> are one opcode, followed by a size when the table leaves it open,
  and stand for the one or two instructions \<open>hs\<close>, each a type and a size.
\<close>

inductive chunk :: "byte list \<Rightarrow> (byte \<times> u32) list \<Rightarrow> bool" where
  chunk_sized: "default_code_table ! unat c = single t s \<Longrightarrow> t \<noteq> XD3_NOOP \<Longrightarrow> s \<noteq> 0 \<Longrightarrow>
     chunk [c] [(t, ucast s)]"
| chunk_open: "default_code_table ! unat c = single t 0 \<Longrightarrow> t \<noteq> XD3_NOOP \<Longrightarrow>
     chunk (c # vint (unat n)) [(t, n)]"
| chunk_double: "default_code_table ! unat c = double t1 s1 t2 s2 \<Longrightarrow> t1 \<noteq> XD3_NOOP \<Longrightarrow> t2 \<noteq> XD3_NOOP \<Longrightarrow>
     s1 \<noteq> 0 \<Longrightarrow> s2 \<noteq> 0 \<Longrightarrow> chunk [c] [(t1, ucast s1), (t2, ucast s2)]"

definition inst_stream :: "byte list \<Rightarrow> (byte \<times> u32) list \<Rightarrow> bool" where
  "inst_stream bs hs \<longleftrightarrow> (\<exists>bss hss. bs = concat bss \<and> hs = concat hss \<and> list_all2 chunk bss hss)"

lemma inst_stream_Nil [simp]: "inst_stream [] []"
  unfolding inst_stream_def by (intro exI [of _ "[]"]) simp

lemma inst_stream_snoc: "inst_stream bs hs \<Longrightarrow> chunk b h \<Longrightarrow> inst_stream (bs @ b) (hs @ h)"
  unfolding inst_stream_def
  by clarsimp (rule exI [of _ "_ @ [b]"], auto intro!: exI [of _ "_ @ [h]"] list_all2_appendI)

text \<open>
  The instructions a window encoder holds: those already in its instruction section and the
  queued one, whose opcode was chosen for it.
\<close>

definition half :: "InstructionInfo \<Rightarrow> byte \<times> u32" where
  "half i = (itype i, isize i)"

definition pending_ok :: "PendingInst \<Rightarrow> bool" where
  "pending_ok p \<longleftrightarrow> valid_info (pinfo p) \<and> isize (pinfo p) \<noteq> 0
     \<and> default_code_table ! unat (pcode1 p) = single (itype (pinfo p)) (fixed_size (itype (pinfo p)) (isize (pinfo p)))"

definition holds_insts :: "WindowEncoder \<Rightarrow> (byte \<times> u32) list \<Rightarrow> bool" where
  "holds_insts e hs \<longleftrightarrow> (case pending e of
     None \<Rightarrow> inst_stream (inst_section e) hs
   | Some p \<Rightarrow> pending_ok p \<and> (\<exists>hs'. hs = hs' @ [half (pinfo p)] \<and> inst_stream (inst_section e) hs'))"

lemma valid_type: "valid_info i \<Longrightarrow> itype i \<noteq> XD3_NOOP"
  by (auto simp: valid_info_def)

lemma ucast_ucast_small:
  "unat (n :: u32) < 256 \<Longrightarrow> ucast (ucast n :: byte) = n"
  by (rule unsigned_word_eqI [where ?'a = nat]) (simp add: unsigned_ucast_eq unsigned_take_bit_eq take_bit_nat_eq_self)

lemma fixed_size_back: "fixed_size t n \<noteq> 0 \<Longrightarrow> ucast (fixed_size t n) = n"
  by (auto simp: fixed_size_def word_le_nat_alt intro!: ucast_ucast_small split: if_splits)

text \<open>
  The encoder's internal steps cannot fail: a code indexes the 256-entry table, and a double
  opcode is only chosen when an instruction is queued. The bytes they append:
\<close>

definition single_bytes :: "byte \<Rightarrow> InstructionInfo \<Rightarrow> byte list" where
  "single_bytes c i = c # (if size1 (default_code_table ! unat c) = 0 then vint (unat (isize i)) else [])"

definition flushed :: "WindowEncoder \<Rightarrow> WindowEncoder" where
  "flushed e = (case pending e of
     None \<Rightarrow> e
   | Some p \<Rightarrow> e\<lparr> pending := None, inst_section := inst_section e @ single_bytes (pcode1 p) (pinfo p) \<rparr>)"

definition emitted :: "WindowEncoder \<Rightarrow> InstructionInfo \<Rightarrow> WindowEncoder" where
  "emitted e i = (let ch = choose_instruction (map_option pinfo (pending e)) i in
     case code2 ch of
       Some c \<Rightarrow> e\<lparr> pending := None, inst_section := inst_section e @ [c] \<rparr>
     | None \<Rightarrow> (flushed e)\<lparr> pending := Some \<lparr> pinfo = i, pcode1 = code1 ch \<rparr> \<rparr>)"

lemma emit_opcode_single_eq:
  "emit_opcode_single e c i = Ok (e\<lparr> inst_section := inst_section e @ single_bytes c i \<rparr>)"
  by (simp add: emit_opcode_single_def single_bytes_def Let_def)

lemma flush_pending_eq: "flush_pending e = Ok (flushed e)"
  by (simp add: flush_pending_def flushed_def emit_opcode_single_eq split: option.split)

lemma code2_None [simp]: "code2 (choose_instruction None i) = None"
  by (simp add: choose_instruction_def Let_def)

lemma emit_instruction_eq: "emit_instruction e i = Ok (emitted e i)"
  by (auto simp: emit_instruction_def emitted_def flush_pending_eq emit_opcode_double_def Let_def
      split: option.split)

lemma flushed_fields [simp]:
  "data_section (flushed e) = data_section e" "addr_section (flushed e) = addr_section e"
  "acache (flushed e) = acache e" "target_len (flushed e) = target_len e"
  "source_window (flushed e) = source_window e" "emit_checksum (flushed e) = emit_checksum e"
  "pending (flushed e) = None"
  by (simp_all add: flushed_def split: option.split)

lemma emitted_fields [simp]:
  "data_section (emitted e i) = data_section e" "addr_section (emitted e i) = addr_section e"
  "acache (emitted e i) = acache e" "target_len (emitted e i) = target_len e"
  "source_window (emitted e i) = source_window e" "emit_checksum (emitted e i) = emit_checksum e"
  by (simp_all add: emitted_def Let_def split: option.split)

lemma chunk_single_bytes:
  assumes "pending_ok p"
  shows "chunk (single_bytes (pcode1 p) (pinfo p)) [half (pinfo p)]"
proof -
  let ?t = "itype (pinfo p)" and ?n = "isize (pinfo p)" and ?c = "pcode1 p"
  have tab: "default_code_table ! unat ?c = single ?t (fixed_size ?t ?n)" and nz: "?t \<noteq> XD3_NOOP"
    using assms valid_type by (auto simp: pending_ok_def)
  have s1: "size1 (default_code_table ! unat ?c) = fixed_size ?t ?n"
    unfolding tab by (simp add: single_def double_def)
  show ?thesis
  proof (cases "fixed_size ?t ?n = 0")
    case True
    with tab nz have "chunk (?c # vint (unat ?n)) [half (pinfo p)]"
      unfolding half_def by (intro chunk_open) auto
    with True s1 show ?thesis by (simp add: single_bytes_def)
  next
    case False
    have "chunk [?c] [(?t, ucast (fixed_size ?t ?n))]" by (rule chunk_sized [OF tab nz False])
    with False s1 show ?thesis by (simp add: single_bytes_def half_def fixed_size_back)
  qed
qed

lemma holds_insts_flushed: "holds_insts e hs \<Longrightarrow> inst_stream (inst_section (flushed e)) hs"
  by (auto simp: holds_insts_def flushed_def intro!: inst_stream_snoc chunk_single_bytes split: option.splits)

text \<open>
  Queueing a valid instruction appends it to the instructions held, packed or not.
\<close>

lemma holds_insts_emitted:
  assumes h: "holds_insts e hs" and v: "valid_info i" "isize i \<noteq> 0"
  shows "holds_insts (emitted e i) (hs @ [half i])"
proof (cases "code2 (choose_instruction (map_option pinfo (pending e)) i)")
  case None
  then show ?thesis using holds_insts_flushed [OF h] v choose_code1 [OF v(1)]
    by (simp add: emitted_def Let_def holds_insts_def pending_ok_def del: default_code_table_nth)
next
  case (Some c)
  then obtain p where p: "pending e = Some p" by (cases "pending e") auto
  with h obtain hs' where hs': "pending_ok p" "hs = hs' @ [half (pinfo p)]" "inst_stream (inst_section e) hs'"
    by (auto simp: holds_insts_def)
  have tab: "default_code_table ! unat c = double (itype (pinfo p)) (ucast (isize (pinfo p))) (itype i) (ucast (isize i))"
    and sz: "isize (pinfo p) \<le> 4" "isize i \<le> 6"
    using choose_code2 [of "pinfo p" i c] hs'(1) v Some p by (auto simp: pending_ok_def)
  have small: "ucast (ucast (isize (pinfo p)) :: byte) = isize (pinfo p)" "ucast (ucast (isize i) :: byte) = isize i"
    using sz by (auto intro!: ucast_ucast_small simp: word_le_nat_alt)
  have nz: "ucast (isize (pinfo p)) \<noteq> (0 :: byte)" "ucast (isize i) \<noteq> (0 :: byte)"
    using small hs'(1) v(2) by (auto simp: pending_ok_def)
  have "chunk [c] [(itype (pinfo p), ucast (ucast (isize (pinfo p)) :: byte)), (itype i, ucast (ucast (isize i) :: byte))]"
    using hs'(1) v valid_type nz by (intro chunk_double [OF tab]) (auto simp: pending_ok_def)
  then have "inst_stream (inst_section e @ [c]) (hs' @ [half (pinfo p), half i])"
    unfolding small by (intro inst_stream_snoc hs'(3)) (simp add: half_def)
  with Some p hs'(2) show ?thesis by (simp add: holds_insts_def emitted_def Let_def)
qed

end
