(* ===== verification/Secondary.thy ===== *)
theory Secondary
  imports Vcd_Header
begin

text \<open>
  Secondary compression of the window sections, \<open>src/src/compress/secondary.rs\<close>: the
  \<open>CompressBackend\<close> trait as a record of its methods, the backends, the section helpers, and the
  choice of a backend from a file header or from encoder options. The LZMA and zlib codecs are
  third-party crates and are parameters of the model (the record \<open>Codecs\<close>); the features
  \<open>lzma-secondary\<close> and \<open>zlib-secondary\<close> are on, as in the default build. The error type of
  \<open>src/src/vcdiff/decoder.rs\<close>, which the trait uses, is declared here too.
\<close>

section \<open>Definitions\<close>

datatype DecodeError =
    Io io_error
  | InvalidInput string
  | ChecksumMismatch u32 u32
  | Unsupported string

definition VCD_ZLIB_ID :: byte where "VCD_ZLIB_ID = 3"
definition MIN_COMPRESS_SIZE :: nat where "MIN_COMPRESS_SIZE = 32"

text \<open>The third-party codecs: \<open>None\<close> is a failed decompression.\<close>

record Codecs =
  lzma_compress :: "byte list \<Rightarrow> (byte list, io_error) res"
  lzma_decompress :: "byte list \<Rightarrow> byte list option"
  zlib_compress :: "u32 \<Rightarrow> byte list \<Rightarrow> (byte list, io_error) res"
  zlib_decompress :: "byte list \<Rightarrow> byte list option"

record CompressBackend =
  backend_id :: byte
  compress :: "byte list \<Rightarrow> (byte list, io_error) res"
  decompress :: "byte list \<Rightarrow> (byte list, DecodeError) res"
  should_compress :: "byte list \<Rightarrow> bool"

definition should_compress_default :: "byte list \<Rightarrow> bool" where
  "should_compress_default data \<longleftrightarrow> MIN_COMPRESS_SIZE \<le> length data"

definition LzmaBackend :: "Codecs \<Rightarrow> CompressBackend" where
  "LzmaBackend cs = \<lparr> backend_id = VCD_LZMA_ID, compress = lzma_compress cs,
     decompress = (\<lambda>data. case lzma_decompress cs data of
        Some output \<Rightarrow> Ok output
      | None \<Rightarrow> Err (InvalidInput ''LZMA decompression failed'')),
     should_compress = should_compress_default \<rparr>"

definition ZlibBackend_new :: "Codecs \<Rightarrow> u32 \<Rightarrow> CompressBackend" where
  "ZlibBackend_new cs level = \<lparr> backend_id = VCD_ZLIB_ID, compress = zlib_compress cs level,
     decompress = (\<lambda>data. case zlib_decompress cs data of
        Some output \<Rightarrow> Ok output
      | None \<Rightarrow> Err (InvalidInput ''Zlib decompression failed'')),
     should_compress = should_compress_default \<rparr>"

definition ZlibBackend_default :: "Codecs \<Rightarrow> CompressBackend" where
  "ZlibBackend_default cs = ZlibBackend_new cs 6"

definition NoCompression :: CompressBackend where
  "NoCompression = \<lparr> backend_id = 0, compress = Ok, decompress = Ok, should_compress = (\<lambda>_. False) \<rparr>"

definition compress_section :: "CompressBackend \<Rightarrow> byte list \<Rightarrow> (byte list, io_error) res" where
  "compress_section backend data =
     (if \<not> should_compress backend data then Ok data
      else bindR (compress backend data) (\<lambda>compressed.
        if length compressed < length data then Ok compressed else Ok data))"

definition decompress_section :: "CompressBackend \<Rightarrow> byte list \<Rightarrow> (byte list, DecodeError) res" where
  "decompress_section backend data = decompress backend data"

definition compress_sections ::
    "CompressBackend \<Rightarrow> byte list \<Rightarrow> byte list \<Rightarrow> byte list
     \<Rightarrow> (byte list \<times> byte list \<times> byte list \<times> byte, io_error) res" where
  "compress_sections backend data inst addr =
     (let del_ind = 0 in
     bindR (compress_section backend data) (\<lambda>comp_data.
     let del_ind = (if length comp_data < length data then del_ind OR VCD_DATACOMP else del_ind) in
     bindR (compress_section backend inst) (\<lambda>comp_inst.
     let del_ind = (if length comp_inst < length inst then del_ind OR VCD_INSTCOMP else del_ind) in
     bindR (compress_section backend addr) (\<lambda>comp_addr.
     let del_ind = (if length comp_addr < length addr then del_ind OR VCD_ADDRCOMP else del_ind);
         final_data = (if del_ind AND VCD_DATACOMP \<noteq> 0 then comp_data else data);
         final_inst = (if del_ind AND VCD_INSTCOMP \<noteq> 0 then comp_inst else inst);
         final_addr = (if del_ind AND VCD_ADDRCOMP \<noteq> 0 then comp_addr else addr)
     in Ok (final_data, final_inst, final_addr, del_ind)))))"

definition backend_for_id :: "Codecs \<Rightarrow> byte option \<Rightarrow> (CompressBackend, DecodeError) res" where
  "backend_for_id cs sid = (case sid of
     Some i \<Rightarrow>
       if i = VCD_LZMA_ID then Ok (LzmaBackend cs)
       else if i = VCD_ZLIB_ID then Ok (ZlibBackend_default cs)
       else Err (Unsupported ''unsupported secondary compressor ID'')
   | None \<Rightarrow> Err (InvalidInput
       ''del_ind indicates secondary compression but no compressor ID in file header''))"

definition decompress_sections ::
    "Codecs \<Rightarrow> byte list \<Rightarrow> byte list \<Rightarrow> byte list \<Rightarrow> byte \<Rightarrow> byte option
     \<Rightarrow> (byte list \<times> byte list \<times> byte list, DecodeError) res" where
  "decompress_sections cs data inst addr del sid =
     (if del = 0 then Ok (data, inst, addr)
      else
      bindR (backend_for_id cs sid) (\<lambda>backend.
      bindR (if del AND VCD_DATACOMP \<noteq> 0 then decompress_section backend data else Ok data) (\<lambda>dec_data.
      bindR (if del AND VCD_INSTCOMP \<noteq> 0 then decompress_section backend inst else Ok inst) (\<lambda>dec_inst.
      bindR (if del AND VCD_ADDRCOMP \<noteq> 0 then decompress_section backend addr else Ok addr) (\<lambda>dec_addr.
      Ok (dec_data, dec_inst, dec_addr))))))"

datatype SecondaryCompression =
    NoneC
  | Lzma
  | Zlib u32
  | Custom CompressBackend

definition ArcBackend :: "CompressBackend \<Rightarrow> CompressBackend" where
  "ArcBackend b = \<lparr> backend_id = backend_id b, compress = compress b, decompress = decompress b,
     should_compress = should_compress b \<rparr>"

definition SecondaryCompression_backend :: "Codecs \<Rightarrow> SecondaryCompression \<Rightarrow> CompressBackend option" where
  "SecondaryCompression_backend cs sc = (case sc of
     NoneC \<Rightarrow> None
   | Lzma \<Rightarrow> Some (LzmaBackend cs)
   | Zlib level \<Rightarrow> Some (ZlibBackend_new cs level)
   | Custom b \<Rightarrow> Some (ArcBackend b))"

definition is_enabled :: "SecondaryCompression \<Rightarrow> bool" where
  "is_enabled sc \<longleftrightarrow> \<not> (case sc of NoneC \<Rightarrow> True | _ \<Rightarrow> False)"

section \<open>Lossless backends\<close>

text \<open>
  The contract the trait documents: \<open>decompress\<close> undoes \<open>compress\<close>. \<open>codecs_lossless\<close> is that
  contract for the third-party codecs (a zlib stream is decoded alike at every level).
\<close>

definition codecs_lossless :: "Codecs \<Rightarrow> bool" where
  "codecs_lossless cs \<longleftrightarrow>
     (\<forall>d c. lzma_compress cs d = Ok c \<longrightarrow> lzma_decompress cs c = Some d) \<and>
     (\<forall>l d c. zlib_compress cs l d = Ok c \<longrightarrow> zlib_decompress cs c = Some d)"

locale lossless_backend =
  fixes B :: CompressBackend
  assumes decompress_compress: "compress B d = Ok c \<Longrightarrow> decompress B c = Ok d"
begin

lemma section_roundtrip:
  assumes "compress_section B d = Ok c"
  shows "if length c < length d then decompress_section B c = Ok d else c = d"
  using assms decompress_compress
  by (auto simp: compress_section_def decompress_section_def bindR_eq_Ok split: if_splits)

end

interpretation no_compression: lossless_backend NoCompression
  by unfold_locales (simp add: NoCompression_def)

lemma lossless_LzmaBackend: "codecs_lossless cs \<Longrightarrow> lossless_backend (LzmaBackend cs)"
  by unfold_locales (simp add: LzmaBackend_def codecs_lossless_def)

lemma lossless_ZlibBackend: "codecs_lossless cs \<Longrightarrow> lossless_backend (ZlibBackend_new cs level)"
  by unfold_locales (auto simp: ZlibBackend_new_def codecs_lossless_def)

lemma lossless_ArcBackend: "lossless_backend b \<Longrightarrow> lossless_backend (ArcBackend b)"
  by (simp add: lossless_backend_def ArcBackend_def)

lemma decompress_Zlib_level: "decompress (ZlibBackend_new cs l) = decompress (ZlibBackend_default cs)"
  by (simp add: ZlibBackend_default_def ZlibBackend_new_def)

text \<open>The flag bits.\<close>

definition comp_flags :: "bool \<Rightarrow> bool \<Rightarrow> bool \<Rightarrow> byte" where
  "comp_flags d i a = (if d then VCD_DATACOMP else 0) OR (if i then VCD_INSTCOMP else 0)
     OR (if a then VCD_ADDRCOMP else 0)"

lemmas comp_bits = VCD_DATACOMP_def VCD_INSTCOMP_def VCD_ADDRCOMP_def

lemma comp_flags_bits [simp]:
  "comp_flags d i a AND VCD_DATACOMP = 0 \<longleftrightarrow> \<not> d"
  "comp_flags d i a AND VCD_INSTCOMP = 0 \<longleftrightarrow> \<not> i"
  "comp_flags d i a AND VCD_ADDRCOMP = 0 \<longleftrightarrow> \<not> a"
  "comp_flags d i a = 0 \<longleftrightarrow> \<not> d \<and> \<not> i \<and> \<not> a"
  "comp_flags d i a AND VCD_INVDEL = 0"
  by (cases d; cases i; cases a; simp add: comp_flags_def comp_bits VCD_INVDEL_def)+

lemma compress_sections_Ok:
  assumes "compress_sections B d i a = Ok (d', i', a', del)"
  shows "compress_section B d = Ok d' \<and> compress_section B i = Ok i' \<and> compress_section B a = Ok a'
     \<and> del = comp_flags (length d' < length d) (length i' < length i) (length a' < length a)"
proof -
  have same: "c = x" if "compress_section B x = Ok c" "\<not> length c < length x" for c x
    using that by (auto simp: compress_section_def bindR_eq_Ok split: if_splits)
  from assms obtain cd ci ca where c: "compress_section B d = Ok cd" "compress_section B i = Ok ci"
      "compress_section B a = Ok ca"
    by (auto simp: compress_sections_def bindR_eq_Ok Let_def)
  have flags: "(if length ca < length a then (if length ci < length i then (if length cd < length d
      then 0 OR VCD_DATACOMP else 0) OR VCD_INSTCOMP else if length cd < length d
      then 0 OR VCD_DATACOMP else 0) OR VCD_ADDRCOMP else if length ci < length i then (if length cd < length d
      then 0 OR VCD_DATACOMP else 0) OR VCD_INSTCOMP else if length cd < length d
      then 0 OR VCD_DATACOMP else 0)
    = comp_flags (length cd < length d) (length ci < length i) (length ca < length a)"
    by (simp add: comp_flags_def or.assoc)
  show ?thesis
    using assms c same [OF c(1)] same [OF c(2)] same [OF c(3)]
    by (auto simp: compress_sections_def Let_def flags split: if_splits)
qed

text \<open>What the decode side gets back, whichever sections were worth compressing.\<close>

lemma sections_roundtrip:
  assumes B: "lossless_backend B" and c: "compress_sections B d i a = Ok (d', i', a', del)"
    and dec: "del = 0 \<or> (\<exists>B'. backend_for_id cs sid = Ok B' \<and> decompress B' = decompress B)"
  shows "decompress_sections cs d' i' a' del sid = Ok (d, i, a)"
proof -
  note * = compress_sections_Ok [OF c]
  have undo: "decompress_section B' c = Ok x" if "decompress B' = decompress B"
      "compress_section B x = Ok c" "length c < length x" for B' c x
    using lossless_backend.section_roundtrip [OF B that(2)] that(1,3) by (simp add: decompress_section_def)
  have same: "c = x" if "compress_section B x = Ok c" "\<not> length c < length x" for c x
    using lossless_backend.section_roundtrip [OF B that(1)] that(2) by simp
  from dec * show ?thesis
    by (auto simp: decompress_sections_def undo dest: same)
qed

lemma compress_section_le: "compress_section B x = Ok c \<Longrightarrow> length c \<le> length x"
  by (auto simp: compress_section_def bindR_eq_Ok split: if_splits)

lemma builtin_sections_roundtrip:
  assumes "codecs_lossless cs" "sc = Lzma \<or> (\<exists>level. sc = Zlib level)"
    and "SecondaryCompression_backend cs sc = Some B" "compress_sections B d i a = Ok (d', i', a', del)"
  shows "decompress_sections cs d' i' a' del (Some (backend_id B)) = Ok (d, i, a)"
proof -
  have B: "lossless_backend B"
    using assms(1-3) lossless_LzmaBackend lossless_ZlibBackend
    by (auto simp: SecondaryCompression_backend_def)
  have "\<exists>B'. backend_for_id cs (Some (backend_id B)) = Ok B' \<and> decompress B' = decompress B"
    using assms(2,3) decompress_Zlib_level
    by (auto simp: SecondaryCompression_backend_def backend_for_id_def LzmaBackend_def ZlibBackend_new_def
        VCD_LZMA_ID_def VCD_ZLIB_ID_def ZlibBackend_default_def)
  with sections_roundtrip [OF B assms(4)] show ?thesis by blast
qed

text \<open>A backend that does not report I/O errors, as when its codec writes to memory.\<close>

definition backend_total :: "CompressBackend \<Rightarrow> bool" where
  "backend_total B \<longleftrightarrow> (\<forall>d. \<exists>c. compress B d = Ok c)"

lemma compress_sections_total:
  assumes "backend_total B"
  shows "\<exists>d' i' a' del. compress_sections B d i a = Ok (d', i', a', del)"
proof -
  have "\<exists>c. compress_section B x = Ok c" for x
    using assms by (auto simp: backend_total_def compress_section_def dest!: spec [of _ x])
  then obtain f where "compress_section B x = Ok (f x)" for x by metis
  then show ?thesis by (simp add: compress_sections_def Let_def)
qed

section \<open>Properties\<close>

text \<open>
  C20: Secondary compression is lossless. For the built-in LZMA and zlib backends (whose codecs
  undo themselves), whatever \<open>compress_sections\<close> produces for the three sections, with the flags
  it returns and the compressor id the encoder writes in the file header, \<open>decompress_sections\<close>
  gives the three original sections back; no section grows, and the flags are valid indicator
  bits, set exactly for the sections that shrank.
\<close>

theorem secondary_roundtrip:
  assumes "codecs_lossless cs" and "sc = Lzma \<or> (\<exists>level. sc = Zlib level)"
    and "SecondaryCompression_backend cs sc = Some B"
    and "compress_sections B d i a = Ok (d', i', a', del)"
  shows "decompress_sections cs d' i' a' del (Some (backend_id B)) = Ok (d, i, a)
     \<and> length d' \<le> length d \<and> length i' \<le> length i \<and> length a' \<le> length a \<and> del AND VCD_INVDEL = 0
     \<and> (del AND VCD_DATACOMP \<noteq> 0 \<longleftrightarrow> length d' < length d)
     \<and> (del AND VCD_INSTCOMP \<noteq> 0 \<longleftrightarrow> length i' < length i)
     \<and> (del AND VCD_ADDRCOMP \<noteq> 0 \<longleftrightarrow> length a' < length a)"
  using builtin_sections_roundtrip [OF assms] compress_sections_Ok [OF assms(4)] by (simp add: compress_section_le [of B])

definition pair_codecs :: Codecs where
  "pair_codecs = \<lparr>
     lzma_compress = (\<lambda>d. Ok (if d = replicate 40 7 then [0] else 1 # d)),
     lzma_decompress = (\<lambda>c. if c = [0] then Some (replicate 40 7) else if c = [] then None else Some (drop 1 c)),
     zlib_compress = (\<lambda>l d. Ok (0 # d)),
     zlib_decompress = (\<lambda>c. if c = [] then None else Some (drop 1 c)) \<rparr>"

theorem secondary_roundtrip_witness:
  "decompress_sections pair_codecs [0] [1, 2] [] 1 (Some 2) = Ok (replicate 40 7, [1, 2], [])"
proof -
  have l: "codecs_lossless pair_codecs" by (auto simp: codecs_lossless_def pair_codecs_def)
  have b: "SecondaryCompression_backend pair_codecs Lzma = Some (LzmaBackend pair_codecs)"
    by (simp add: SecondaryCompression_backend_def)
  have c: "compress_sections (LzmaBackend pair_codecs) (replicate 40 7) [1, 2] [] = Ok ([0], [1, 2], [], 1)"
    by code_simp
  show ?thesis
    using secondary_roundtrip [OF l _ b c] by (simp add: LzmaBackend_def VCD_LZMA_ID_def)
qed

text \<open>
  A backend supplied by the caller under an id of its own cannot be decoded again: once one
  of its sections shrank, \<open>decompress_sections\<close> rejects the id the encoder wrote, because
  \<open>backend_for_id\<close> knows ids 2 and 3 only.
\<close>

theorem custom_backend_rejected:
  assumes "compress_sections (ArcBackend b) d i a = Ok (d', i', a', del)" and "del \<noteq> 0"
    and "backend_id b \<notin> {VCD_LZMA_ID, VCD_ZLIB_ID}"
  shows "decompress_sections cs d' i' a' del (Some (backend_id b))
       = Err (Unsupported ''unsupported secondary compressor ID'')"
  using assms by (simp add: decompress_sections_def backend_for_id_def)

theorem custom_backend_rejected_witness:
  "decompress_sections pair_codecs [0] [] [] 1 (Some 42)
     = Err (Unsupported ''unsupported secondary compressor ID'')"
proof -
  let ?b = "(LzmaBackend pair_codecs) \<lparr> backend_id := 42 \<rparr>"
  have "compress_sections (ArcBackend ?b) (replicate 40 7) [] [] = Ok ([0], [], [], 1)" by code_simp
  moreover have "backend_id ?b \<notin> {VCD_LZMA_ID, VCD_ZLIB_ID}" by (simp add: VCD_LZMA_ID_def VCD_ZLIB_ID_def)
  ultimately have "decompress_sections pair_codecs [0] [] [] 1 (Some (backend_id ?b))
      = Err (Unsupported ''unsupported secondary compressor ID'')"
    by (intro custom_backend_rejected) auto
  then show ?thesis by simp
qed

end
