(* ===== verification/Vcd_Decoder.thy ===== *)
theory Vcd_Decoder
  imports Address_Cache Code_Table Secondary
begin

text \<open>
  The VCDIFF window and stream decoders, \<open>src/src/vcdiff/decoder.rs\<close>. The \<open>SourceProvider\<close>
  trait is a record of its methods over a provider state; the in-memory slice and the empty
  provider are its two instances here. The mutable state of the instruction loop is the record
  \<open>DecodeState\<close>. The checksum function and the secondary codecs are parameters.
\<close>

section \<open>Source providers\<close>

record 'p SourceProvider =
  read_source :: "'p \<Rightarrow> u64 \<Rightarrow> byte list \<Rightarrow> ('p \<times> byte list \<times> nat, DecodeError) res"
  source_length :: "'p \<Rightarrow> u64 option"
  source_slice :: "'p \<Rightarrow> u64 \<Rightarrow> nat \<Rightarrow> (byte list option, DecodeError) res"

text \<open>
  The provider of an in-memory slice. \<open>offset + len\<close> is computed in \<open>usize\<close> and wraps.
\<close>

definition slice_read_source :: "byte list \<Rightarrow> u64 \<Rightarrow> byte list \<Rightarrow> (byte list \<times> byte list \<times> nat, DecodeError) res" where
  "slice_read_source self offset buf =
     (if length self \<le> unat offset then Ok (self, buf, 0)
      else
        let available = drop (unat offset) self;
            n = min (length buf) (length available)
        in Ok (self, take n available @ drop n buf, n))"

definition slice_source_slice :: "byte list \<Rightarrow> u64 \<Rightarrow> nat \<Rightarrow> (byte list option, DecodeError) res" where
  "slice_source_slice self offset len =
     (if unat (offset + of_nat len) \<le> length self
      then map_ok Some (slice_range self (unat offset) (unat (offset + of_nat len)))
      else Ok None)"

definition slice_provider :: "byte list SourceProvider" where
  "slice_provider = \<lparr> read_source = slice_read_source,
     source_length = (\<lambda>self. Some (of_nat (length self))), source_slice = slice_source_slice \<rparr>"

definition NoSource :: "unit SourceProvider" where
  "NoSource = \<lparr>
     read_source = (\<lambda>_ _ _. Err (InvalidInput ''COPY references source but no source provided'')),
     source_length = (\<lambda>_. None), source_slice = (\<lambda>_ _ _. Ok None) \<rparr>"

section \<open>Window decoder\<close>

record 'p DecodeState =
  inst_pos :: nat
  data_pos :: nat
  addr_pos :: nat
  d_acache :: AddressCache
  target_pos :: u64
  d_output :: "byte list"
  d_source :: 'p
  copy_buf :: "byte list"

record Sections =
  s_data :: "byte list"
  s_inst :: "byte list"
  s_addr :: "byte list"

definition resolve_size :: "byte list \<Rightarrow> byte \<Rightarrow> 'p DecodeState \<Rightarrow> (u32 \<times> 'p DecodeState, DecodeError) res" where
  "resolve_size inst table_size st =
     (if table_size = 0 then
        bindR (slice_from inst (inst_pos st)) (\<lambda>rest.
        bindR (map_err (\<lambda>_. InvalidInput ''bad instruction size'') (read_u32 rest)) (\<lambda>(val, consumed).
        Ok (val, st\<lparr> inst_pos := inst_pos st + consumed \<rparr>)))
      else Ok (ucast table_size, st))"

definition exec_run :: "byte list \<Rightarrow> u32 \<Rightarrow> 'p DecodeState \<Rightarrow> ('p DecodeState, DecodeError) res" where
  "exec_run data sz st =
     (if length data \<le> data_pos st then Err (InvalidInput ''data section underflow (RUN)'')
      else
        let b = data ! data_pos st in
        Ok (st\<lparr> data_pos := data_pos st + 1,
                d_output := d_output st @ replicate (unat sz) b,
                target_pos := target_pos st + ucast sz \<rparr>))"

definition exec_add :: "byte list \<Rightarrow> u32 \<Rightarrow> 'p DecodeState \<Rightarrow> ('p DecodeState, DecodeError) res" where
  "exec_add data sz st =
     (let end_pos = data_pos st + unat sz in
      if length data < end_pos then Err (InvalidInput ''data section underflow (ADD)'')
      else
      bindR (slice_range data (data_pos st) end_pos) (\<lambda>bs.
      Ok (st\<lparr> d_output := d_output st @ bs, data_pos := data_pos st + unat sz,
              target_pos := target_pos st + ucast sz \<rparr>)))"

definition vec_resize :: "byte list \<Rightarrow> nat \<Rightarrow> byte \<Rightarrow> byte list" where
  "vec_resize v n b = take n v @ replicate (n - length v) b"

definition source_copy ::
    "'p SourceProvider \<Rightarrow> u64 \<Rightarrow> nat \<Rightarrow> 'p DecodeState \<Rightarrow> ('p DecodeState, DecodeError) res" where
  "source_copy P src_offset sz st =
     bindR (source_slice P (d_source st) src_offset sz) (\<lambda>slice. case slice of
       Some bs \<Rightarrow> Ok (st\<lparr> d_output := d_output st @ bs \<rparr>)
     | None \<Rightarrow>
         bindR (read_source P (d_source st) src_offset (vec_resize (copy_buf st) sz 0)) (\<lambda>(src, buf, n).
         if n < sz then Err (InvalidInput ''source underflow'')
         else
         bindR (slice_range buf 0 sz) (\<lambda>bs.
         Ok (st\<lparr> d_source := src, copy_buf := buf, d_output := d_output st @ bs \<rparr>))))"

text \<open>The byte-by-byte loop of an overlapping copy: each turn reads what earlier turns pushed.\<close>

fun push_from :: "nat \<Rightarrow> nat \<Rightarrow> byte list \<Rightarrow> (byte list, 'e) res" where
  "push_from 0 t out = Ok out"
| "push_from (Suc n) t out = bindR (index_at out t) (\<lambda>b. push_from n (Suc t) (out @ [b]))"

definition target_copy :: "nat \<Rightarrow> nat \<Rightarrow> 'p DecodeState \<Rightarrow> ('p DecodeState, DecodeError) res" where
  "target_copy tgt_offset sz st =
     (if tgt_offset + sz \<le> length (d_output st)
      then bindR (slice_range (d_output st) tgt_offset (tgt_offset + sz)) (\<lambda>bs.
           Ok (st\<lparr> d_output := d_output st @ bs \<rparr>))
      else bindR (push_from sz tgt_offset (d_output st)) (\<lambda>out. Ok (st\<lparr> d_output := out \<rparr>)))"

definition exec_copy ::
    "'p SourceProvider \<Rightarrow> byte list \<Rightarrow> u64 \<Rightarrow> u64 \<Rightarrow> nat \<Rightarrow> byte \<Rightarrow> u32 \<Rightarrow> 'p DecodeState
     \<Rightarrow> ('p DecodeState, DecodeError) res" where
  "exec_copy P addr_sec cw_len cw_offset base_offset mode sz st =
     (let here = cw_len + target_pos st in
     bindR (slice_from addr_sec (addr_pos st)) (\<lambda>rest.
     bindR (map_err (\<lambda>_. InvalidInput ''address decode'')
              (AddressCache_decode (d_acache st) mode rest here)) (\<lambda>(c, addr, consumed).
     let st = st\<lparr> d_acache := c, addr_pos := addr_pos st + consumed \<rparr> in
     if addr < cw_len \<and> cw_len < addr + ucast sz
     then Err (InvalidInput ''COPY spans source/target boundary'')
     else
     bindR (if addr < cw_len
            then source_copy P (cw_offset + addr) (unat sz) st
            else target_copy (base_offset + unat (addr - cw_len)) (unat sz) st) (\<lambda>st.
     Ok (st\<lparr> target_pos := target_pos st + ucast sz \<rparr>)))))"

definition exec_sized ::
    "'p SourceProvider \<Rightarrow> byte list \<Rightarrow> byte list \<Rightarrow> u64 \<Rightarrow> u64 \<Rightarrow> nat \<Rightarrow> byte \<Rightarrow> u32
     \<Rightarrow> 'p DecodeState \<Rightarrow> ('p DecodeState, DecodeError) res" where
  "exec_sized P data addr_sec cw_len cw_offset base_offset t sz st =
     (if t = XD3_RUN then exec_run data sz st
      else if t = XD3_ADD then exec_add data sz st
      else exec_copy P addr_sec cw_len cw_offset base_offset (t - XD3_CPY) sz st)"

definition execute_half_instruction ::
    "'p SourceProvider \<Rightarrow> Sections \<Rightarrow> u64 \<Rightarrow> u64 \<Rightarrow> nat \<Rightarrow> byte \<Rightarrow> byte
     \<Rightarrow> 'p DecodeState \<Rightarrow> ('p DecodeState, DecodeError) res" where
  "execute_half_instruction P secs cw_len cw_offset base_offset t table_size st =
     bindR (resolve_size (s_inst secs) table_size st) (\<lambda>(sz, st).
     exec_sized P (s_data secs) (s_addr secs) cw_len cw_offset base_offset t sz st)"

text \<open>One turn of the instruction loop, after the test \<open>inst_pos < inst_section.len()\<close>.\<close>

definition decode_step ::
    "'p SourceProvider \<Rightarrow> Sections \<Rightarrow> u64 \<Rightarrow> u64 \<Rightarrow> nat \<Rightarrow> 'p DecodeState \<Rightarrow> ('p DecodeState, DecodeError) res" where
  "decode_step P secs cw_len cw_offset base_offset st =
     bindR (index_at (s_inst secs) (inst_pos st)) (\<lambda>opcode.
     let st = st\<lparr> inst_pos := inst_pos st + 1 \<rparr> in
     bindR (index_at default_code_table (unat opcode)) (\<lambda>entry.
     bindR (if type1 entry \<noteq> XD3_NOOP
            then execute_half_instruction P secs cw_len cw_offset base_offset (type1 entry) (size1 entry) st
            else Ok st) (\<lambda>st.
     if type2 entry \<noteq> XD3_NOOP
     then execute_half_instruction P secs cw_len cw_offset base_offset (type2 entry) (size2 entry) st
     else Ok st)))"

text \<open>For evaluation, without building the table.\<close>

lemma decode_step_code [code]:
  "decode_step P secs cw_len cw_offset base_offset st =
     bindR (index_at (s_inst secs) (inst_pos st)) (\<lambda>opcode.
     let st = st\<lparr> inst_pos := inst_pos st + 1 \<rparr>; entry = table_entry (unat opcode) in
     bindR (if type1 entry \<noteq> XD3_NOOP
            then execute_half_instruction P secs cw_len cw_offset base_offset (type1 entry) (size1 entry) st
            else Ok st) (\<lambda>st.
     if type2 entry \<noteq> XD3_NOOP
     then execute_half_instruction P secs cw_len cw_offset base_offset (type2 entry) (size2 entry) st
     else Ok st))"
  by (simp add: decode_step_def Let_def)

lemma target_copy_pos: "target_copy t n st = Ok st' \<Longrightarrow> inst_pos st' = inst_pos st"
  by (auto simp: target_copy_def bindR_eq_Ok split: if_splits)

lemma source_copy_pos: "source_copy P off n st = Ok st' \<Longrightarrow> inst_pos st' = inst_pos st"
  by (auto simp: source_copy_def bindR_eq_Ok split: option.splits)

lemma exec_sized_pos: "exec_sized P d a l off b t n st = Ok st' \<Longrightarrow> inst_pos st' = inst_pos st"
  by (auto simp: exec_sized_def exec_run_def exec_add_def exec_copy_def Let_def bindR_eq_Ok
      split: if_splits dest!: source_copy_pos target_copy_pos)

lemma execute_half_pos:
  "execute_half_instruction P secs l off b t s st = Ok st' \<Longrightarrow> inst_pos st \<le> inst_pos st'"
  by (auto simp: execute_half_instruction_def resolve_size_def bindR_eq_Ok split: if_splits dest!: exec_sized_pos)

lemma decode_step_pos: "decode_step P secs l off b st = Ok st' \<Longrightarrow> inst_pos st < inst_pos st'"
  by (auto simp: decode_step_def Let_def bindR_eq_Ok split: if_splits dest!: execute_half_pos)

function decode_insts ::
    "'p SourceProvider \<Rightarrow> Sections \<Rightarrow> u64 \<Rightarrow> u64 \<Rightarrow> nat \<Rightarrow> 'p DecodeState \<Rightarrow> ('p DecodeState, DecodeError) res" where
  "decode_insts P secs cw_len cw_offset base_offset st =
     (if inst_pos st < length (s_inst secs)
      then bindR (decode_step P secs cw_len cw_offset base_offset st)
             (decode_insts P secs cw_len cw_offset base_offset)
      else Ok st)"
  by pat_completeness auto
termination
  by (relation "measure (\<lambda>(P, secs, l, off, b, st). length (s_inst secs) - inst_pos st)")
    (auto dest!: decode_step_pos)

declare decode_insts.simps [simp del]

definition decode_window_with_cache ::
    "(byte list \<Rightarrow> u32) \<Rightarrow> 'p SourceProvider \<Rightarrow> WindowHeader \<Rightarrow> Sections \<Rightarrow> 'p \<Rightarrow> bool
     \<Rightarrow> byte list \<Rightarrow> byte list \<Rightarrow> AddressCache \<Rightarrow> ('p DecodeState, DecodeError) res" where
  "decode_window_with_cache adler P header secs source verify_checksum cbuf output cache =
     (let base_offset = length output;
          st = \<lparr> inst_pos = 0, data_pos = 0, addr_pos = 0, d_acache = AddressCache_init cache,
                 target_pos = 0, d_output = output, d_source = source, copy_buf = cbuf \<rparr>
      in
      bindR (vec_reserve output (target_window_len header)) (\<lambda>_.
      bindR (decode_insts P secs (copy_window_len header) (copy_window_offset header) base_offset st) (\<lambda>st.
      let written = length (d_output st) - base_offset in
      if of_nat written \<noteq> target_window_len header then Err (InvalidInput ''target size mismatch'')
      else if verify_checksum then
        (case wh_adler32 header of
           Some expected \<Rightarrow>
             bindR (slice_from (d_output st) base_offset) (\<lambda>bs.
             let actual = adler bs in
             if actual \<noteq> expected then Err (ChecksumMismatch expected actual) else Ok st)
         | None \<Rightarrow> Ok st)
      else Ok st)))"

definition decode_window_into ::
    "(byte list \<Rightarrow> u32) \<Rightarrow> 'p SourceProvider \<Rightarrow> WindowHeader \<Rightarrow> Sections \<Rightarrow> 'p \<Rightarrow> bool
     \<Rightarrow> byte list \<Rightarrow> byte list \<Rightarrow> ('p DecodeState, DecodeError) res" where
  "decode_window_into adler P header secs source verify_checksum cbuf output =
     decode_window_with_cache adler P header secs source verify_checksum cbuf output AddressCache_new"

definition decode_window ::
    "(byte list \<Rightarrow> u32) \<Rightarrow> 'p SourceProvider \<Rightarrow> WindowHeader \<Rightarrow> byte list \<Rightarrow> byte list \<Rightarrow> byte list \<Rightarrow> 'p
     \<Rightarrow> bool \<Rightarrow> byte list \<Rightarrow> (byte list \<times> 'p \<times> byte list, DecodeError) res" where
  "decode_window adler P header data inst addr source verify_checksum cbuf =
     bindR (vec_zeroed (target_window_len header)) (\<lambda>_.
     bindR (decode_window_into adler P header \<lparr> s_data = data, s_inst = inst, s_addr = addr \<rparr>
              source verify_checksum cbuf []) (\<lambda>st.
     Ok (d_output st, d_source st, copy_buf st)))"

section \<open>Stream decoder\<close>

record StreamDecoder =
  reader :: "byte list"
  sd_file_header :: "FileHeader option"
  sd_verify_checksum :: bool
  sd_secondary_id :: "byte option"
  data_buf :: "byte list"
  inst_buf :: "byte list"
  addr_buf :: "byte list"
  sd_copy_buf :: "byte list"
  sd_acache :: AddressCache

definition StreamDecoder_new :: "byte list \<Rightarrow> bool \<Rightarrow> StreamDecoder" where
  "StreamDecoder_new r verify =
     \<lparr> reader = r, sd_file_header = None, sd_verify_checksum = verify, sd_secondary_id = None,
       data_buf = [], inst_buf = [], addr_buf = [], sd_copy_buf = [], sd_acache = AddressCache_new \<rparr>"

definition read_header :: "StreamDecoder \<Rightarrow> (StreamDecoder, DecodeError) res" where
  "read_header sd =
     (if sd_file_header sd = None then
        bindR (map_err Io (FileHeader_decode (reader sd))) (\<lambda>(hdr, r).
        Ok (sd\<lparr> reader := r, sd_secondary_id := secondary_id hdr, sd_file_header := Some hdr \<rparr>))
      else Ok sd)"

text \<open>\<open>buf.resize(len, 0)\<close> followed by \<open>read_exact\<close> into the whole buffer.\<close>

definition read_section :: "byte list \<Rightarrow> u64 \<Rightarrow> (byte list \<times> byte list, DecodeError) res" where
  "read_section r len = bindR (vec_zeroed len) (\<lambda>n. map_err Io (read_exact r n))"

definition select_sections ::
    "Codecs \<Rightarrow> StreamDecoder \<Rightarrow> byte \<Rightarrow> (Sections, DecodeError) res" where
  "select_sections cs sd del =
     (if del \<noteq> 0 then
        bindR (decompress_sections cs (data_buf sd) (inst_buf sd) (addr_buf sd) del (sd_secondary_id sd))
          (\<lambda>(d, i, a). Ok \<lparr> s_data = d, s_inst = i, s_addr = a \<rparr>)
      else Ok \<lparr> s_data = data_buf sd, s_inst = inst_buf sd, s_addr = addr_buf sd \<rparr>)"

definition StreamDecoder_decode_window ::
    "Codecs \<Rightarrow> (byte list \<Rightarrow> u32) \<Rightarrow> 'p SourceProvider \<Rightarrow> StreamDecoder \<Rightarrow> 'p \<Rightarrow> byte list
     \<Rightarrow> (bool \<times> StreamDecoder \<times> 'p \<times> byte list, DecodeError) res" where
  "StreamDecoder_decode_window cs adler P sd source output =
     bindR (read_header sd) (\<lambda>sd.
     bindR (map_err Io (WindowHeader_decode (reader sd))) (\<lambda>(wh_opt, r).
     let sd = sd\<lparr> reader := r \<rparr> in
     case wh_opt of
       None \<Rightarrow> Ok (False, sd, source, output)
     | Some wh \<Rightarrow>
     if win_ind wh AND VCD_TARGET \<noteq> 0 then Err (Unsupported ''VCD_TARGET not supported'')
     else
     bindR (read_section (reader sd) (data_len wh)) (\<lambda>(bs, r).
     let sd = sd\<lparr> data_buf := bs, reader := r \<rparr> in
     bindR (read_section (reader sd) (inst_len wh)) (\<lambda>(bs, r).
     let sd = sd\<lparr> inst_buf := bs, reader := r \<rparr> in
     bindR (read_section (reader sd) (addr_len wh)) (\<lambda>(bs, r).
     let sd = sd\<lparr> addr_buf := bs, reader := r \<rparr> in
     bindR (select_sections cs sd (del_ind wh)) (\<lambda>secs.
     bindR (decode_window_with_cache adler P wh secs source (sd_verify_checksum sd)
              (sd_copy_buf sd) output (sd_acache sd)) (\<lambda>st.
     Ok (True, sd\<lparr> sd_copy_buf := copy_buf st, sd_acache := d_acache st \<rparr>, d_source st, d_output st))))))))"

lemma read_section_Ok:
  "read_section r len = Ok (bs, r') \<Longrightarrow> length bs = unat len \<and> r = bs @ r'"
  by (auto simp: read_section_def bindR_eq_Ok vec_zeroed_eq_Ok dest!: read_exact_length)

lemma read_header_keeps: "sd_file_header sd = Some h \<Longrightarrow> read_header sd = Ok sd"
  by (simp add: read_header_def)

text \<open>
  The loop \<open>while self.decode_window(source, output)? {}\<close>. The header is read by the first call;
  from then on each window consumes input.
\<close>

lemma decode_window_shorter:
  assumes "StreamDecoder_decode_window cs adler P sd source output = Ok (True, sd', s', out')"
  shows "sd_file_header sd' \<noteq> None \<and> (sd_file_header sd \<noteq> None \<longrightarrow> length (reader sd') < length (reader sd))"
proof -
  from assms obtain sd1 wh r1 where 1: "read_header sd = Ok sd1" "WindowHeader_decode (reader sd1) = Ok (Some wh, r1)"
    "length (reader sd') \<le> length r1" "sd_file_header sd' = sd_file_header sd1"
    by (auto simp: StreamDecoder_decode_window_def bindR_eq_Ok Let_def split: option.splits dest!: read_section_Ok)
  have "sd_file_header sd1 \<noteq> None"
    using 1(1) by (auto simp: read_header_def bindR_eq_Ok split: if_splits)
  moreover have "length r1 < length (reader sd1)" using WindowHeader_decode_Ok [OF 1(2)] by blast
  moreover have "sd1 = sd" if "sd_file_header sd \<noteq> None" using that 1(1) by (auto simp: read_header_def)
  ultimately show ?thesis using 1(3,4) by auto
qed

function decode_all ::
    "Codecs \<Rightarrow> (byte list \<Rightarrow> u32) \<Rightarrow> 'p SourceProvider \<Rightarrow> StreamDecoder \<Rightarrow> 'p \<Rightarrow> byte list
     \<Rightarrow> (StreamDecoder \<times> 'p \<times> byte list, DecodeError) res" where
  "decode_all cs adler P sd source output =
     bindR (StreamDecoder_decode_window cs adler P sd source output) (\<lambda>(more, sd, source, output).
     if more then decode_all cs adler P sd source output else Ok (sd, source, output))"
  by pat_completeness auto
termination
  by (relation "measures [\<lambda>(cs, adler, P, sd, s, out). if sd_file_header sd = None then 1 else 0,
        \<lambda>(cs, adler, P, sd, s, out). length (reader sd)]")
    (auto dest!: decode_window_shorter)

declare decode_all.simps [simp del]

definition decode_memory ::
    "Codecs \<Rightarrow> (byte list \<Rightarrow> u32) \<Rightarrow> byte list \<Rightarrow> byte list \<Rightarrow> (byte list, DecodeError) res" where
  "decode_memory cs adler delta source =
     bindR (decode_all cs adler slice_provider (StreamDecoder_new delta True) source []) (\<lambda>(sd, src, output).
     Ok output)"

text \<open>The fallback checksum of the decoder, for builds without the \<open>adler32\<close> feature.\<close>

definition compute_adler32 :: "byte list \<Rightarrow> u32" where
  "compute_adler32 data =
     (case foldl (\<lambda>(a, b) byte.
          let a = (a + ucast byte) mod 65521; b = (b + a) mod 65521 in (a, b)) (1 :: u32, 0 :: u32) data of
        (a, b) \<Rightarrow> push_bit 16 b OR a)"

end
