(* ===== verification/Window_Codec.thy ===== *)
theory Window_Codec
  imports Vcd_Encoder Vcd_Decoder
begin

text \<open>
  The window encoder and the window decoder against one abstract meaning of a delta: a list of
  ADD, COPY and RUN operations applied to a source window. The encoder packs the operations into
  three sections and the decoder executes the sections; the lemmas relate both to the operations.
\<close>

section \<open>Delta operations\<close>

datatype delta_op = OAdd "byte list" | OCopy u32 u64 | ORun u32 byte

fun self_copy :: "nat \<Rightarrow> nat \<Rightarrow> 'a list \<Rightarrow> 'a list" where
  "self_copy 0 t out = out"
| "self_copy (Suc n) t out = self_copy n (Suc t) (out @ [out ! t])"

fun apply_op :: "byte list \<Rightarrow> delta_op \<Rightarrow> byte list \<Rightarrow> byte list" where
  "apply_op S (OAdd d) out = out @ d"
| "apply_op S (ORun n b) out = out @ replicate (unat n) b"
| "apply_op S (OCopy n a) out =
     (if unat a < length S then out @ take (unat n) (drop (unat a) S)
      else self_copy (unat n) (unat a - length S) out)"

fun valid_op :: "byte list \<Rightarrow> delta_op \<Rightarrow> byte list \<Rightarrow> bool" where
  "valid_op S (OAdd d) out \<longleftrightarrow> length d < 2 ^ 32"
| "valid_op S (ORun n b) out \<longleftrightarrow> True"
| "valid_op S (OCopy n a) out \<longleftrightarrow>
     unat a + unat n \<le> length S \<or> length S \<le> unat a \<and> unat a < length S + length out"

fun apply_ops :: "byte list \<Rightarrow> delta_op list \<Rightarrow> byte list \<Rightarrow> byte list" where
  "apply_ops S [] out = out"
| "apply_ops S (x # xs) out = apply_ops S xs (apply_op S x out)"

fun valid_ops :: "byte list \<Rightarrow> delta_op list \<Rightarrow> byte list \<Rightarrow> bool" where
  "valid_ops S [] out \<longleftrightarrow> True"
| "valid_ops S (x # xs) out \<longleftrightarrow> valid_op S x out \<and> valid_ops S xs (apply_op S x out)"

lemma length_self_copy [simp]: "length (self_copy n t out) = length out + n"
  by (induction n t out rule: self_copy.induct) auto

lemma length_apply_op: "length out \<le> length (apply_op S x out)"
  by (cases x) auto

lemma length_apply_ops: "length out \<le> length (apply_ops S xs out)"
  by (induction xs arbitrary: out) (auto intro: le_trans [OF length_apply_op])

lemma apply_ops_append: "apply_ops S (xs @ ys) out = apply_ops S ys (apply_ops S xs out)"
  by (induction xs arbitrary: out) auto

lemma valid_ops_append: "valid_ops S (xs @ ys) out \<longleftrightarrow> valid_ops S xs out \<and> valid_ops S ys (apply_ops S xs out)"
  by (induction xs arbitrary: out) auto

section \<open>Executing an instruction stream\<close>

lemma push_from_eq: "t < length out \<Longrightarrow> push_from n t out = Ok (self_copy n t out)"
  by (induction n t out rule: self_copy.induct) auto

lemma self_copy_disjoint: "t + n \<le> length out \<Longrightarrow> self_copy n t out = out @ take n (drop t out)"
proof (induction n arbitrary: t out)
  case (Suc n)
  then have "self_copy n (Suc t) (out @ [out ! t]) = (out @ [out ! t]) @ take n (drop (Suc t) (out @ [out ! t]))"
    by (intro Suc.IH) simp
  then show ?case using Suc.prems by (simp add: take_Suc Cons_nth_drop_Suc [symmetric])
qed simp

lemma self_copy_base: "t < length out \<Longrightarrow> self_copy n (length base + t) (base @ out) = base @ self_copy n t out"
  by (induction n t out rule: self_copy.induct) (auto simp: nth_append)

text \<open>The byte-wise loop and the bulk copy agree, so a copy within the output is \<open>self_copy\<close>.\<close>

lemma target_copy_eq:
  assumes "t < length (d_output st)"
  shows "target_copy t n st = Ok (st\<lparr> d_output := self_copy n t (d_output st) \<rparr>)"
  using assms by (simp add: target_copy_def push_from_eq self_copy_disjoint)

lemma source_copy_inst_pos: "source_copy P off n (st\<lparr> inst_pos := k \<rparr>)
    = map_ok (\<lambda>s. s\<lparr> inst_pos := k \<rparr>) (source_copy P off n st)"
proof (cases "source_slice P (d_source st) off n")
  case (Ok x)
  show ?thesis
  proof (cases x)
    case None
    then show ?thesis using Ok
      by (cases "read_source P (d_source st) off (vec_resize (copy_buf st) n 0)")
        (auto simp: source_copy_def slice_range_def)
  qed (use Ok in \<open>simp add: source_copy_def\<close>)
qed (simp_all add: source_copy_def)

lemma target_copy_inst_pos: "target_copy t n (st\<lparr> inst_pos := k \<rparr>)
    = map_ok (\<lambda>s. s\<lparr> inst_pos := k \<rparr>) (target_copy t n st)"
  by (cases "push_from n t (d_output st) :: (_, DecodeError) res") (auto simp: target_copy_def)

lemma exec_copy_inst_pos: "exec_copy P as l off b m n (st\<lparr> inst_pos := k \<rparr>)
    = map_ok (\<lambda>s. s\<lparr> inst_pos := k \<rparr>) (exec_copy P as l off b m n st)"
proof (cases "addr_pos st \<le> length as")
  case le: True
  let ?dec = "AddressCache_decode (d_acache st) m (drop (addr_pos st) as) (l + target_pos st)"
  show ?thesis
  proof (cases ?dec)
    case (Ok x)
    obtain c addr n' where x: "x = (c, addr, n')" by (cases x)
    let ?st = "st\<lparr> d_acache := c, addr_pos := addr_pos st + n' \<rparr>"
    have sw: "st\<lparr> inst_pos := k, d_acache := c, addr_pos := addr_pos st + n' \<rparr> = ?st\<lparr> inst_pos := k \<rparr>" by simp
    have eqs: "source_copy P (off + addr) (unat n) (st\<lparr> inst_pos := k, d_acache := c, addr_pos := addr_pos st + n' \<rparr>)
        = map_ok (\<lambda>s. s\<lparr> inst_pos := k \<rparr>) (source_copy P (off + addr) (unat n) ?st)"
      "target_copy (b + unat (addr - l)) (unat n) (st\<lparr> inst_pos := k, d_acache := c, addr_pos := addr_pos st + n' \<rparr>)
        = map_ok (\<lambda>s. s\<lparr> inst_pos := k \<rparr>) (target_copy (b + unat (addr - l)) (unat n) ?st)"
      unfolding sw by (rule source_copy_inst_pos target_copy_inst_pos)+
    show ?thesis
      using le Ok x eqs
      by (cases "source_copy P (off + addr) (unat n) ?st"; cases "target_copy (b + unat (addr - l)) (unat n) ?st")
        (simp_all add: exec_copy_def Let_def)
  qed (use le in \<open>simp_all add: exec_copy_def Let_def\<close>)
qed (simp add: exec_copy_def Let_def slice_from_def)

lemma exec_sized_inst_pos: "exec_sized P d a l off b t n (st\<lparr> inst_pos := k \<rparr>)
    = map_ok (\<lambda>s. s\<lparr> inst_pos := k \<rparr>) (exec_sized P d a l off b t n st)"
proof -
  have "exec_add d n (st\<lparr> inst_pos := k \<rparr>) = map_ok (\<lambda>s. s\<lparr> inst_pos := k \<rparr>) (exec_add d n st)"
    by (simp add: exec_add_def Let_def)
  moreover have "exec_run d n (st\<lparr> inst_pos := k \<rparr>) = map_ok (\<lambda>s. s\<lparr> inst_pos := k \<rparr>) (exec_run d n st)"
    by (simp add: exec_run_def Let_def)
  ultimately show ?thesis by (simp add: exec_sized_def exec_copy_inst_pos)
qed

text \<open>One opcode of the stream executes the instructions it stands for.\<close>

definition exec_half ::
    "'p SourceProvider \<Rightarrow> byte list \<Rightarrow> byte list \<Rightarrow> u64 \<Rightarrow> u64 \<Rightarrow> nat \<Rightarrow> byte \<times> u32 \<Rightarrow> 'p DecodeState
     \<Rightarrow> ('p DecodeState, DecodeError) res" where
  "exec_half P d a l off b h st = exec_sized P d a l off b (fst h) (snd h) st"

lemma exec_half_inst_pos: "exec_half P d a l off b h (st\<lparr> inst_pos := k \<rparr>)
    = map_ok (\<lambda>s. s\<lparr> inst_pos := k \<rparr>) (exec_half P d a l off b h st)"
  by (simp add: exec_half_def exec_sized_inst_pos)

lemma exec_halves_inst_pos: "for_each (exec_half P d a l off b) hs (st\<lparr> inst_pos := k \<rparr>)
    = map_ok (\<lambda>s. s\<lparr> inst_pos := k \<rparr>) (for_each (exec_half P d a l off b) hs st)"
proof (induction hs arbitrary: st)
  case (Cons h hs)
  then show ?case by (cases "exec_half P d a l off b h st") (simp_all add: exec_half_inst_pos)
qed simp

lemma execute_half_fixed:
  "s \<noteq> 0 \<Longrightarrow> execute_half_instruction P secs l off b t s st
     = exec_half P (s_data secs) (s_addr secs) l off b (t, ucast s) st"
  by (simp add: execute_half_instruction_def resolve_size_def exec_half_def)

lemma execute_half_open:
  assumes "s_inst secs = pre @ vint (unat n) @ suf" and "inst_pos st = length pre"
  shows "execute_half_instruction P secs l off b t 0 st
     = exec_half P (s_data secs) (s_addr secs) l off b (t, n) (st\<lparr> inst_pos := length pre + length (vint (unat n)) \<rparr>)"
  using assms by (simp add: execute_half_instruction_def resolve_size_def exec_half_def)

lemma decode_step_chunk:
  assumes "chunk bs hs" and inst: "s_inst secs = pre @ bs @ suf" and pos: "inst_pos st = length pre"
  shows "decode_step P secs l off b st
     = map_ok (\<lambda>s. s\<lparr> inst_pos := length (pre @ bs) \<rparr>)
         (for_each (exec_half P (s_data secs) (s_addr secs) l off b) hs st)"
  using assms(1)
proof cases
  case (chunk_sized c t s)
  have op: "index_at (s_inst secs) (inst_pos st) = (Ok c :: (_, DecodeError) res)"
    unfolding inst pos chunk_sized by (simp add: index_at_def)
  show ?thesis
    unfolding decode_step_def op using chunk_sized
    by (simp add: pos single_def double_def execute_half_fixed exec_half_inst_pos Let_def)
next
  case (chunk_open c t n)
  have op: "index_at (s_inst secs) (inst_pos st) = (Ok c :: (_, DecodeError) res)"
    unfolding inst pos chunk_open by (simp add: index_at_def)
  have "s_inst secs = (pre @ [c]) @ vint (unat n) @ suf" by (simp add: inst chunk_open)
  note ex = execute_half_open [OF this, of "st\<lparr> inst_pos := inst_pos st + 1 \<rparr>" P l off b t]
  show ?thesis
    unfolding decode_step_def op using chunk_open ex
    by (simp add: pos single_def double_def exec_half_inst_pos Let_def)
next
  case (chunk_double c t1 s1 t2 s2)
  have op: "index_at (s_inst secs) (inst_pos st) = (Ok c :: (_, DecodeError) res)"
    unfolding inst pos chunk_double by (simp add: index_at_def)
  show ?thesis
    unfolding decode_step_def op using chunk_double
    by (cases "exec_half P (s_data secs) (s_addr secs) l off b (t1, ucast s1) st")
      (simp_all add: pos double_def execute_half_fixed exec_half_inst_pos Let_def)
qed

lemma chunk_nonempty: "chunk bs hs \<Longrightarrow> bs \<noteq> []"
  by (auto elim: chunk.cases)

lemma decode_insts_chunks:
  assumes "list_all2 chunk bss hss" and "s_inst secs = pre @ concat bss" and "inst_pos st = length pre"
    and "for_each (exec_half P (s_data secs) (s_addr secs) l off b) (concat hss) st = Ok st'"
  shows "decode_insts P secs l off b st = Ok (st'\<lparr> inst_pos := length (s_inst secs) \<rparr>)"
  using assms
proof (induction bss hss arbitrary: pre st st' rule: list_all2_induct)
  case Nil
  then have "st' = st" "inst_pos st = length (s_inst secs)" by auto
  then show ?case by (subst decode_insts.simps) simp
next
  case (Cons bs bss hs hss)
  let ?ex = "for_each (exec_half P (s_data secs) (s_addr secs) l off b)"
  from Cons.prems(3) obtain st1 where 1: "?ex hs st = Ok st1" "?ex (concat hss) st1 = Ok st'"
    by (auto simp: for_each_append bindR_eq_Ok)
  let ?st1 = "st1\<lparr> inst_pos := length (pre @ bs) \<rparr>"
  have step: "decode_step P secs l off b st = Ok ?st1"
    using decode_step_chunk [OF Cons.hyps(1), of secs pre "concat bss" st P l off b] Cons.prems(1,2) 1(1) by simp
  have "?ex (concat hss) ?st1 = Ok (st'\<lparr> inst_pos := length (pre @ bs) \<rparr>)"
    by (simp add: exec_halves_inst_pos 1(2) del: length_append)
  moreover have "inst_pos st < length (s_inst secs)"
    using Cons.prems(1,2) chunk_nonempty [OF Cons.hyps(1)] by simp
  ultimately show ?case
    using Cons.IH [of "pre @ bs" ?st1 "st'\<lparr> inst_pos := length (pre @ bs) \<rparr>"] Cons.prems(1) step
    by (subst decode_insts.simps) simp
qed

lemma decode_insts_stream:
  assumes "inst_stream (s_inst secs) hs" and "inst_pos st = 0"
    and "for_each (exec_half P (s_data secs) (s_addr secs) l off b) hs st = Ok st'"
  shows "decode_insts P secs l off b st = Ok (st'\<lparr> inst_pos := length (s_inst secs) \<rparr>)"
proof -
  from assms(1) obtain bss hss where "s_inst secs = concat bss" "hs = concat hss" "list_all2 chunk bss hss"
    by (auto simp: inst_stream_def)
  with assms(2,3) show ?thesis by (intro decode_insts_chunks [where pre = "[]"]) auto
qed

section \<open>Source providers\<close>

text \<open>
  What the decoder relies on: a provider that stands for the bytes \<open>bytes s\<close> delivers any range
  of them, as a slice or through the copy buffer, and goes on standing for the same bytes.
\<close>

locale source_provider =
  fixes P :: "'p SourceProvider" and bytes :: "'p \<Rightarrow> byte list" and ready :: "'p \<Rightarrow> bool"
  assumes provides: "ready s \<Longrightarrow> unat off + n \<le> length (bytes s) \<Longrightarrow>
      source_slice P s off n = Ok (Some (take n (drop (unat off) (bytes s))))
      \<or> source_slice P s off n = Ok None \<and>
        (\<forall>buf. length buf = n \<longrightarrow> (\<exists>s'. read_source P s off buf = Ok (s', take n (drop (unat off) (bytes s)), n)
           \<and> bytes s' = bytes s \<and> ready s'))"
begin

lemma source_copy_delivers:
  assumes "ready (d_source st)" and "unat off + n \<le> length (bytes (d_source st))"
  shows "\<exists>s cb. source_copy P off n st = Ok (st\<lparr> d_source := s, copy_buf := cb,
            d_output := d_output st @ take n (drop (unat off) (bytes (d_source st))) \<rparr>)
         \<and> bytes s = bytes (d_source st) \<and> ready s"
  using provides [OF assms]
proof (elim disjE conjE)
  assume "source_slice P (d_source st) off n = Ok (Some (take n (drop (unat off) (bytes (d_source st)))))"
  then show ?thesis using assms(1)
    by (intro exI [of _ "d_source st"] exI [of _ "copy_buf st"]) (simp add: source_copy_def)
next
  assume n: "source_slice P (d_source st) off n = Ok None"
    and r: "\<forall>buf. length buf = n \<longrightarrow> (\<exists>s'. read_source P (d_source st) off buf
       = Ok (s', take n (drop (unat off) (bytes (d_source st))), n) \<and> bytes s' = bytes (d_source st) \<and> ready s')"
  have "length (vec_resize (copy_buf st) n 0) = n" by (simp add: vec_resize_def)
  with r obtain s' where "read_source P (d_source st) off (vec_resize (copy_buf st) n 0)
       = Ok (s', take n (drop (unat off) (bytes (d_source st))), n)" "bytes s' = bytes (d_source st)" "ready s'"
    by blast
  with n assms(2) show ?thesis
    by (intro exI [of _ s'] exI [of _ "take n (drop (unat off) (bytes (d_source st)))"])
      (simp add: source_copy_def)
qed

end

interpretation slice: source_provider slice_provider "\<lambda>s. s" "\<lambda>s. length s < 2 ^ 64"
proof unfold_locales
  fix s :: "byte list" and off :: u64 and n :: nat
  assume s: "length s < 2 ^ 64" "unat off + n \<le> length s"
  then have "unat (of_nat n :: u64) = n" by (intro unat_of_nat_id) simp
  moreover from this s have "unat (off + of_nat n) = unat off + n" by (subst unat_add_no_wrap) simp_all
  ultimately show "source_slice slice_provider s off n = Ok (Some (take n (drop (unat off) s)))
      \<or> source_slice slice_provider s off n = Ok None \<and>
        (\<forall>buf. length buf = n \<longrightarrow> (\<exists>s'. read_source slice_provider s off buf
           = Ok (s', take n (drop (unat off) s), n) \<and> s' = s \<and> length s' < 2 ^ 64))"
    using s by (intro disjI1) (simp add: slice_provider_def slice_source_slice_def)
qed

section \<open>Encoding operations and executing them\<close>

fun enc_op :: "delta_op \<Rightarrow> WindowEncoder \<Rightarrow> (WindowEncoder, 'e) res" where
  "enc_op (OAdd d) e = encoder_add e d"
| "enc_op (OCopy n a) e = copy_with_auto_mode e n a"
| "enc_op (ORun n b) e = encoder_run e n b"

text \<open>
  \<open>tracks\<close>: the decoder has read exactly the sections the encoder has written, in the same cache
  state, and has produced \<open>out\<close>. \<open>enc_inv\<close>: executing the instructions the encoder holds leads
  there, whatever will still be appended to its sections.
\<close>

definition tracks :: "('p \<Rightarrow> byte list) \<Rightarrow> ('p \<Rightarrow> bool) \<Rightarrow> byte list \<Rightarrow> byte list \<Rightarrow> WindowEncoder
    \<Rightarrow> byte list \<Rightarrow> 'p DecodeState \<Rightarrow> bool" where
  "tracks bytes ready B base e out st \<longleftrightarrow>
     data_pos st = length (data_section e) \<and> addr_pos st = length (addr_section e)
     \<and> d_acache st = acache e \<and> target_pos st = target_len e \<and> d_output st = base @ out
     \<and> bytes (d_source st) = B \<and> ready (d_source st)"

definition window_base :: "WindowEncoder \<Rightarrow> u64" where
  "window_base e = (case source_window e of Some s \<Rightarrow> sw_len s | None \<Rightarrow> 0)"

text \<open>The size of the sections, the queued instruction counted at its largest.\<close>

definition sec_size :: "WindowEncoder \<Rightarrow> nat" where
  "sec_size e = length (data_section e) + length (inst_section e) + length (addr_section e)
     + (if pending e = None then 0 else 6)"

lemma length_single_bytes: "length (single_bytes c i) \<le> 6"
proof -
  have "length (vint (unat (isize i))) \<le> 5"
    using less_trans [OF u32_lt, of "128 ^ 5" "isize i"] by (intro length_vint_le) auto
  then show ?thesis by (simp add: single_bytes_def)
qed

lemma sec_size_flushed: "length (data_section (flushed e)) + length (inst_section (flushed e))
    + length (addr_section (flushed e)) \<le> sec_size e"
  using length_single_bytes by (auto simp: flushed_def sec_size_def split: option.split)

lemma sec_size_emitted: "sec_size (emitted e i) \<le> sec_size e + 6"
proof (cases "code2 (choose_instruction (map_option pinfo (pending e)) i)")
  case None
  then show ?thesis using sec_size_flushed [of e] by (simp add: emitted_def Let_def sec_size_def)
next
  case (Some c)
  then show ?thesis by (cases "pending e") (simp_all add: emitted_def Let_def sec_size_def)
qed

definition enc_inv :: "'p SourceProvider \<Rightarrow> ('p \<Rightarrow> byte list) \<Rightarrow> ('p \<Rightarrow> bool) \<Rightarrow> byte list \<Rightarrow> byte list
    \<Rightarrow> u64 \<Rightarrow> 'p DecodeState \<Rightarrow> WindowEncoder \<Rightarrow> (byte \<times> u32) list \<Rightarrow> byte list \<Rightarrow> bool" where
  "enc_inv P bytes ready B base off st0 e hs out \<longleftrightarrow>
     holds_insts e hs \<and> default_cache (acache e) \<and> unat (target_len e) = length out
     \<and> sec_size e \<le> 17 * length out
     \<and> (\<forall>d a. \<exists>st. for_each (exec_half P (data_section e @ d) (addr_section e @ a) (window_base e) off (length base)) hs st0
            = Ok st \<and> tracks bytes ready B base e out st)"

lemma holds_insts_cong:
  "pending e = pending e' \<Longrightarrow> inst_section e = inst_section e' \<Longrightarrow> holds_insts e hs = holds_insts e' hs"
  by (cases "pending e'") (simp_all add: holds_insts_def)

lemma enc_inv_emit:
  assumes inv: "enc_inv P bytes ready B base off st0 e hs out"
    and e1: "e1 = e\<lparr> data_section := data_section e @ dd, addr_section := addr_section e @ aa, acache := c \<rparr>"
    and e2: "e2 = (emitted e1 i)\<lparr> target_len := n \<rparr>"
    and i: "valid_info i" "isize i \<noteq> 0" and c: "default_cache c" and n: "unat n = length out'"
    and grow: "length dd + length aa + 6 + 17 * length out \<le> 17 * length out'"
    and ex: "\<And>d a st. tracks bytes ready B base e out st \<Longrightarrow>
      \<exists>st'. exec_half P (data_section e @ dd @ d) (addr_section e @ aa @ a) (window_base e) off (length base) (half i) st
          = Ok st' \<and> tracks bytes ready B base e2 out' st'"
  shows "enc_inv P bytes ready B base off st0 e2 (hs @ [half i]) out'"
proof -
  have "holds_insts e1 hs" using inv holds_insts_cong [of e1 e] by (simp add: enc_inv_def e1)
  then have h: "holds_insts e2 (hs @ [half i])"
    using holds_insts_emitted [OF _ i] holds_insts_cong [of e2 "emitted e1 i"] by (simp add: e2)
  have f: "data_section e2 = data_section e @ dd" "addr_section e2 = addr_section e @ aa"
      "acache e2 = c" "target_len e2 = n" "window_base e2 = window_base e"
    by (simp_all add: e2 e1 window_base_def)
  have "\<exists>st. for_each (exec_half P (data_section e2 @ d) (addr_section e2 @ a) (window_base e2) off (length base)) (hs @ [half i]) st0
        = Ok st \<and> tracks bytes ready B base e2 out' st" for d a
  proof -
    from inv obtain st where "for_each (exec_half P (data_section e @ dd @ d) (addr_section e @ aa @ a) (window_base e) off
        (length base)) hs st0 = Ok st" "tracks bytes ready B base e out st"
      unfolding enc_inv_def by blast
    with ex [of st d a] show ?thesis by (auto simp: f for_each_append)
  qed
  moreover have "sec_size e2 \<le> 17 * length out'"
    using sec_size_emitted [of e1 i] inv grow by (simp add: sec_size_def e2 e1 enc_inv_def)
  ultimately show ?thesis using h f c n by (simp add: enc_inv_def)
qed

lemma encoded_addr_length:
  assumes "cache_ok c" and "AddressCache_encode c a here = (Ok (c', m, ea) :: (_, 'e) res)"
  shows "length (as_bytes ea) \<le> 10"
proof -
  from AddressCache_encode_cases [OF assms(1), of a here, where 'a = 'e] assms(2)
  obtain d where "ea = pad10 (vint (unat (d :: u64))) \<or> same_form c a m ea" by fastforce
  then show ?thesis using length_vint_u64_le by (auto simp: same_form_def Let_def)
qed

context source_provider
begin

lemma enc_inv_add:
  assumes inv: "enc_inv P bytes ready B base off st0 e hs out"
    and d: "d \<noteq> []" "length d < 2 ^ 32" "length (out @ d) < 2 ^ 64"
  shows "\<exists>e'. encoder_add e d = (Ok e' :: (_, 'e) res) \<and> source_window e' = source_window e
     \<and> emit_checksum e' = emit_checksum e
     \<and> (\<exists>hs'. enc_inv P bytes ready B base off st0 e' hs' (out @ d))"
proof -
  let ?i = "\<lparr> itype = XD3_ADD, isize = of_nat (length d) \<rparr>"
  let ?e1 = "e\<lparr> data_section := data_section e @ d \<rparr>"
  let ?e2 = "(emitted ?e1 ?i)\<lparr> target_len := target_len e + of_nat (length d) \<rparr>"
  have len: "unat (of_nat (length d) :: u32) = length d" "unat (of_nat (length d) :: u64) = length d"
    using d(2) by (simp_all add: unat_of_nat_id)
  have nz: "(of_nat (length d) :: u32) \<noteq> 0" using len(1) d(1) by (metis length_0_conv unat_0)
  have tl: "unat (target_len e) = length out" using inv by (simp add: enc_inv_def)
  have "enc_inv P bytes ready B base off st0 ?e2 (hs @ [half ?i]) (out @ d)"
  proof (rule enc_inv_emit [OF inv, where dd = d and aa = "[]" and c = "acache e"])
    show "unat (target_len e + of_nat (length d)) = length (out @ d)"
      using d(3) tl len by (subst unat_add_no_wrap) simp_all
    show "\<exists>st'. exec_half P (data_section e @ d @ x) (addr_section e @ [] @ a) (window_base e) off (length base) (half ?i) st
        = Ok st' \<and> tracks bytes ready B base ?e2 (out @ d) st'" if "tracks bytes ready B base e out st" for x a st
    proof -
      have "exec_half P (data_section e @ d @ x) (addr_section e @ [] @ a) (window_base e) off (length base) (half ?i) st
        = Ok (st\<lparr> d_output := d_output st @ d, data_pos := data_pos st + length d,
                  target_pos := target_pos st + ucast (of_nat (length d) :: u32) \<rparr>)"
        using that len by (simp add: exec_half_def half_def exec_sized_def exec_add_def Let_def tracks_def)
      then show ?thesis using that d(2) by (simp add: tracks_def ucast_of_nat_u32)
    qed
    have "1 \<le> length d" using d(1) by (cases d) auto
    then show "length d + length ([] :: byte list) + 6 + 17 * length out \<le> 17 * length (out @ d)" by simp
  qed (use inv d nz in \<open>auto simp: enc_inv_def valid_info_def word_gt_0\<close>)
  moreover have "encoder_add e d = (Ok ?e2 :: (_, 'e) res)"
    using d(1) by (simp add: encoder_add_def emit_instruction_eq)
  ultimately show ?thesis by fastforce
qed

lemma enc_inv_run:
  assumes inv: "enc_inv P bytes ready B base off st0 e hs out"
    and n: "n \<noteq> 0" "length out + unat n < 2 ^ 64"
  shows "\<exists>e'. encoder_run e n b = (Ok e' :: (_, 'e) res) \<and> source_window e' = source_window e
     \<and> emit_checksum e' = emit_checksum e
     \<and> (\<exists>hs'. enc_inv P bytes ready B base off st0 e' hs' (out @ replicate (unat n) b))"
proof -
  let ?i = "\<lparr> itype = XD3_RUN, isize = n \<rparr>"
  let ?e1 = "e\<lparr> data_section := data_section e @ [b] \<rparr>"
  let ?e2 = "(emitted ?e1 ?i)\<lparr> target_len := target_len e + ucast n \<rparr>"
  have tl: "unat (target_len e) = length out" using inv by (simp add: enc_inv_def)
  have "enc_inv P bytes ready B base off st0 ?e2 (hs @ [half ?i]) (out @ replicate (unat n) b)"
  proof (rule enc_inv_emit [OF inv, where dd = "[b]" and aa = "[]" and c = "acache e"])
    show "unat (target_len e + ucast n) = length (out @ replicate (unat n) b)"
      using n(2) tl by (subst unat_add_no_wrap) simp_all
    show "\<exists>st'. exec_half P (data_section e @ [b] @ x) (addr_section e @ [] @ a) (window_base e) off (length base) (half ?i) st
        = Ok st' \<and> tracks bytes ready B base ?e2 (out @ replicate (unat n) b) st'"
      if "tracks bytes ready B base e out st" for x a st
      using that by (simp add: exec_half_def half_def exec_sized_def exec_run_def Let_def tracks_def)
    show "length [b] + length ([] :: byte list) + 6 + 17 * length out \<le> 17 * length (out @ replicate (unat n) b)"
      using n(1) unat_gt_0 [of n] by simp
  qed (use inv n(1) in \<open>auto simp: enc_inv_def valid_info_def word_gt_0\<close>)
  moreover have "encoder_run e n b = (Ok ?e2 :: (_, 'e) res)"
    using n(1) by (simp add: encoder_run_def emit_instruction_eq)
  ultimately show ?thesis by fastforce
qed

lemma exec_copy_valid:
  assumes st: "bytes (d_source st) = B" "ready (d_source st)" "d_output st = base @ out" "unat (target_pos st) = length out"
    and n: "n \<noteq> 0" "length S + length out + unat n < 2 ^ 64"
    and S: "S = take (length S) (drop (unat off) B)" "S \<noteq> [] \<longrightarrow> unat off + length S \<le> length B" "length B < 2 ^ 64"
    and v: "valid_op S (OCopy n a) out"
    and dec: "addr_pos st \<le> length as" "AddressCache_decode (d_acache st) m (drop (addr_pos st) as) (of_nat (length S) + target_pos st)
         = Ok (c, a, k)"
  shows "\<exists>s cb. exec_copy P as (of_nat (length S)) off (length base) m n st
     = Ok (st\<lparr> d_acache := c, addr_pos := addr_pos st + k, d_source := s, copy_buf := cb,
               d_output := base @ apply_op S (OCopy n a) out, target_pos := target_pos st + ucast n \<rparr>)
     \<and> bytes s = B \<and> ready s"
proof -
  let ?st = "st\<lparr> d_acache := c, addr_pos := addr_pos st + k \<rparr>"
  have len: "unat (of_nat (length S) :: u64) = length S" using n(2) by (intro unat_of_nat_id) simp
  have lt: "a < of_nat (length S) \<longleftrightarrow> unat a < length S" using len by (simp add: word_less_nat_alt)
  show ?thesis
  proof (cases "unat a < length S")
    case True
    with v have fit: "unat a + unat n \<le> length S" by auto
    have "unat (a + ucast n) = unat a + unat n" using fit n(2) by (subst unat_add_no_wrap) simp_all
    then have guard: "\<not> of_nat (length S) < a + ucast n" using fit len by (simp add: word_less_nat_alt)
    from True S(2) have "unat off + length S \<le> length B" by auto
    then have off: "unat (off + a) = unat off + unat a" using True S(3) by (subst unat_add_no_wrap) simp_all
    have "take (unat n) (drop (unat a) (take (length S) (drop (unat off) B))) = take (unat n) (drop (unat off + unat a) B)"
      using fit by (simp add: drop_take add.commute min_def)
    then have sl: "take (unat n) (drop (unat off + unat a) B) = take (unat n) (drop (unat a) S)"
      using S(1) by simp
    obtain s cb where "source_copy P (off + a) (unat n) ?st
        = Ok (?st\<lparr> d_source := s, copy_buf := cb, d_output := base @ out @ take (unat n) (drop (unat a) S) \<rparr>)"
        "bytes s = B" "ready s"
      using source_copy_delivers [of ?st "off + a" "unat n"] st(1-3) fit off \<open>unat off + length S \<le> length B\<close>
      by (auto simp: sl)
    then show ?thesis using dec True lt guard
      by (intro exI [of _ s] exI [of _ cb]) (simp add: exec_copy_def Let_def)
  next
    case False
    have "0 < unat n" using n(1) by (simp add: unat_gt_0)
    with False v have a: "length S \<le> unat a" "unat a < length S + length out" by auto
    have "unat (a - of_nat (length S)) = unat a - length S"
      using len a(1) by (subst unat_sub_no_wrap) (simp_all add: word_le_nat_alt)
    moreover have "target_copy (length base + (unat a - length S)) (unat n) ?st
        = Ok (?st\<lparr> d_output := base @ self_copy (unat n) (unat a - length S) out \<rparr>)"
      using a st(3) self_copy_base [of "unat a - length S" out "unat n" base] by (subst target_copy_eq) auto
    ultimately show ?thesis using dec False lt st
      by (intro exI [of _ "d_source st"] exI [of _ "copy_buf st"]) (simp add: exec_copy_def Let_def)
  qed
qed

lemma enc_inv_copy:
  assumes inv: "enc_inv P bytes ready B base off st0 e hs out"
    and n: "n \<noteq> 0" "length S + length out + unat n < 2 ^ 64"
    and w: "window_base e = of_nat (length S)"
    and S: "S = take (length S) (drop (unat off) B)" "S \<noteq> [] \<longrightarrow> unat off + length S \<le> length B" "length B < 2 ^ 64"
    and v: "valid_op S (OCopy n a) out"
  shows "\<exists>e'. copy_with_auto_mode e n a = (Ok e' :: (_, 'e) res) \<and> source_window e' = source_window e
     \<and> emit_checksum e' = emit_checksum e
     \<and> (\<exists>hs'. enc_inv P bytes ready B base off st0 e' hs' (apply_op S (OCopy n a) out))"
proof -
  have c: "default_cache (acache e)" and tl: "unat (target_len e) = length out" using inv by (auto simp: enc_inv_def)
  obtain c' m ea where enc: "AddressCache_encode (acache e) a (encoder_here e) = (Ok (c', m, ea) :: (_, 'e) res)"
    using AddressCache_encode_cases [OF default_cache_ok [OF c], of a "encoder_here e", where 'a = 'e] by blast
  have here: "encoder_here e = of_nat (length S) + target_len e"
    using w by (simp add: encoder_here_def window_base_def)
  have "unat (of_nat (length S) :: u64) = length S" using n(2) by (intro unat_of_nat_id) simp
  then have "unat (encoder_here e) = length S + length out"
    using n(2) tl unfolding here by (subst unat_add_no_wrap) simp_all
  moreover have "unat a < length S + length out"
    using v n(1) unat_gt_0 [of n] by auto
  ultimately have lt: "a < encoder_here e" by (simp add: word_less_nat_alt)
  note dec = AddressCache_decode_encode [OF default_cache_ok [OF c] lt enc]
  have c': "default_cache c'" and m: "unat m < 9" using default_cache_encode [OF c enc] by auto
  let ?i = "\<lparr> itype = XD3_CPY + m, isize = n \<rparr>"
  let ?e1 = "e\<lparr> acache := c', addr_section := addr_section e @ as_bytes ea \<rparr>"
  let ?e2 = "(emitted ?e1 ?i)\<lparr> target_len := target_len e + ucast n \<rparr>"
  have t: "XD3_CPY + m = of_nat (3 + unat m)" by (simp add: XD3_CPY_def)
  note ty = cpy_type [OF m t]
  have "enc_inv P bytes ready B base off st0 ?e2 (hs @ [half ?i]) (apply_op S (OCopy n a) out)"
  proof (rule enc_inv_emit [OF inv, where dd = "[]" and aa = "as_bytes ea" and c = c'])
    show "unat (target_len e + ucast n) = length (apply_op S (OCopy n a) out)"
      using n(2) tl v by (subst unat_add_no_wrap) auto
    show "\<exists>st'. exec_half P (data_section e @ [] @ x) (addr_section e @ as_bytes ea @ y) (window_base e) off (length base) (half ?i) st
        = Ok st' \<and> tracks bytes ready B base ?e2 (apply_op S (OCopy n a) out) st'"
      if tr: "tracks bytes ready B base e out st" for x y st
    proof -
      have "\<exists>s cb. exec_copy P (addr_section e @ as_bytes ea @ y) (of_nat (length S)) off (length base) m n st
        = Ok (st\<lparr> d_acache := c', addr_pos := addr_pos st + length (as_bytes ea), d_source := s, copy_buf := cb,
               d_output := base @ apply_op S (OCopy n a) out, target_pos := target_pos st + ucast n \<rparr>)
        \<and> bytes s = B \<and> ready s"
        using tr dec [of y] tl unfolding tracks_def here
        by (intro exec_copy_valid [OF _ _ _ _ n S v]) simp_all
      then obtain s cb where ex: "exec_copy P (addr_section e @ as_bytes ea @ y) (of_nat (length S)) off (length base) m n st
        = Ok (st\<lparr> d_acache := c', addr_pos := addr_pos st + length (as_bytes ea), d_source := s, copy_buf := cb,
               d_output := base @ apply_op S (OCopy n a) out, target_pos := target_pos st + ucast n \<rparr>)"
        "bytes s = B" "ready s" by blast
      then show ?thesis using tr ty w
        by (simp add: exec_half_def half_def exec_sized_def tracks_def del: apply_op.simps)
    qed
    show "length ([] :: byte list) + length (as_bytes ea) + 6 + 17 * length out \<le> 17 * length (apply_op S (OCopy n a) out)"
      using v n(1) unat_gt_0 [of n] encoded_addr_length [OF default_cache_ok [OF c] enc] by auto
  qed (use ty c' n(1) m in \<open>auto simp: valid_info_def\<close>)
  moreover have "copy_with_auto_mode e n a = (Ok ?e2 :: (_, 'e) res)"
    using n(1) enc by (simp add: copy_with_auto_mode_def encoder_copy_def emit_instruction_eq write_to_as_bytes Let_def)
  ultimately show ?thesis by fastforce
qed

lemma enc_inv_op:
  assumes inv: "enc_inv P bytes ready B base off st0 e hs out"
    and w: "window_base e = of_nat (length S)"
    and S: "S = take (length S) (drop (unat off) B)" "S \<noteq> [] \<longrightarrow> unat off + length S \<le> length B" "length B < 2 ^ 64"
    and v: "valid_op S x out" and len: "length S + length (apply_op S x out) < 2 ^ 64"
  shows "\<exists>e'. enc_op x e = (Ok e' :: (_, 'e) res) \<and> source_window e' = source_window e
     \<and> emit_checksum e' = emit_checksum e
     \<and> (\<exists>hs'. enc_inv P bytes ready B base off st0 e' hs' (apply_op S x out))"
proof (cases x)
  case (OAdd d)
  show ?thesis
  proof (cases "d = []")
    case True
    then show ?thesis using inv OAdd by (auto simp: encoder_add_def)
  next
    case False
    with enc_inv_add [OF inv False] v len OAdd show ?thesis by simp
  qed
next
  case (OCopy n a)
  show ?thesis
  proof (cases "n = 0")
    case True
    then show ?thesis using inv OCopy by (auto simp: copy_with_auto_mode_def encoder_copy_def)
  next
    case False
    have "length S + length out + unat n < 2 ^ 64" using len v OCopy by (auto split: if_splits)
    from enc_inv_copy [OF inv False this w S v [unfolded OCopy], where 'e = 'e] show ?thesis
      by (simp add: OCopy del: apply_op.simps)
  qed
next
  case (ORun n b)
  show ?thesis
  proof (cases "n = 0")
    case True
    then show ?thesis using inv ORun by (auto simp: encoder_run_def)
  next
    case False
    with enc_inv_run [OF inv False] len ORun show ?thesis by simp
  qed
qed

lemma enc_inv_ops:
  assumes "enc_inv P bytes ready B base off st0 e hs out"
    and "window_base e = of_nat (length S)"
    and "S = take (length S) (drop (unat off) B)" "S \<noteq> [] \<longrightarrow> unat off + length S \<le> length B" "length B < 2 ^ 64"
    and "valid_ops S xs out" and "length S + length (apply_ops S xs out) < 2 ^ 64"
  shows "\<exists>e'. for_each enc_op xs e = (Ok e' :: (_, 'e) res) \<and> source_window e' = source_window e
     \<and> emit_checksum e' = emit_checksum e
     \<and> (\<exists>hs'. enc_inv P bytes ready B base off st0 e' hs' (apply_ops S xs out))"
  using assms(1,2,6,7)
proof (induction xs arbitrary: e hs out)
  case (Cons x xs)
  have "length S + length (apply_op S x out) < 2 ^ 64"
    using Cons.prems(4) length_apply_ops [where out = "apply_op S x out" and S = S and xs = xs] by simp
  with Cons.prems obtain e1 hs1 where 1: "enc_op x e = (Ok e1 :: (_, 'e) res)" "source_window e1 = source_window e"
      "emit_checksum e1 = emit_checksum e" "enc_inv P bytes ready B base off st0 e1 hs1 (apply_op S x out)"
    using enc_inv_op [OF Cons.prems(1,2) assms(3-5), of x, where 'e = 'e] by auto
  have "window_base e1 = of_nat (length S)" using 1(2) Cons.prems(2) by (simp add: window_base_def)
  from Cons.IH [OF 1(4) this] Cons.prems(3,4) 1(1-3) show ?case by simp
qed auto

text \<open>
  A window written by the encoder from valid operations is decoded to what the operations
  mean, after whatever output already exists.
\<close>

lemma window_decodes:
  assumes ops: "valid_ops S xs []" "length S + length (apply_ops S xs []) < 2 ^ 64"
    and S: "S = take (length S) (drop (unat off) B)" "S \<noteq> [] \<longrightarrow> unat off + length S \<le> length B" "length B < 2 ^ 64"
    and sw: "window_base (WindowEncoder_new sw chk) = of_nat (length S)"
    and src: "bytes src = B" "ready src" and cache: "default_cache cache"
  shows "\<exists>e. for_each enc_op xs (WindowEncoder_new sw chk) = (Ok e :: (_, 'e) res)
     \<and> source_window e = sw \<and> emit_checksum e = chk \<and> unat (target_len e) = length (apply_ops S xs [])
     \<and> sec_size e \<le> 17 * length (apply_ops S xs [])
     \<and> (\<forall>h. copy_window_len h = of_nat (length S) \<and> copy_window_offset h = off
          \<and> target_window_len h = target_len e
          \<and> (\<forall>c. wh_adler32 h = Some c \<longrightarrow> c = adler (apply_ops S xs []))
          \<and> length base + length (apply_ops S xs []) < 2 ^ 63 \<longrightarrow>
        (\<exists>st. decode_window_with_cache adler P h
           \<lparr> s_data = data_section (flushed e), s_inst = inst_section (flushed e), s_addr = addr_section (flushed e) \<rparr>
           src verify cbuf base cache = Ok st
         \<and> d_output st = base @ apply_ops S xs [] \<and> bytes (d_source st) = B \<and> ready (d_source st)
         \<and> default_cache (d_acache st)))"
proof -
  let ?T = "apply_ops S xs []"
  let ?st0 = "\<lparr> inst_pos = 0, data_pos = 0, addr_pos = 0, d_acache = AddressCache_init cache,
                 target_pos = 0, d_output = base, d_source = src, copy_buf = cbuf \<rparr>"
  have "enc_inv P bytes ready B base off ?st0 (WindowEncoder_new sw chk) [] []"
    using src cache by (simp add: enc_inv_def WindowEncoder_new_def holds_insts_def tracks_def cache_init_eq_new sec_size_def)
  from enc_inv_ops [OF this sw S ops, where 'e = 'e] obtain e hs where
    e: "for_each enc_op xs (WindowEncoder_new sw chk) = (Ok e :: (_, 'e) res)"
      "source_window e = sw" "emit_checksum e = chk" and inv: "enc_inv P bytes ready B base off ?st0 e hs ?T"
    by (auto simp: WindowEncoder_new_def)
  have w: "window_base e = of_nat (length S)" using sw e(2) by (simp add: window_base_def WindowEncoder_new_def)
  have tl: "unat (target_len e) = length ?T" using inv by (simp add: enc_inv_def)
  let ?secs = "\<lparr> s_data = data_section (flushed e), s_inst = inst_section (flushed e), s_addr = addr_section (flushed e) \<rparr>"
  have "\<forall>d a. \<exists>st. for_each (exec_half P (data_section e @ d) (addr_section e @ a) (window_base e) off (length base)) hs ?st0
        = Ok st \<and> tracks bytes ready B base e ?T st" using inv by (simp add: enc_inv_def)
  from this [rule_format, of "[]" "[]"] obtain st where
    st: "for_each (exec_half P (data_section e) (addr_section e) (of_nat (length S)) off (length base)) hs ?st0 = Ok st"
      "tracks bytes ready B base e ?T st" unfolding w by auto
  have "inst_stream (inst_section (flushed e)) hs"
    using inv holds_insts_flushed by (auto simp: enc_inv_def)
  then have run: "decode_insts P ?secs (of_nat (length S)) off (length base) ?st0
      = Ok (st\<lparr> inst_pos := length (inst_section (flushed e)) \<rparr>)"
    using decode_insts_stream [of ?secs hs ?st0] st(1) by simp
  have tgt: "of_nat (length ?T) = target_len e" unfolding tl [symmetric] by simp
  show ?thesis
    using e tl inv st(2) run tgt
    by (intro exI [of _ e]) (auto simp: decode_window_with_cache_def vec_reserve_eq Let_def tracks_def enc_inv_def split: option.split)
qed

end

lemma assemble_header_fields [simp]:
  "copy_window_len (assemble_header s del) = (case ws_source_window s of Some w \<Rightarrow> sw_len w | None \<Rightarrow> 0)"
  "copy_window_offset (assemble_header s del) = (case ws_source_window s of Some w \<Rightarrow> sw_offset w | None \<Rightarrow> 0)"
  "target_window_len (assemble_header s del) = ws_target_len s" "del_ind (assemble_header s del) = del"
  "data_len (assemble_header s del) = of_nat (length (ws_data s))"
  "inst_len (assemble_header s del) = of_nat (length (ws_inst s))"
  "addr_len (assemble_header s del) = of_nat (length (ws_addr s))"
  "wh_adler32 (assemble_header s del) = ws_checksum s"
  by (simp_all add: assemble_header_def Let_def)

section \<open>Properties\<close>

text \<open>
  C3: A window round-trips. For every valid sequence of ADD, COPY and RUN operations over a source
  window \<open>S\<close> (a range of the source file \<open>B\<close>), the window encoder queues and packs them without a
  panic, and the window decoder, run on the three sections it produced and on the header it
  assembled, with checksum verification on or off, reconstructs exactly the bytes the operations
  denote, with overlapping self-copies read byte by byte.
\<close>

theorem window_roundtrip:
  assumes "valid_ops S xs []" and "length S + length (apply_ops S xs []) < 2 ^ 63"
    and "length B < 2 ^ 63" and "unat off + length S \<le> length B" and "S = take (length S) (drop (unat off) B)"
  shows "\<exists>e ws src cb.
     for_each enc_op xs (WindowEncoder_new (Some \<lparr> sw_len = of_nat (length S), sw_offset = off \<rparr>) chk)
       = (Ok e :: (_, DecodeError) res)
     \<and> finish_sections adler e (Some (apply_ops S xs [])) = (Ok ws :: (_, DecodeError) res)
     \<and> decode_window adler slice_provider (assemble_header ws 0) (ws_data ws) (ws_inst ws) (ws_addr ws) B verify []
       = Ok (apply_ops S xs [], src, cb)"
proof -
  let ?T = "apply_ops S xs []" and ?sw = "Some \<lparr> sw_len = of_nat (length S), sw_offset = off \<rparr>"
  have len: "length S + length ?T < 2 ^ 64" "length B < 2 ^ 64" using assms(2,3) by simp_all
  have "window_base (WindowEncoder_new ?sw chk) = of_nat (length S)"
    by (simp add: window_base_def WindowEncoder_new_def)
  from slice.window_decodes [OF assms(1) len(1) assms(5) _ len(2) this refl len(2) default_cache_new,
      where 'e = DecodeError and adler = adler and verify = verify and cbuf = "[]" and base = "[]"] assms(4)
  obtain e where e: "for_each enc_op xs (WindowEncoder_new ?sw chk) = (Ok e :: (_, DecodeError) res)"
    "source_window e = ?sw" "emit_checksum e = chk" "unat (target_len e) = length ?T" and
    dec: "\<And>h. copy_window_len h = of_nat (length S) \<and> copy_window_offset h = off
          \<and> target_window_len h = target_len e \<and> (\<forall>c. wh_adler32 h = Some c \<longrightarrow> c = adler ?T) \<and> length ([] :: byte list) + length ?T < 2 ^ 63 \<Longrightarrow>
        \<exists>st. decode_window_with_cache adler slice_provider h
           \<lparr> s_data = data_section (flushed e), s_inst = inst_section (flushed e), s_addr = addr_section (flushed e) \<rparr>
           B verify [] [] AddressCache_new = Ok st \<and> d_output st = [] @ ?T"
    by blast
  let ?ws = "\<lparr> ws_source_window = source_window e, ws_target_len = target_len e,
      ws_checksum = (if chk then Some (adler ?T) else None), ws_data = data_section (flushed e),
      ws_inst = inst_section (flushed e), ws_addr = addr_section (flushed e) \<rparr>"
  have fin: "finish_sections adler e (Some ?T) = (Ok ?ws :: (_, DecodeError) res)"
    using e(3) by (simp add: finish_sections_def flush_pending_eq Let_def)
  have "unat (target_len e) < 2 ^ 63" using e(4) assms(2) by simp
  moreover obtain st where "decode_window_with_cache adler slice_provider (assemble_header ?ws 0)
      \<lparr> s_data = data_section (flushed e), s_inst = inst_section (flushed e), s_addr = addr_section (flushed e) \<rparr>
      B verify [] [] AddressCache_new = Ok st \<and> d_output st = ?T"
    using dec [of "assemble_header ?ws 0"] e(2) assms(2) by (cases chk) auto
  ultimately have "decode_window adler slice_provider (assemble_header ?ws 0) (ws_data ?ws) (ws_inst ?ws) (ws_addr ?ws) B verify []
      = Ok (?T, d_source st, copy_buf st)"
    by (simp add: decode_window_def decode_window_into_def)
  with e(1) fin show ?thesis by blast
qed

theorem window_roundtrip_witness:
  "\<exists>e ws src cb.
     for_each enc_op [OAdd [1, 2], OCopy 4 1, ORun 9 7, OCopy 6 8]
         (WindowEncoder_new (Some \<lparr> sw_len = 6, sw_offset = 1 \<rparr>) True) = (Ok e :: (_, DecodeError) res)
     \<and> finish_sections adler32_simple e (Some ([1, 2, 12, 13, 14, 15] @ replicate 9 7 @ [12, 13, 14, 15, 7, 7]))
         = (Ok ws :: (_, DecodeError) res)
     \<and> decode_window adler32_simple slice_provider (assemble_header ws 0) (ws_data ws) (ws_inst ws) (ws_addr ws)
         [10, 11, 12, 13, 14, 15, 16, 17] True []
       = Ok ([1, 2, 12, 13, 14, 15] @ replicate 9 7 @ [12, 13, 14, 15, 7, 7], src, cb)"
proof -
  let ?S = "[11, 12, 13, 14, 15, 16] :: byte list" and ?ops = "[OAdd [1, 2], OCopy 4 1, ORun 9 7, OCopy 6 8]"
  have T: "apply_ops ?S ?ops [] = [1, 2, 12, 13, 14, 15] @ replicate 9 7 @ [12, 13, 14, 15, 7, 7]" by code_simp
  have "valid_ops ?S ?ops []" by (simp add: nth_Cons')
  from window_roundtrip [OF this, of "[10, 11, 12, 13, 14, 15, 16, 17]" 1 True adler32_simple True]
  show ?thesis unfolding T by simp
qed

end
