(* ===== verification/Stream_Codec.thy ===== *)
theory Stream_Codec
  imports Window_Codec
begin

text \<open>
  Whole streams: what the stream encoder writes, a file header and then windows, against what
  the stream decoder's loop reads back.
\<close>

section \<open>Reading one window\<close>

lemma select_sections_eq:
  "select_sections cs sd del = map_ok (\<lambda>(d, i, a). \<lparr> s_data = d, s_inst = i, s_addr = a \<rparr>)
     (decompress_sections cs (data_buf sd) (inst_buf sd) (addr_buf sd) del (sd_secondary_id sd))"
  by (cases "decompress_sections cs (data_buf sd) (inst_buf sd) (addr_buf sd) del (sd_secondary_id sd)")
    (auto simp: select_sections_def decompress_sections_def split: if_splits)

lemma read_section_append [simp]:
  "length bs < 2 ^ 63 \<Longrightarrow> len = of_nat (length bs) \<Longrightarrow> read_section (bs @ r) len = Ok (bs, r)"
  by (simp add: read_section_def)

text \<open>A decoder that has read the file header of a stream with the secondary id \<open>sid\<close>.\<close>

definition in_stream :: "byte option \<Rightarrow> bool \<Rightarrow> StreamDecoder \<Rightarrow> bool" where
  "in_stream sid verify sd \<longleftrightarrow> sd_file_header sd \<noteq> None \<and> sd_secondary_id sd = sid
     \<and> sd_verify_checksum sd = verify \<and> default_cache (sd_acache sd)"

lemma stream_decode_window:
  assumes sd: "in_stream sid verify sd" "reader sd = window_header_bytes h @ d @ i @ a @ rest"
    and h: "window_header_ok h" "\<not> has_target h" "data_len h = of_nat (length d)"
      "inst_len h = of_nat (length i)" "addr_len h = of_nat (length a)"
    and len: "length d < 2 ^ 63" "length i < 2 ^ 63" "length a < 2 ^ 63"
    and dec: "decompress_sections cs d i a (del_ind h) sid = Ok (d', i', a')"
    and st: "decode_window_with_cache adler P h \<lparr> s_data = d', s_inst = i', s_addr = a' \<rparr> src verify
       (sd_copy_buf sd) out (sd_acache sd) = Ok st" "default_cache (d_acache st)"
  shows "\<exists>sd'. StreamDecoder_decode_window cs adler P sd src out = Ok (True, sd', d_source st, d_output st)
     \<and> reader sd' = rest \<and> in_stream sid verify sd'"
proof -
  have hdr: "read_header sd = Ok sd" using sd(1) by (auto simp: read_header_def in_stream_def)
  have wh: "WindowHeader_decode (reader sd) = Ok (Some h, d @ i @ a @ rest)"
    using WindowHeader_decode_bytes [OF h(1), of "d @ i @ a @ rest"] sd(2) by simp
  have nt: "win_ind h AND VCD_TARGET = 0" using h(2) by (simp add: has_target_def)
  let ?sd = "sd\<lparr> data_buf := d, inst_buf := i, addr_buf := a, reader := rest \<rparr>"
  have sel: "select_sections cs ?sd (del_ind h) = Ok \<lparr> s_data = d', s_inst = i', s_addr = a' \<rparr>"
    using dec sd(1) by (simp add: select_sections_eq in_stream_def)
  have v: "sd_verify_checksum sd = verify" using sd(1) by (simp add: in_stream_def)
  have "StreamDecoder_decode_window cs adler P sd src out
      = Ok (True, ?sd\<lparr> sd_copy_buf := copy_buf st, sd_acache := d_acache st \<rparr>, d_source st, d_output st)"
    unfolding StreamDecoder_decode_window_def hdr using wh nt h len sel st(1) v
    by (simp add: Let_def)
  with sd(1) st(2) show ?thesis by (auto simp: in_stream_def)
qed

section \<open>Reading all windows\<close>

text \<open>\<open>bs\<close> reads as \<open>T\<close>: in any stream position the decoder consumes exactly \<open>bs\<close> and appends \<open>T\<close>.\<close>

definition reads_as :: "Codecs \<Rightarrow> (byte list \<Rightarrow> u32) \<Rightarrow> 'p SourceProvider \<Rightarrow> ('p \<Rightarrow> byte list) \<Rightarrow> ('p \<Rightarrow> bool)
    \<Rightarrow> byte option \<Rightarrow> bool \<Rightarrow> byte list \<Rightarrow> byte list \<Rightarrow> byte list \<Rightarrow> bool" where
  "reads_as cs adler P bytes ready sid verify B bs T \<longleftrightarrow>
     (\<forall>sd rest src out. in_stream sid verify sd \<and> reader sd = bs @ rest \<and> bytes src = B \<and> ready src
          \<and> length out + length T < 2 ^ 63 \<longrightarrow>
        (\<exists>sd' src'. StreamDecoder_decode_window cs adler P sd src out = Ok (True, sd', src', out @ T)
           \<and> reader sd' = rest \<and> in_stream sid verify sd' \<and> bytes src' = B \<and> ready src'))"

lemma decode_all_windows:
  assumes "list_all2 (reads_as cs adler P bytes ready sid verify B) bss Ts"
    and "in_stream sid verify sd" "reader sd = concat bss" "bytes src = B" "ready src"
    and "length out + length (concat Ts) < 2 ^ 63"
  shows "\<exists>sd' src'. decode_all cs adler P sd src out = Ok (sd', src', out @ concat Ts) \<and> bytes src' = B \<and> ready src'"
  using assms
proof (induction bss Ts arbitrary: sd src out rule: list_all2_induct)
  case Nil
  then have "read_header sd = Ok sd" by (auto simp: in_stream_def read_header_def)
  with Nil have "StreamDecoder_decode_window cs adler P sd src out = Ok (False, sd, src, out)"
    by (simp add: StreamDecoder_decode_window_def WindowHeader_decode_None [THEN iffD2])
  with Nil show ?case by (subst decode_all.simps) simp
next
  case (Cons bs bss T Ts)
  have "length out + length T < 2 ^ 63" using Cons.prems(5) by simp
  with Cons.hyps(1) Cons.prems(1-4) obtain sd1 src1 where
    1: "StreamDecoder_decode_window cs adler P sd src out = Ok (True, sd1, src1, out @ T)"
      "reader sd1 = concat bss" "in_stream sid verify sd1" "bytes src1 = B" "ready src1"
    unfolding reads_as_def by fastforce
  from Cons.IH [OF 1(3,2,4,5), of "out @ T"] Cons.prems(5) 1(1) show ?case by (subst decode_all.simps) simp
qed

lemma decode_all_header:
  assumes "file_header_ok fh"
  shows "decode_all cs adler P (StreamDecoder_new (file_header_bytes fh @ bs) verify) src out
    = decode_all cs adler P ((StreamDecoder_new bs verify)
        \<lparr> sd_file_header := Some (file_header_canon fh), sd_secondary_id := secondary_id (file_header_canon fh) \<rparr>) src out"
    (is "decode_all _ _ _ ?sd _ _ = decode_all _ _ _ ?sd1 _ _")
proof -
  have "read_header ?sd = Ok ?sd1"
    using FileHeader_decode_bytes [OF assms, of bs] by (simp add: read_header_def StreamDecoder_new_def)
  moreover have "read_header ?sd1 = Ok ?sd1" by (simp add: read_header_def)
  ultimately have "StreamDecoder_decode_window cs adler P ?sd src out = StreamDecoder_decode_window cs adler P ?sd1 src out"
    by (simp add: StreamDecoder_decode_window_def)
  then show ?thesis by (simp add: decode_all.simps [of cs adler P ?sd] decode_all.simps [of cs adler P ?sd1])
qed

lemma decode_stream:
  assumes "list_all2 (reads_as cs adler P bytes ready (secondary_id (file_header_canon fh)) verify B) bss Ts"
    and "file_header_ok fh" "bytes src = B" "ready src" "length out + length (concat Ts) < 2 ^ 63"
  shows "\<exists>sd' src'. decode_all cs adler P (StreamDecoder_new (file_header_bytes fh @ concat bss) verify) src out
     = Ok (sd', src', out @ concat Ts) \<and> bytes src' = B \<and> ready src'"
  unfolding decode_all_header [OF assms(2)]
  by (rule decode_all_windows [OF assms(1) _ _ assms(3-5)]) (simp_all add: in_stream_def StreamDecoder_new_def)

section \<open>Writing one window\<close>

lemma assemble_eq:
  "assemble s del = Ok (window_header_bytes (assemble_header s del) @ ws_data s @ ws_inst s @ ws_addr s)"
  by (simp add: assemble_def WindowHeader_encode_eq)

lemma assemble_header_flags:
  "has_source (assemble_header s del) \<longleftrightarrow> ws_source_window s \<noteq> None"
  "\<not> has_target (assemble_header s del)"
  "has_checksum (assemble_header s del) \<longleftrightarrow> ws_checksum s \<noteq> None"
  "win_ind (assemble_header s del) AND VCD_INVWIN = 0"
  by (cases "ws_source_window s"; cases "ws_checksum s";
      simp add: assemble_header_def Let_def has_source_def has_target_def has_checksum_def
        VCD_SOURCE_def VCD_TARGET_def VCD_ADLER32_def VCD_INVWIN_def)+

lemma assemble_header_enc_len:
  "enc_len (assemble_header s del) = compute_enc_len (assemble_header s del)"
  by (simp add: assemble_header_def Let_def compute_enc_len_def has_checksum_def)

lemma assemble_header_ok:
  assumes "ws_target_len s \<le> HARD_MAX_WINSIZE" and "del AND VCD_INVDEL = 0"
  shows "window_header_ok (assemble_header s del)"
  using assms assemble_header_flags [of s del]
  by (auto simp: window_header_ok_def assemble_header_enc_len)

text \<open>
  A window whose sections were written from valid operations, compressed or not, reads as what
  the operations denote. \<open>repack\<close> is the step between the raw and the stored sections.
\<close>

definition source_window_for :: "byte list \<Rightarrow> u64 \<Rightarrow> SourceWindow option \<Rightarrow> bool" where
  "source_window_for S off sw \<longleftrightarrow>
     sw = Some \<lparr> sw_len = of_nat (length S), sw_offset = off \<rparr> \<or> sw = None \<and> S = [] \<and> off = 0"

definition repack :: "Codecs \<Rightarrow> byte option \<Rightarrow> WindowSections \<Rightarrow> WindowSections \<Rightarrow> byte \<Rightarrow> bool" where
  "repack cs sid ws ws' del \<longleftrightarrow>
     ws_source_window ws' = ws_source_window ws \<and> ws_target_len ws' = ws_target_len ws
     \<and> ws_checksum ws' = ws_checksum ws \<and> del AND VCD_INVDEL = 0
     \<and> length (ws_data ws') \<le> length (ws_data ws) \<and> length (ws_inst ws') \<le> length (ws_inst ws)
     \<and> length (ws_addr ws') \<le> length (ws_addr ws)
     \<and> decompress_sections cs (ws_data ws') (ws_inst ws') (ws_addr ws') del sid
         = Ok (ws_data ws, ws_inst ws, ws_addr ws)"

lemma repack_refl: "repack cs sid ws ws 0"
  by (simp add: repack_def decompress_sections_def)

context source_provider
begin

text \<open>One window decoder for all contexts: the encoder's result does not depend on where the window is read.\<close>

lemma window_encoded:
  assumes ops: "valid_ops S xs []" "length (apply_ops S xs []) \<le> 2 ^ 24" "length S < 2 ^ 63"
    and S: "S = take (length S) (drop (unat off) B)" "S \<noteq> [] \<longrightarrow> unat off + length S \<le> length B" "length B < 2 ^ 63"
    and sw: "source_window_for S off sw"
  shows "\<exists>e. for_each enc_op xs (WindowEncoder_new sw chk) = (Ok e :: (_, 'e) res) \<and> source_window e = sw \<and> emit_checksum e = chk
    \<and> target_len e \<le> HARD_MAX_WINSIZE \<and> sec_size e < 2 ^ 62
    \<and> (\<forall>h src cbuf out cache. copy_window_len h = of_nat (length S) \<and> copy_window_offset h = off \<and> target_window_len h = target_len e
          \<and> (\<forall>c. wh_adler32 h = Some c \<longrightarrow> c = adler (apply_ops S xs [])) \<and> bytes src = B \<and> ready src \<and> default_cache cache
          \<and> length out + length (apply_ops S xs []) < 2 ^ 63 \<longrightarrow>
        (\<exists>st. decode_window_with_cache adler P h
           \<lparr> s_data = data_section (flushed e), s_inst = inst_section (flushed e), s_addr = addr_section (flushed e) \<rparr>
           src verify cbuf out cache = Ok st
         \<and> d_output st = out @ apply_ops S xs [] \<and> bytes (d_source st) = B \<and> ready (d_source st) \<and> default_cache (d_acache st)))"
proof -
  have len: "length S + length (apply_ops S xs []) < 2 ^ 64" "length B < 2 ^ 64" using ops(2,3) S(3) by simp_all
  have w: "window_base (WindowEncoder_new sw chk) = of_nat (length S)"
    using sw by (auto simp: window_base_def WindowEncoder_new_def source_window_for_def)
  obtain e where e: "for_each enc_op xs (WindowEncoder_new sw chk) = (Ok e :: (_, 'e) res)"
    "source_window e = sw" "emit_checksum e = chk" "unat (target_len e) = length (apply_ops S xs [])"
    "sec_size e \<le> 17 * length (apply_ops S xs [])"
    using slice.window_decodes [OF ops(1) len(1) S(1,2) len(2) w refl len(2) default_cache_new, where 'e = 'e] by blast
  have "target_len e \<le> HARD_MAX_WINSIZE" "sec_size e < 2 ^ 62"
    using e(4,5) ops(2) by (simp_all add: word_le_nat_alt HARD_MAX_WINSIZE_def)
  with e window_decodes [OF ops(1) len(1) S(1,2) len(2) w, where 'e = 'e and adler = adler and verify = verify] show ?thesis
    by (intro exI [of _ e]) fastforce
qed

lemma window_reads_as:
  assumes ops: "valid_ops S xs []" "length (apply_ops S xs []) \<le> 2 ^ 24" "length S < 2 ^ 63"
    and S: "S = take (length S) (drop (unat off) B)" "S \<noteq> [] \<longrightarrow> unat off + length S \<le> length B" "length B < 2 ^ 63"
    and sw: "source_window_for S off sw"
  shows "\<exists>e ws. for_each enc_op xs (WindowEncoder_new sw chk) = (Ok e :: (_, 'e) res)
     \<and> finish_sections adler e (Some (apply_ops S xs [])) = (Ok ws :: (_, 'f) res)
     \<and> (\<forall>ws' del. repack cs sid ws ws' del \<longrightarrow> reads_as cs adler P bytes ready sid verify B
          (window_header_bytes (assemble_header ws' del) @ ws_data ws' @ ws_inst ws' @ ws_addr ws') (apply_ops S xs []))"
proof -
  let ?T = "apply_ops S xs []"
  obtain e where e: "for_each enc_op xs (WindowEncoder_new sw chk) = (Ok e :: (_, 'e) res)"
      "source_window e = sw" "emit_checksum e = chk" "target_len e \<le> HARD_MAX_WINSIZE" "sec_size e < 2 ^ 62"
    and dec: "\<And>h src cbuf out cache. copy_window_len h = of_nat (length S) \<Longrightarrow> copy_window_offset h = off
      \<Longrightarrow> target_window_len h = target_len e \<Longrightarrow> (\<forall>c. wh_adler32 h = Some c \<longrightarrow> c = adler ?T) \<Longrightarrow> bytes src = B \<Longrightarrow> ready src
      \<Longrightarrow> default_cache cache \<Longrightarrow> length out + length ?T < 2 ^ 63 \<Longrightarrow> \<exists>st. decode_window_with_cache adler P h
           \<lparr> s_data = data_section (flushed e), s_inst = inst_section (flushed e), s_addr = addr_section (flushed e) \<rparr>
           src verify cbuf out cache = Ok st
         \<and> d_output st = out @ ?T \<and> bytes (d_source st) = B \<and> ready (d_source st) \<and> default_cache (d_acache st)"
    using window_encoded [OF assms, where 'e = 'e and chk = chk and adler = adler and verify = verify]
    by (elim exE conjE) (rule that, assumption+, blast)
  let ?ws = "\<lparr> ws_source_window = sw, ws_target_len = target_len e,
      ws_checksum = (if chk then Some (adler ?T) else None), ws_data = data_section (flushed e),
      ws_inst = inst_section (flushed e), ws_addr = addr_section (flushed e) \<rparr>"
  have "reads_as cs adler P bytes ready sid verify B
      (window_header_bytes (assemble_header ws' del) @ ws_data ws' @ ws_inst ws' @ ws_addr ws') ?T"
    if rp: "repack cs sid ?ws ws' del" for ws' del
    unfolding reads_as_def
  proof (intro allI impI, elim conjE)
    fix sd rest src and out :: "byte list"
    assume sd: "in_stream sid verify sd" and src: "bytes src = B" "ready src" and room: "length out + length ?T < 2 ^ 63"
      and r: "reader sd = (window_header_bytes (assemble_header ws' del) @ ws_data ws' @ ws_inst ws' @ ws_addr ws') @ rest"
    let ?h = "assemble_header ws' del"
    have cache: "default_cache (sd_acache sd)" using sd by (simp add: in_stream_def)
    have hd: "copy_window_len ?h = of_nat (length S)" "copy_window_offset ?h = off" "target_window_len ?h = target_len e"
        "\<forall>c. wh_adler32 ?h = Some c \<longrightarrow> c = adler ?T"
      using rp sw by (cases chk; auto simp: repack_def source_window_for_def)+
    have lens: "length (ws_data ws') < 2 ^ 63" "length (ws_inst ws') < 2 ^ 63" "length (ws_addr ws') < 2 ^ 63"
      and dc: "decompress_sections cs (ws_data ws') (ws_inst ws') (ws_addr ws') (del_ind ?h) sid
        = Ok (data_section (flushed e), inst_section (flushed e), addr_section (flushed e))"
      using rp sec_size_flushed [of e] e(5) by (auto simp: repack_def)
    have ok: "window_header_ok ?h" using rp e(4) by (intro assemble_header_ok) (auto simp: repack_def)
    from dec [OF hd src cache room, of "sd_copy_buf sd"] obtain st where st: "decode_window_with_cache adler P ?h
        \<lparr> s_data = data_section (flushed e), s_inst = inst_section (flushed e), s_addr = addr_section (flushed e) \<rparr>
        src verify (sd_copy_buf sd) out (sd_acache sd) = Ok st"
        "d_output st = out @ ?T" "bytes (d_source st) = B" "ready (d_source st)" "default_cache (d_acache st)" by blast
    from stream_decode_window [OF sd _ ok assemble_header_flags(2) _ _ _ lens dc st(1,5)] r st
    show "\<exists>sd' src'. StreamDecoder_decode_window cs adler P sd src out = Ok (True, sd', src', out @ ?T)
        \<and> reader sd' = rest \<and> in_stream sid verify sd' \<and> bytes src' = B \<and> ready src'"
      by auto
  qed
  moreover have "finish_sections adler e (Some ?T) = (Ok ?ws :: (_, 'f) res)"
    using e(2,3) by (simp add: finish_sections_def flush_pending_eq Let_def)
  ultimately show ?thesis using e(1) by blast
qed

end

end
