(* ===== verification/Engine.thy ===== *)
theory Engine
  imports Match_Scan Stream_Codec
begin

text \<open>
  The in-memory API of \<open>src/src/engine.rs\<close>: split the target into windows, find matches for each,
  encode them, write the stream; and decode it again. The loop over windows does not return when
  the window size is 0, so the encoder's result is an option: \<open>None\<close> is a call that never returns.
\<close>

section \<open>Definitions\<close>

record EncodeOptions =
  eo_level :: u32
  eo_window_size :: nat
  eo_checksum :: bool

definition EncodeOptions_default :: EncodeOptions where
  "EncodeOptions_default = \<lparr> eo_level = 6, eo_window_size = 2 ^ 23, eo_checksum = True \<rparr>"

definition find_matches_no_source :: "Cpu \<Rightarrow> MatcherConfig \<Rightarrow> byte list \<Rightarrow> (Instruction list, EncodeError) res" where
  "find_matches_no_source cpu config target =
     bindR (MatchEngine_new cpu config 0 (max (length target) 64)) (\<lambda>engine.
     bindR (find_matches engine target None) (\<lambda>(engine, insts). Ok insts))"

definition find_matches_with_source :: "Cpu \<Rightarrow> MatcherConfig \<Rightarrow> SourceData \<Rightarrow> byte list
    \<Rightarrow> (Instruction list, EncodeError) res" where
  "find_matches_with_source cpu config source target =
     (let src_len = sd_len source in
      bindR (MatchEngine_new cpu config src_len (max (length target) 64)) (\<lambda>engine.
      bindR (index_source engine source) (\<lambda>engine.
      bindR (find_matches engine target (Some source)) (\<lambda>(engine, insts). Ok insts))))"

fun emit_inst :: "byte list \<Rightarrow> Instruction \<Rightarrow> WindowEncoder \<times> nat \<Rightarrow> (WindowEncoder \<times> nat, EncodeError) res" where
  "emit_inst target (Add len) (we, pos) =
     bindR (slice_range target pos (pos + unat len)) (\<lambda>d.
     bindR (encoder_add we d) (\<lambda>we. Ok (we, pos + unat len)))"
| "emit_inst target (Copy len addr mode) (we, pos) =
     bindR (copy_with_auto_mode we len addr) (\<lambda>we. Ok (we, pos + unat len))"
| "emit_inst target (Run len) (we, pos) =
     bindR (index_at target pos) (\<lambda>b.
     bindR (encoder_run we len b) (\<lambda>we. Ok (we, pos + unat len)))"

definition emit_instructions :: "WindowEncoder \<Rightarrow> byte list \<Rightarrow> u64 \<Rightarrow> Instruction list
    \<Rightarrow> (WindowEncoder, EncodeError) res" where
  "emit_instructions we target source_len insts =
     bindR (for_each (emit_inst target) insts (we, 0)) (\<lambda>(we, pos). Ok we)"

definition source_window_of :: "byte list \<Rightarrow> SourceWindow option" where
  "source_window_of source =
     (if source \<noteq> [] then Some \<lparr> sw_len = of_nat (length source), sw_offset = 0 \<rparr> else None)"

text \<open>The body of the loop over windows.\<close>

definition engine_window :: "Cpu \<Rightarrow> (byte list \<Rightarrow> u32) \<Rightarrow> EncodeOptions \<Rightarrow> byte list \<Rightarrow> byte list \<Rightarrow> StreamEncoder
    \<Rightarrow> (StreamEncoder, EncodeError) res" where
  "engine_window cpu adler opts source win_target stream =
     (let config = config_for_level (eo_level opts) in
      bindR (if source = [] then find_matches_no_source cpu config win_target
             else find_matches_with_source cpu config (slice_data source) win_target) (\<lambda>insts.
      let we = WindowEncoder_new (source_window_of source) (eo_checksum opts) in
      bindR (emit_instructions we win_target (of_nat (length source)) insts) (\<lambda>we.
      write_window adler stream we (Some win_target))))"

partial_function (option) engine_windows :: "Cpu \<Rightarrow> (byte list \<Rightarrow> u32) \<Rightarrow> EncodeOptions \<Rightarrow> byte list \<Rightarrow> byte list
    \<Rightarrow> nat \<Rightarrow> StreamEncoder \<Rightarrow> (StreamEncoder, EncodeError) res option" where
  "engine_windows cpu adler opts source target target_offset stream =
     (if target_offset < length target then
        let win_end = min (target_offset + eo_window_size opts) (length target);
            win_target = take (win_end - target_offset) (drop target_offset target) in
        (case engine_window cpu adler opts source win_target stream of
           Ok stream \<Rightarrow> engine_windows cpu adler opts source target win_end stream
         | Err e \<Rightarrow> Some (Err e)
         | Panic \<Rightarrow> Some Panic)
      else Some (Ok stream))"

definition engine_finish :: "(byte list \<Rightarrow> u32) \<Rightarrow> EncodeOptions \<Rightarrow> byte list \<Rightarrow> StreamEncoder
    \<Rightarrow> (byte list, EncodeError) res" where
  "engine_finish adler opts target stream =
     bindR (if target = [] then write_window adler stream (WindowEncoder_new None (eo_checksum opts)) (Some [])
            else Ok stream) stream_finish"

definition encode_with_options :: "Cpu \<Rightarrow> (byte list \<Rightarrow> u32) \<Rightarrow> byte list \<Rightarrow> byte list \<Rightarrow> byte list \<Rightarrow> EncodeOptions
    \<Rightarrow> (byte list, EncodeError) res option" where
  "encode_with_options cpu adler source target output opts =
     map_option (\<lambda>r. bindR r (engine_finish adler opts target))
       (engine_windows cpu adler opts source target 0 (StreamEncoder_new output (eo_checksum opts)))"

definition engine_encode :: "Cpu \<Rightarrow> (byte list \<Rightarrow> u32) \<Rightarrow> byte list \<Rightarrow> byte list \<Rightarrow> byte list
    \<Rightarrow> (byte list, EncodeError) res option" where
  "engine_encode cpu adler source target output =
     encode_with_options cpu adler source target output EncodeOptions_default"

definition engine_decode :: "Codecs \<Rightarrow> (byte list \<Rightarrow> u32) \<Rightarrow> byte list \<Rightarrow> byte list \<Rightarrow> (byte list, DecodeError) res" where
  "engine_decode cs adler source delta = decode_memory cs adler delta source"

section \<open>Instructions as operations\<close>

fun to_op :: "byte list \<Rightarrow> nat \<Rightarrow> Instruction \<Rightarrow> delta_op" where
  "to_op T p (Add n) = OAdd (take (unat n) (drop p T))"
| "to_op T p (Copy n a m) = OCopy n a"
| "to_op T p (Run n) = ORun n (T ! p)"

fun to_ops :: "byte list \<Rightarrow> nat \<Rightarrow> Instruction list \<Rightarrow> delta_op list" where
  "to_ops T p [] = []"
| "to_ops T p (i # is) = to_op T p i # to_ops T (p + inst_length i) is"

lemma emit_inst_op: "inst_ok S T p i \<Longrightarrow> emit_inst T i (e, p) = bindR (enc_op (to_op T p i) e) (\<lambda>e. Ok (e, p + inst_length i))"
  by (cases i) auto

lemma emit_insts_ops: "covers S T p is q \<Longrightarrow>
    for_each (emit_inst T) is (e, p) = bindR (for_each enc_op (to_ops T p is) e) (\<lambda>e. Ok (e, q))"
proof (induction "is" arbitrary: p e)
  case (Cons i "is")
  have "for_each (emit_inst T) is (e', p + inst_length i)
      = bindR (for_each enc_op (to_ops T (p + inst_length i) is) e') (\<lambda>e. Ok (e, q))" for e'
    using Cons by simp
  then show ?case using Cons.prems by (simp add: emit_inst_op [of S] bindR_assoc)
qed simp

lemma self_copy_take:
  "t < p \<Longrightarrow> agrees T t T p n \<Longrightarrow> self_copy n t (take p T) = take (p + n) T"
proof (induction n arbitrary: t p)
  case (Suc n)
  have p: "p < length T" "T ! t = T ! p" using Suc.prems(2) by (auto simp: agrees_def dest: spec [of _ 0])
  have "agrees T (Suc t) T (Suc p) n" using Suc.prems(2) by (auto simp: agrees_def dest: spec [of _ "Suc _"])
  then have "self_copy n (Suc t) (take (Suc p) T) = take (Suc p + n) T" using Suc by simp
  moreover have "take p T @ [take p T ! t] = take (Suc p) T"
    using p Suc.prems(1) by (simp add: take_Suc_conv_app_nth)
  ultimately show ?case by simp
qed simp

lemma agrees_take: "agrees xs i ys j n \<Longrightarrow> take n (drop i xs) = take n (drop j ys)"
  by (rule nth_equalityI) (auto simp: agrees_def)

lemma run_take:
  assumes "p + n \<le> length T" "\<forall>k < n. T ! (p + k) = T ! p"
  shows "replicate n (T ! p) = take n (drop p T)"
  using assms by (intro nth_equalityI) auto

lemma to_op_apply:
  assumes "inst_ok S T p i"
  shows "valid_op S (to_op T p i) (take p T) \<and> apply_op S (to_op T p i) (take p T) = take (p + inst_length i) T"
proof (cases i)
  case (Copy n a m)
  consider "agrees S (unat a) T p (unat n)" "0 < unat n"
    | "length S \<le> unat a" "unat a - length S < p" "agrees T (unat a - length S) T p (unat n)"
    using assms Copy by auto
  then show ?thesis
  proof cases
    case 1
    then have "unat a < length S" "unat a + unat n \<le> length S" by (auto simp: agrees_def)
    then show ?thesis using Copy agrees_take [OF 1(1)] by (simp add: take_add)
  next
    case 2
    then have "p \<le> length T" by (simp add: agrees_def)
    then show ?thesis using Copy 2 self_copy_take [OF 2(2,3)] by auto
  qed
next
  case (Run n)
  then show ?thesis using assms run_take [of p "unat n" T] by (simp add: take_add)
next
  case (Add n)
  then show ?thesis using assms by (simp add: take_add min.strict_coboundedI2)
qed

lemma to_ops_apply: "covers S T p is q \<Longrightarrow>
    valid_ops S (to_ops T p is) (take p T) \<and> apply_ops S (to_ops T p is) (take p T) = take q T"
  by (induction "is" arbitrary: p) (auto simp: to_op_apply)

section \<open>Writing a stream\<close>

text \<open>The bytes a stream encoder has written: its header, once there is a window, and the windows.\<close>

definition stream_holds :: "byte list \<Rightarrow> FileHeader \<Rightarrow> StreamEncoder \<Rightarrow> byte list list \<Rightarrow> bool" where
  "stream_holds w0 fh s bss \<longleftrightarrow> file_header s = fh \<and>
     (if header_written s then writer s = w0 @ file_header_bytes fh @ concat bss else bss = [] \<and> writer s = w0)"

definition written :: "StreamEncoder \<Rightarrow> byte list \<Rightarrow> StreamEncoder" where
  "written s bs = s\<lparr> writer := (if header_written s then writer s else writer s @ file_header_bytes (file_header s)) @ bs,
     header_written := True \<rparr>"

lemma written_holds: "stream_holds w0 fh s bss \<Longrightarrow> stream_holds w0 fh (written s bs) (bss @ [bs])"
  by (auto simp: stream_holds_def written_def)

lemma write_raw_window_eq: "file_header_ok (file_header s) \<Longrightarrow> write_raw_window s bs = Ok (written s bs)"
  by (simp add: write_raw_window_def ensure_header_def FileHeader_encode_eq write_all_def written_def)

lemma write_window_eq:
  "file_header_ok (file_header s) \<Longrightarrow> finish_sections adler e t = (Ok ws :: (_, 'e) res) \<Longrightarrow> write_window adler s e t
     = (Ok (written s (window_header_bytes (assemble_header ws 0) @ ws_data ws @ ws_inst ws @ ws_addr ws)) :: (_, 'e) res)"
  by (simp add: write_window_def ensure_header_def FileHeader_encode_eq write_all_def written_def encoder_finish_def assemble_eq)

lemma stream_finish_holds: "stream_holds w0 fh s bss \<Longrightarrow> bss \<noteq> [] \<Longrightarrow>
    stream_finish s = Ok (w0 @ file_header_bytes fh @ concat bss)"
  by (auto simp: stream_holds_def stream_finish_def split: if_splits)

lemma file_header_default_ok: "file_header_ok FileHeader_default"
  by (simp add: file_header_ok_def FileHeader_default_def)

text \<open>One encoded window of a covered target reads as that target.\<close>

lemma emitted_window:
  assumes "covers S T 0 insts (length T)" "length T \<le> 2 ^ 24" "length S < 2 ^ 63"
  shows "\<exists>e ws. emit_instructions (WindowEncoder_new (source_window_of S) chk) T sl insts = Ok e
     \<and> finish_sections adler e (Some T) = (Ok ws :: (_, EncodeError) res)
     \<and> (\<forall>ws' del. repack cs sid ws ws' del \<longrightarrow> reads_as cs adler slice_provider (\<lambda>s. s) (\<lambda>s. length s < 2 ^ 64) sid verify S
          (window_header_bytes (assemble_header ws' del) @ ws_data ws' @ ws_inst ws' @ ws_addr ws') T)"
proof -
  have ops: "valid_ops S (to_ops T 0 insts) []" "apply_ops S (to_ops T 0 insts) [] = T"
    using to_ops_apply [OF assms(1)] by simp_all
  have sw: "source_window_for S 0 (source_window_of S)"
    by (simp add: source_window_for_def source_window_of_def)
  show ?thesis
    using slice.window_reads_as [OF ops(1) _ assms(3) _ _ assms(3) sw, where 'e = EncodeError and 'f = EncodeError
        and chk = chk and adler = adler and cs = cs and sid = sid and verify = verify] ops(2) assms(2)
    by (auto simp: emit_instructions_def emit_insts_ops [OF assms(1)])
qed

section \<open>Round trip\<close>

lemma find_matches_source_covers:
  assumes "length S < 2 ^ 63" "length T < 2 ^ 32"
  shows "returns (if S = [] then find_matches_no_source cpu (config_for_level l) T
      else find_matches_with_source cpu (config_for_level l) (slice_data S) T) (\<lambda>insts. covers S T 0 insts (length T) \<and> list_all inst_wide insts)"
proof -
  note found = slice_source.find_matches_ok [of _ _ T, OF _ _ assms(2)]
  show ?thesis
  proof (cases "S = []")
    case True
    show ?thesis
      unfolding if_P [OF True] find_matches_no_source_def returns_bind
      by (rule returns_mono [OF MatchEngine_new_ok [OF config_ok_level, where k = 0]],
          rule returns_mono [OF found [of None, simplified]])
        (use True in \<open>auto simp: slice_source.source_bytes_def wp\<close>)
  next
    case False
    show ?thesis
      unfolding if_not_P [OF False] find_matches_with_source_def returns_bind Let_def
      by (rule returns_mono [OF MatchEngine_new_ok [OF config_ok_level, where k = "length S"]],
          rule returns_mono [OF slice_source.index_source_ok [OF assms(1)]], simp,
          rule returns_mono [OF found [of "Some S", simplified]])
        (use assms(1) in \<open>auto simp: slice_source.source_bytes_def wp\<close>)
  qed
qed

lemma engine_window_ok:
  assumes "length S < 2 ^ 63" "length T \<le> 2 ^ 24" "file_header s = FileHeader_default"
  shows "\<exists>bs. engine_window cpu adler opts S T s = Ok (written s bs)
     \<and> reads_as cs adler slice_provider (\<lambda>s. s) (\<lambda>s. length s < 2 ^ 64) None verify S bs T"
proof -
  have "length T < 2 ^ 32" using assms(2) by simp
  with find_matches_source_covers [OF assms(1)] obtain insts where insts:
    "(if S = [] then find_matches_no_source cpu (config_for_level (eo_level opts)) T
      else find_matches_with_source cpu (config_for_level (eo_level opts)) (slice_data S) T) = Ok insts"
    "covers S T 0 insts (length T)"
    by (fastforce simp: returns_def)
  obtain e ws where e: "emit_instructions (WindowEncoder_new (source_window_of S) (eo_checksum opts)) T
      (of_nat (length S)) insts = Ok e" "finish_sections adler e (Some T) = (Ok ws :: (_, EncodeError) res)"
    and r: "\<forall>ws' del. repack cs None ws ws' del \<longrightarrow> reads_as cs adler slice_provider (\<lambda>s. s) (\<lambda>s. length s < 2 ^ 64)
      None verify S (window_header_bytes (assemble_header ws' del) @ ws_data ws' @ ws_inst ws' @ ws_addr ws') T"
    using emitted_window [OF insts(2) assms(2,1)] by blast
  have "file_header_ok (file_header s)" using assms(3) by (simp add: file_header_default_ok)
  then have "engine_window cpu adler opts S T s
      = Ok (written s (window_header_bytes (assemble_header ws 0) @ ws_data ws @ ws_inst ws @ ws_addr ws))"
    using e(1) write_window_eq [OF _ e(2)] by (simp only: engine_window_def insts(1) Let_def bindR.simps)
  with r [rule_format, OF repack_refl] show ?thesis by blast
qed

lemma engine_windows_ok:
  assumes "0 < eo_window_size opts" "eo_window_size opts \<le> 2 ^ 24" "length S < 2 ^ 63"
  shows "stream_holds w0 FileHeader_default s bss \<Longrightarrow> off \<le> length T \<Longrightarrow>
    \<exists>s' bss' Ts. engine_windows cpu adler opts S T off s = Some (Ok s') \<and> stream_holds w0 FileHeader_default s' (bss @ bss')
      \<and> list_all2 (reads_as cs adler slice_provider (\<lambda>s. s) (\<lambda>s. length s < 2 ^ 64) None verify S) bss' Ts
      \<and> concat Ts = drop off T \<and> (off < length T \<longrightarrow> bss' \<noteq> [])"
proof (induction "length T - off" arbitrary: off s bss rule: less_induct)
  case less
  show ?case
  proof (cases "off < length T")
    case True
    define stop where "stop = min (off + eo_window_size opts) (length T)"
    have stop: "off < stop" "stop \<le> length T" "stop - off \<le> 2 ^ 24" using True assms by (auto simp: stop_def)
    let ?W = "take (stop - off) (drop off T)"
    have len: "length ?W \<le> 2 ^ 24" using stop(3) by simp
    obtain bs where bs: "engine_window cpu adler opts S ?W s = Ok (written s bs)"
      "reads_as cs adler slice_provider (\<lambda>s. s) (\<lambda>s. length s < 2 ^ 64) None verify S bs ?W"
      using engine_window_ok [OF assms(3) len, of s] less.prems(1) unfolding stream_holds_def by blast
    obtain s' bss' Ts where IH: "engine_windows cpu adler opts S T stop (written s bs) = Some (Ok s')"
      "stream_holds w0 FileHeader_default s' ((bss @ [bs]) @ bss')"
      "list_all2 (reads_as cs adler slice_provider (\<lambda>s. s) (\<lambda>s. length s < 2 ^ 64) None verify S) bss' Ts"
      "concat Ts = drop stop T"
      using less.hyps [OF _ written_holds [OF less.prems(1)] stop(2), of bs] stop by (auto simp: diff_less_mono2)
    have "engine_windows cpu adler opts S T off s = Some (Ok s')"
      using True bs(1) IH(1) by (subst engine_windows.simps) (simp add: Let_def flip: stop_def)
    moreover have "?W @ drop stop T = drop off T"
      using stop by (metis append_take_drop_id drop_drop le_add_diff_inverse2 less_imp_le)
    ultimately show ?thesis
      using IH bs(2) by (intro exI [of _ s'] exI [of _ "bs # bss'"] exI [of _ "?W # Ts"]) simp
  next
    case False
    then show ?thesis
      using less.prems by (subst engine_windows.simps) (auto intro!: exI [of _ "[]"])
  qed
qed

lemma empty_window:
  assumes "length B < 2 ^ 63"
  shows "\<exists>ws. finish_sections adler (WindowEncoder_new None chk) (Some []) = (Ok ws :: (_, EncodeError) res)
     \<and> reads_as cs adler slice_provider (\<lambda>s. s) (\<lambda>s. length s < 2 ^ 64) sid verify B
         (window_header_bytes (assemble_header ws 0) @ ws_data ws @ ws_inst ws @ ws_addr ws) []"
proof -
  have "\<exists>e ws. for_each enc_op [] (WindowEncoder_new None chk) = (Ok e :: (_, EncodeError) res)
     \<and> finish_sections adler e (Some (apply_ops [] [] [])) = (Ok ws :: (_, EncodeError) res)
     \<and> (\<forall>ws' del. repack cs sid ws ws' del \<longrightarrow> reads_as cs adler slice_provider (\<lambda>s. s) (\<lambda>s. length s < 2 ^ 64) sid verify B
          (window_header_bytes (assemble_header ws' del) @ ws_data ws' @ ws_inst ws' @ ws_addr ws') (apply_ops [] [] []))"
    by (rule slice.window_reads_as [where off = 0]) (use assms in \<open>simp_all add: source_window_for_def\<close>)
  then show ?thesis using repack_refl by auto
qed

lemma decode_memory_stream:
  assumes "list_all2 (reads_as cs adler slice_provider (\<lambda>s. s) (\<lambda>s. length s < 2 ^ 64) (secondary_id (file_header_canon fh)) True S) bss Ts"
    and "file_header_ok fh" "length S < 2 ^ 64" "length (concat Ts) < 2 ^ 63"
  shows "decode_memory cs adler (file_header_bytes fh @ concat bss) S = Ok (concat Ts)"
  using decode_stream [OF assms(1,2) refl assms(3), where out = "[]"] assms(4) by (auto simp: decode_memory_def)

lemma written_header [simp]: "file_header (written s bs) = file_header s"
  by (simp add: written_def)

lemma zero_window_loops:
  assumes "eo_window_size opts = 0" "length S < 2 ^ 63" "off < length T" "file_header s = FileHeader_default"
  shows "engine_windows cpu adler opts S T off s = None"
proof -
  let ?P = "\<lambda>cpu adler opts S T off s r. \<not> (eo_window_size opts = 0 \<and> length S < 2 ^ 63 \<and> off < length T
    \<and> file_header s = FileHeader_default)"
  have "?P cpu adler opts S T off s r" if "engine_windows cpu adler opts S T off s = Some r" for r
  proof (rule engine_windows.raw_induct [where P = ?P, OF _ that], rule notI, elim conjE)
    fix f :: "Cpu \<Rightarrow> (byte list \<Rightarrow> u32) \<Rightarrow> EncodeOptions \<Rightarrow> byte list \<Rightarrow> byte list \<Rightarrow> nat \<Rightarrow> StreamEncoder
        \<Rightarrow> (StreamEncoder, EncodeError) res option"
      and cpu adler and opts :: EncodeOptions and S T off and s :: StreamEncoder and r
    assume IH: "\<And>cpu adler opts S T off s r. f cpu adler opts S T off s = Some r \<Longrightarrow> ?P cpu adler opts S T off s r"
      and body: "(if off < length T then let win_end = min (off + eo_window_size opts) (length T);
           win_target = take (win_end - off) (drop off T)
         in case engine_window cpu adler opts S win_target s of Ok stream \<Rightarrow> f cpu adler opts S T win_end stream
            | Err e \<Rightarrow> Some (Err e) | Panic \<Rightarrow> Some Panic
         else Some (Ok s)) = Some r"
      and c: "eo_window_size opts = 0" "length S < 2 ^ 63" "off < length T" "file_header s = FileHeader_default"
    obtain bs where "engine_window cpu adler opts S [] s = Ok (written s bs)"
      using engine_window_ok [OF c(2) _ c(4), of "[]" cpu adler opts] by (metis list.size(3) zero_le)
    then have "f cpu adler opts S T off (written s bs) = Some r" using body c by (simp add: Let_def)
    from IH [OF this] c show False by simp
  qed
  then show ?thesis using assms by (cases "engine_windows cpu adler opts S T off s") auto
qed

lemma engine_windows_return:
  assumes "0 < eo_window_size opts"
  shows "\<exists>r. engine_windows cpu adler opts S T off s = Some r"
proof (induction "length T - off" arbitrary: off s rule: less_induct)
  case less
  then show ?case
    using assms by (subst engine_windows.simps) (auto simp: Let_def diff_less_mono2 split: res.splits)
qed

section \<open>Properties\<close>

text \<open>
  C1: The in-memory delta engine round-trips. For every CPU, every compression level, every
  window size from 1 byte to 16 MiB, with or without checksums, every source and every target
  that fit in memory (both may be empty), \<open>encode_with_options\<close> returns without error or panic, appends a delta to
  the output, and \<open>decode\<close> of that delta with the same source gives exactly the target.
\<close>

theorem engine_roundtrip:
  assumes "0 < eo_window_size opts" and "eo_window_size opts \<le> 2 ^ 24" and "length source < 2 ^ 63" and "length target < 2 ^ 63"
  shows "\<exists>delta. encode_with_options cpu adler source target output opts = Some (Ok (output @ delta))
     \<and> engine_decode cs adler source delta = Ok target"
proof -
  let ?R = "reads_as cs adler slice_provider (\<lambda>s. s) (\<lambda>s. length s < 2 ^ 64) None True source"
  let ?s = "StreamEncoder_new output (eo_checksum opts)"
  have s0: "stream_holds output FileHeader_default ?s []" by (simp add: stream_holds_def StreamEncoder_new_def)
  have canon: "secondary_id (file_header_canon FileHeader_default) = None"
    by (simp add: file_header_canon_def FileHeader_default_def)
  have decode: "engine_decode cs adler source (file_header_bytes FileHeader_default @ concat bss) = Ok (concat Ts)"
    if "list_all2 ?R bss Ts" "concat Ts = target" for bss Ts
    unfolding engine_decode_def
    by (rule decode_memory_stream) (use that assms(3,4) in \<open>simp_all add: canon file_header_default_ok\<close>)
  obtain s' bss Ts where w: "engine_windows cpu adler opts source target 0 ?s = Some (Ok s')"
    "stream_holds output FileHeader_default s' bss" "list_all2 ?R bss Ts" "concat Ts = target"
    "target \<noteq> [] \<longrightarrow> bss \<noteq> []"
    using engine_windows_ok [OF assms(1-3) s0 le0, where T = target and cpu = cpu and adler = adler and cs = cs and verify = True]
    unfolding append_Nil drop_0 length_greater_0_conv by blast
  show ?thesis
  proof (cases "target = []")
    case False
    then have "engine_finish adler opts target s' = Ok (output @ file_header_bytes FileHeader_default @ concat bss)"
      using w by (simp add: engine_finish_def stream_finish_holds)
    then show ?thesis using w decode [OF w(3,4)] by (auto simp: encode_with_options_def)
  next
    case True
    have s': "s' = ?s" using w(1) True by (simp add: engine_windows.simps)
    obtain ws where ws: "finish_sections adler (WindowEncoder_new None (eo_checksum opts)) (Some []) = (Ok ws :: (_, EncodeError) res)"
      "?R (window_header_bytes (assemble_header ws 0) @ ws_data ws @ ws_inst ws @ ws_addr ws) []"
      using empty_window [OF assms(3)] by blast
    let ?bs = "window_header_bytes (assemble_header ws 0) @ ws_data ws @ ws_inst ws @ ws_addr ws"
    have "engine_finish adler opts target ?s = Ok (output @ file_header_bytes FileHeader_default @ concat [?bs])"
      using True write_window_eq [OF _ ws(1), of ?s] stream_finish_holds [OF written_holds [OF s0]]
      by (simp add: engine_finish_def StreamEncoder_new_def file_header_default_ok)
    then show ?thesis
      using w(1) s' True decode [of "[?bs]" "[[]]"] ws(2) by (auto simp: encode_with_options_def)
  qed
qed

theorem engine_roundtrip_witness:
  "\<exists>delta. encode_with_options (X86_64 True True) adler32_simple [1, 2, 3, 4, 5] [1, 2, 3, 4, 5, 9, 9, 9] []
       \<lparr> eo_level = 6, eo_window_size = 4, eo_checksum = True \<rparr> = Some (Ok ([] @ delta))
     \<and> engine_decode pair_codecs adler32_simple [1, 2, 3, 4, 5] delta = Ok [1, 2, 3, 4, 5, 9, 9, 9]"
  by (rule engine_roundtrip) simp_all

text \<open>
  C35: The one-shot encoder returns exactly when the window size is not 0 or the target is empty. With a
  window size of 0 and a nonempty target each turn of its loop encodes an empty window and leaves
  the offset where it was.
\<close>

theorem engine_returns_iff:
  assumes "length source < 2 ^ 63"
  shows "(\<exists>r. encode_with_options cpu adler source target output opts = Some r) \<longleftrightarrow> eo_window_size opts \<noteq> 0 \<or> target = []"
proof (cases "eo_window_size opts = 0 \<and> target \<noteq> []")
  case True
  then show ?thesis
    using zero_window_loops [OF _ assms, of opts 0 target "StreamEncoder_new output (eo_checksum opts)" cpu adler]
    by (simp add: encode_with_options_def StreamEncoder_new_def)
next
  case False
  then show ?thesis using engine_windows_return [of opts cpu adler source target 0 "StreamEncoder_new output (eo_checksum opts)"]
    by (auto simp: encode_with_options_def engine_windows.simps [of _ _ _ _ "[]"])
qed

theorem engine_returns_iff_witness:
  "length [] < (2 :: nat) ^ 63
    \<and> \<not> (\<exists>r. encode_with_options Aarch64 adler32_simple [] [7] [] \<lparr> eo_level = 6, eo_window_size = 0, eo_checksum = True \<rparr> = Some r)
    \<and> (\<exists>r. encode_with_options Aarch64 adler32_simple [] [7] [] \<lparr> eo_level = 6, eo_window_size = 1, eo_checksum = True \<rparr> = Some r)"
  by (subst engine_returns_iff, simp)+ simp

end
