(* ===== verification/Pipeline.thy ===== *)
theory Pipeline
  imports Match_Scan
begin

text \<open>
  The instruction optimiser of \<open>src/src/compress/pipeline.rs\<close>: merging adjacent instructions and
  splitting runs out of ADDs. Lengths are 32-bit and addresses 64-bit words, as in the source.
\<close>

section \<open>Definitions\<close>

fun inst_len :: "Instruction \<Rightarrow> u32" where
  "inst_len (Add len) = len"
| "inst_len (Copy len addr mode) = len"
| "inst_len (Run len) = len"

fun try_coalesce :: "Instruction \<Rightarrow> Instruction \<Rightarrow> Instruction option" where
  "try_coalesce (Add l1) (Add l2) = Some (Add (l1 + l2))"
| "try_coalesce (Copy l1 a1 m1) (Copy l2 a2 m2) =
     (if m2 = m1 \<and> a2 = a1 + ucast l1 then Some (Copy (l1 + l2) a1 m1) else None)"
| "try_coalesce (Run l1) (Run l2) = Some (Run (l1 + l2))"
| "try_coalesce a b = None"

definition coalesce_step :: "Instruction list \<Rightarrow> Instruction \<Rightarrow> Instruction list" where
  "coalesce_step coalesced inst =
     (if inst_len inst = 0 then coalesced
      else case (if coalesced \<noteq> [] then try_coalesce (last coalesced) inst else None) of
        Some merged \<Rightarrow> butlast coalesced @ [merged]
      | None \<Rightarrow> coalesced @ [inst])"

lemma run_length_pos:
  assumes "i < length data" "run_length_fn cpu (drop i data) (data ! i) (length data - i) = (Ok r :: (nat, 'e) res)"
  shows "0 < r" "i + r \<le> length data"
proof -
  obtain x xs where d: "drop i data = x # xs" using assms(1) by (cases "drop i data") auto
  then have "x = data ! i" using assms(1) by (metis nth_via_drop)
  moreover have r: "r = run_len (drop i data) (data ! i)" using assms by (simp add: run_length_fn_correct)
  ultimately show "0 < r" using d by (simp add: run_len_def)
  show "i + r \<le> length data" using assms(1) length_takeWhile_le [of _ "drop i data"]
    by (metis (no_types, lifting) r run_len_def length_drop le_diff_conv2 less_imp_le add.commute)
qed

text \<open>The inner loop: scan forward to the next run, or to the end.\<close>

function next_run :: "Cpu \<Rightarrow> byte list \<Rightarrow> nat \<Rightarrow> (nat, EncodeError) res" where
  "next_run cpu data i =
     (if i < length data then
        bindR (run_length_fn cpu (drop i data) (data ! i) (length data - i)) (\<lambda>rl.
        if MIN_RUN \<le> rl then Ok i else next_run cpu data (i + rl))
      else Ok i)"
  by pat_completeness auto
termination
  by (relation "measure (\<lambda>(cpu, data, i). length data - i)") (auto dest!: run_length_pos(1) [rotated])

declare next_run.simps [simp del]

lemma next_run_le: "i \<le> length data \<Longrightarrow> returns (next_run cpu data i) (\<lambda>j. i \<le> j \<and> j \<le> length data)"
proof (induction "length data - i" arbitrary: i rule: less_induct)
  case less
  show ?case
  proof (cases "i < length data")
    case True
    obtain r where r: "run_length_fn cpu (drop i data) (data ! i) (length data - i) = (Ok r :: (nat, EncodeError) res)"
      by (simp add: run_length_fn_correct)
    note b = run_length_pos [OF True r]
    have "returns (next_run cpu data (i + r)) (\<lambda>j. i + r \<le> j \<and> j \<le> length data)"
      using b True by (intro less.hyps) simp_all
    then have "returns (next_run cpu data (i + r)) (\<lambda>j. i \<le> j \<and> j \<le> length data)"
      by (rule returns_mono) simp
    then show ?thesis using True r by (subst next_run.simps) (simp add: wp)
  qed (use less.prems in \<open>subst next_run.simps, simp add: wp\<close>)
qed

function split_loop :: "Cpu \<Rightarrow> byte list \<Rightarrow> nat \<Rightarrow> Instruction list \<Rightarrow> (Instruction list, EncodeError) res" where
  "split_loop cpu data i out =
     (if i < length data then
        if length data - i < MIN_RUN then Ok (out @ [Add (of_nat (length data - i))])
        else
        bindR (run_length_fn cpu (drop i data) (data ! i) (length data - i)) (\<lambda>run_len.
        if MIN_RUN \<le> run_len then split_loop cpu data (i + run_len) (out @ [Run (of_nat run_len)])
        else
        bindR (next_run cpu data (i + run_len)) (\<lambda>j.
        split_loop cpu data j (out @ [Add (of_nat (j - i))])))
      else Ok out)"
  by pat_completeness auto
termination
proof (relation "measure (\<lambda>(cpu, data, i, out). length data - i)")
  fix cpu data i and out :: "Instruction list" and r j
  assume i: "i < length data"
    and r: "run_length_fn cpu (drop i data) (data ! i) (length data - i) = (Ok r :: (nat, EncodeError) res)"
    and j: "next_run cpu data (i + r) = Ok j"
  note b = run_length_pos [OF i r]
  have "i + r \<le> j" using next_run_le [OF b(2), of cpu] j by (auto simp: returns_def)
  with b i show "((cpu, data, j, out @ [Add (of_nat (j - i))]), cpu, data, i, out)
      \<in> measure (\<lambda>(cpu, data, i, out). length data - i)" by simp
qed (auto dest!: run_length_pos(1) [rotated])

declare split_loop.simps [simp del]

definition split_add_with_runs :: "Cpu \<Rightarrow> byte list \<Rightarrow> Instruction list \<Rightarrow> (Instruction list, EncodeError) res" where
  "split_add_with_runs cpu data out =
     (if data = [] then Ok out
      else if length data < MIN_RUN then Ok (out @ [Add (of_nat (length data))])
      else split_loop cpu data 0 out)"

fun split_add_inst :: "Cpu \<Rightarrow> byte list \<Rightarrow> Instruction \<Rightarrow> nat \<times> Instruction list
    \<Rightarrow> (nat \<times> Instruction list, EncodeError) res" where
  "split_add_inst cpu target (Add len) (target_pos, result) =
     bindR (slice_range target target_pos (target_pos + unat len)) (\<lambda>data.
     bindR (split_add_with_runs cpu data result) (\<lambda>result. Ok (target_pos + unat len, result)))"
| "split_add_inst cpu target inst (target_pos, result) =
     Ok (target_pos + unat (inst_len inst), result @ [inst])"

definition split_add_runs :: "Cpu \<Rightarrow> Instruction list \<Rightarrow> byte list \<Rightarrow> Instruction list
    \<Rightarrow> (Instruction list, EncodeError) res" where
  "split_add_runs cpu insts target result =
     bindR (for_each (split_add_inst cpu target) insts (0, result)) (\<lambda>(target_pos, result). Ok result)"

definition optimize :: "Cpu \<Rightarrow> Instruction list \<Rightarrow> byte list \<Rightarrow> (Instruction list, EncodeError) res" where
  "optimize cpu insts target =
     (if insts = [] then Ok []
      else split_add_runs cpu (foldl coalesce_step [] insts) target [])"

section \<open>Splitting preserves what is covered\<close>

lemma split_loop_covers:
  assumes "p + length data \<le> length T" "data = take (length data) (drop p T)" "length T < 2 ^ 32"
  shows "i \<le> length data \<Longrightarrow> returns (split_loop cpu data i out)
    (\<lambda>r. \<exists>new. r = out @ new \<and> covers S T (p + i) new (p + length data))"
proof (induction "length data - i" arbitrary: i out rule: less_induct)
  case less
  let ?n = "length data"
  have nth: "data ! k = T ! (p + k)" if "k < ?n" for k using assms that by (metis add.commute nth_take_drop)
  show ?case
  proof (cases "i < ?n")
    case True
    obtain r where r: "run_length_fn cpu (drop i data) (data ! i) (?n - i) = (Ok r :: (nat, EncodeError) res)"
      by (simp add: run_length_fn_correct)
    note b = run_length_pos [OF True r]
    have rl: "r = run_len (drop i data) (data ! i)" using r by (simp add: run_length_fn_correct)
    have step: "returns (split_loop cpu data j (out @ [x])) (\<lambda>r. \<exists>new. r = out @ new \<and> covers S T (p + i) new (p + ?n))"
      if "i < j" "j \<le> ?n" "inst_ok S T (p + i) x" "inst_length x = j - i" for j x
      by (rule returns_mono [OF less.hyps [of j]]) (use that in auto)
    have add: "inst_ok S T (p + i) (Add (of_nat (j - i)))" "inst_length (Add (of_nat (j - i))) = j - i"
      if "i < j" "j \<le> ?n" for j
    proof -
      have "unat (of_nat (j - i) :: u32) = j - i" using that assms by (intro unat_len32) simp
      then show "inst_ok S T (p + i) (Add (of_nat (j - i)))" "inst_length (Add (of_nat (j - i))) = j - i"
        using that assms(1) by (simp_all del: of_nat_diff)
    qed
    have "T ! (p + i + k) = T ! (p + i)" if "k < r" for k
      using run_len_bytes(1) [of k "drop i data" "data ! i"] that b True nth [of "i + k"] nth [of i] rl
      by (simp add: add.assoc)
    then have run: "inst_ok S T (p + i) (Run (of_nat r))" "inst_length (Run (of_nat r)) = r"
      using b assms by simp_all
    show ?thesis
      using True r b add [of ?n] add step [of "i + r" "Run (of_nat r)"] run
      by (subst split_loop.simps)
        (auto simp: wp simp del: of_nat_diff inst_ok.simps inst_length.simps
          intro!: returns_mono [OF next_run_le [OF b(2)]] step)
  qed (use less.prems in \<open>subst split_loop.simps, simp add: wp\<close>)
qed

lemma split_add_with_runs_covers:
  assumes "p + length data \<le> length T" "data = take (length data) (drop p T)" "length T < 2 ^ 32" "data \<noteq> []"
  shows "returns (split_add_with_runs cpu data out) (\<lambda>r. \<exists>new. r = out @ new \<and> covers S T p new (p + length data))"
  using assms split_loop_covers [OF assms(1-3), of 0] by (auto simp: split_add_with_runs_def wp)

lemma split_add_inst_covers:
  assumes "inst_ok S T p i" "length T < 2 ^ 32"
  shows "returns (split_add_inst cpu T i (p, result))
    (\<lambda>(q, r). q = p + inst_length i \<and> (\<exists>new. r = result @ new \<and> covers S T p new q))"
proof (cases i)
  case (Add n)
  let ?d = "take (unat n) (drop p T)"
  have "p + length ?d \<le> length T" "?d = take (length ?d) (drop p T)" "?d \<noteq> []" "length ?d = unat n"
    using assms(1) Add by auto
  note split_add_with_runs_covers [OF this(1,2) assms(2) this(3), of cpu result S, unfolded this(4)]
  then show ?thesis using assms(1) Add by (auto simp: wp elim!: returns_mono)
qed (use assms(1) in \<open>auto simp: wp\<close>)

lemma split_add_runs_covers:
  assumes "length T < 2 ^ 32"
  shows "covers S T p insts q \<Longrightarrow> returns (for_each (split_add_inst cpu T) insts (p, result))
    (\<lambda>(q', r). \<exists>new. r = result @ new \<and> covers S T p new q)"
proof (induction insts arbitrary: p result)
  case (Cons i insts)
  have IH: "returns (for_each (split_add_inst cpu T) insts (p + inst_length i, result @ new))
      (\<lambda>(q', r). \<exists>new. r = result @ new \<and> covers S T p new q)" if "covers S T p new (p + inst_length i)" for new
    by (rule returns_mono [OF Cons.IH]) (use Cons.prems that in \<open>auto intro: covers_trans\<close>)
  show ?case
    unfolding for_each.simps returns_bind
    by (rule returns_mono [OF split_add_inst_covers [OF _ assms]]) (use Cons.prems IH in auto)
qed (simp add: wp)

section \<open>Coalescing\<close>

text \<open>
  When two neighbours may be merged: not two RUNs of different bytes, and not a copy of the end of
  the source followed by a copy of the start of the target, whose addresses are contiguous.
\<close>

fun join_ok :: "byte list \<Rightarrow> byte list \<Rightarrow> nat \<Rightarrow> Instruction \<Rightarrow> Instruction \<Rightarrow> bool" where
  "join_ok S T p (Run n) (Run m) \<longleftrightarrow> T ! p = T ! (p + unat n)"
| "join_ok S T p (Copy n a x) (Copy m b y) \<longleftrightarrow> \<not> (unat a < length S \<and> length S \<le> unat b \<and> unat b = unat a + unat n)"
| "join_ok S T p i j \<longleftrightarrow> True"

fun joins_ok :: "byte list \<Rightarrow> byte list \<Rightarrow> nat \<Rightarrow> Instruction list \<Rightarrow> bool" where
  "joins_ok S T p (i # j # is) \<longleftrightarrow> join_ok S T p i j \<and> joins_ok S T (p + inst_length i) (j # is)"
| "joins_ok S T p is \<longleftrightarrow> True"

text \<open>\<open>ends_like\<close>: a merged instruction joins with what follows as its last part would.\<close>

fun ends_like :: "byte list \<Rightarrow> byte list \<Rightarrow> nat \<Rightarrow> Instruction \<Rightarrow> nat \<Rightarrow> Instruction \<Rightarrow> bool" where
  "ends_like S T p (Run n) q (Run m) \<longleftrightarrow> T ! p = T ! q \<and> p + unat n = q + unat m"
| "ends_like S T p (Copy n a x) q (Copy m b y) \<longleftrightarrow>
     unat a + unat n = unat b + unat m \<and> (unat a < length S \<longleftrightarrow> unat b < length S) \<and> p + unat n = q + unat m"
| "ends_like S T p (Add n) q (Add m) \<longleftrightarrow> p + unat n = q + unat m"
| "ends_like S T p i q j \<longleftrightarrow> False"

lemma ends_like_refl: "ends_like S T p i p i"
  by (cases i) auto

lemma ends_like_join: "ends_like S T p l q i \<Longrightarrow> join_ok S T q i j \<Longrightarrow> join_ok S T p l j"
  by (cases l; cases i; cases j) auto

lemma ends_like_end: "ends_like S T p l q i \<Longrightarrow> p + inst_length l = q + inst_length i"
  by (cases l; cases i) auto

lemma unat_len_add:
  assumes "unat l1 + unat l2 \<le> length T" "length T < 2 ^ 32"
  shows "unat (l1 + l2 :: u32) = unat l1 + unat l2"
  using assms by (subst unat_add_no_wrap) simp_all

lemma inst_ok_end: "inst_ok S T p i \<Longrightarrow> p + inst_length i \<le> length T"
  by (cases i) (auto simp: agrees_def)

lemma coalesce_copy:
  assumes i: "inst_ok S T p (Copy n a x)" and j: "inst_ok S T (p + unat n) (Copy m b y)"
    and "join_ok S T p (Copy n a x) (Copy m b y)" "b = a + ucast n" and T: "length T < 2 ^ 32" and S: "length S < 2 ^ 63"
  shows "inst_ok S T p (Copy (n + m) a x) \<and> ends_like S T p (Copy (n + m) a x) (p + unat n) (Copy m b y)"
proof -
  have nm: "unat (n + m) = unat n + unat m" using inst_ok_end [OF j] T by (intro unat_len_add) simp_all
  have pos: "0 < unat n" "0 < unat m" using i j by auto
  have "unat a + unat n < 2 ^ 64" using i T S by (auto simp: agrees_def)
  then have b: "unat b = unat a + unat n" unfolding assms(4) by (subst unat_add_no_wrap) simp_all
  consider "agrees S (unat a) T p (unat n)"
    | "length S \<le> unat a" "unat a - length S < p" "agrees T (unat a - length S) T p (unat n)"
    using i by auto
  then show ?thesis
  proof cases
    case 1
    then have "unat a < length S" using pos by (simp add: agrees_def)
    with assms(3) b have "unat b < length S" by simp
    with j b have 2: "agrees S (unat a + unat n) T (p + unat n) (unat m)" by simp
    then have "agrees S (unat a) T p (unat n + unat m)" by (rule agrees_append [OF 1])
    then show ?thesis using nm pos b \<open>unat a < length S\<close> \<open>unat b < length S\<close> by simp
  next
    case 2
    then have "\<not> agrees S (unat b) T (p + unat n) (unat m)" using b pos by (simp add: agrees_def)
    then have "agrees T (unat a - length S + unat n) T (p + unat n) (unat m)" using j b 2(1) by (simp add: add.commute)
    then have "agrees T (unat a - length S) T p (unat n + unat m)" by (rule agrees_append [OF 2(3)])
    then show ?thesis using nm pos b 2 by simp
  qed
qed

lemma coalesce_run:
  assumes "inst_ok S T p (Run n)" "inst_ok S T (p + unat n) (Run m)" "T ! p = T ! (p + unat n)" "length T < 2 ^ 32"
  shows "inst_ok S T p (Run (n + m)) \<and> ends_like S T p (Run (n + m)) (p + unat n) (Run m)"
proof -
  have nm: "unat (n + m) = unat n + unat m" using inst_ok_end [OF assms(2)] assms(4) by (intro unat_len_add) simp_all
  have "T ! (p + k) = T ! p" if "k < unat n + unat m" for k
  proof (cases "k < unat n")
    case False
    then obtain d where d: "k = unat n + d" using le_Suc_ex not_less by blast
    then have "T ! (p + unat n + d) = T ! (p + unat n)" using assms(2) that by simp
    then show ?thesis using d assms(3) by (metis add.assoc)
  qed (use assms(1) in simp)
  then have "\<forall>k < unat (n + m). T ! (p + k) = T ! p" by (simp only: nm) blast
  moreover have "0 < unat (n + m)" "p + unat (n + m) \<le> length T" "p + unat (n + m) = p + unat n + unat m"
    using assms(1) inst_ok_end [OF assms(2)] by (simp_all add: nm)
  ultimately show ?thesis using assms(3) by (simp only: inst_ok.simps ends_like.simps)
qed

lemma try_coalesce_cases:
  assumes "try_coalesce l i = Some m"
  obtains l1 l2 where "l = Add l1" "i = Add l2" "m = Add (l1 + l2)"
  | l1 l2 a1 a2 m1 where "l = Copy l1 a1 m1" "i = Copy l2 a2 m1" "a2 = a1 + ucast l1" "m = Copy (l1 + l2) a1 m1"
  | l1 l2 where "l = Run l1" "i = Run l2" "m = Run (l1 + l2)"
  using assms by (cases l; cases i) (auto split: if_splits)

lemma coalesce_ok:
  assumes "try_coalesce l i = Some m"
    and "inst_ok S T p l" "inst_ok S T (p + inst_length l) i" "join_ok S T p l i" "length T < 2 ^ 32" "length S < 2 ^ 63"
  shows "inst_ok S T p m \<and> ends_like S T p m (p + inst_length l) i"
  using assms(1)
proof (cases rule: try_coalesce_cases)
  case (1 l1 l2)
  have "unat (l1 + l2) = unat l1 + unat l2"
    using inst_ok_end [OF assms(3)] assms(5) 1 by (intro unat_len_add) simp_all
  then show ?thesis using 1 assms(2,3) by simp
next
  case (2 l1 l2 a1 a2 m1)
  then show ?thesis
    using coalesce_copy [OF _ _ _ _ assms(5,6), of p l1 a1 m1 l2 a2 m1] assms(2-4) by (simp only: inst_length.simps)
next
  case (3 l1 l2)
  then show ?thesis
    using coalesce_run [OF _ _ _ assms(5), of S p l1 l2] assms(2-4) by (simp only: inst_length.simps join_ok.simps)
qed

lemma inst_length_len: "inst_length i = unat (inst_len i)"
  by (cases i) auto

lemma inst_ok_nonzero: "inst_ok S T p i \<Longrightarrow> inst_len i \<noteq> 0"
  by (cases i) auto

text \<open>What coalescing keeps: the output covers what was read, and ends like the last instruction read.\<close>

lemma coalesce_covers:
  assumes "length T < 2 ^ 32" "length S < 2 ^ 63"
  shows "covers S T 0 front p \<Longrightarrow> inst_ok S T p l \<Longrightarrow> ends_like S T p l q orig \<Longrightarrow> joins_ok S T q (orig # is)
    \<Longrightarrow> covers S T (p + inst_length l) is r \<Longrightarrow> covers S T 0 (foldl coalesce_step (front @ [l]) is) r"
proof (induction "is" arbitrary: front p l q orig)
  case Nil
  then have "covers S T p [l] r" by simp
  with Nil.prems(1) show ?case by (auto intro: covers_trans)
next
  case (Cons i "is")
  have i: "inst_ok S T (p + inst_length l) i" and rest: "covers S T (p + inst_length l + inst_length i) is r"
    using Cons.prems(5) by simp_all
  have join: "join_ok S T p l i" using ends_like_join [OF Cons.prems(3)] Cons.prems(4) by simp
  have joins: "joins_ok S T (p + inst_length l) (i # is)"
    using Cons.prems(4) ends_like_end [OF Cons.prems(3)] by simp
  show ?case
  proof (cases "try_coalesce l i")
    case None
    have "covers S T 0 (front @ [l]) (p + inst_length l)"
      by (rule covers_trans [OF Cons.prems(1)]) (use Cons.prems(2) in simp)
    from Cons.IH [OF this i ends_like_refl joins rest] show ?thesis
      using None inst_ok_nonzero [OF i] by (simp add: coalesce_step_def)
  next
    case (Some m)
    note m = coalesce_ok [OF Some Cons.prems(2) i join assms]
    have "p + inst_length m = p + inst_length l + inst_length i" using m ends_like_end by blast
    then have "covers S T (p + inst_length m) is r" using rest by (simp only:)
    from Cons.IH [OF Cons.prems(1) m [THEN conjunct1] m [THEN conjunct2] joins this] show ?thesis
      using Some inst_ok_nonzero [OF i] by (simp add: coalesce_step_def)
  qed
qed

lemma optimize_ok:
  assumes "covers S T 0 insts (length T)" and "joins_ok S T 0 insts"
    and "length T < 2 ^ 32" and "length S < 2 ^ 63"
  shows "\<exists>insts'. optimize cpu insts T = Ok insts' \<and> covers S T 0 insts' (length T)"
proof (cases insts)
  case Nil
  then show ?thesis using assms(1) by (simp add: optimize_def)
next
  case (Cons i "is")
  have "foldl coalesce_step [] insts = foldl coalesce_step ([] @ [i]) is"
    using Cons assms(1) inst_ok_nonzero by (auto simp: coalesce_step_def)
  moreover have "covers S T 0 (foldl coalesce_step ([] @ [i]) is) (length T)"
    by (rule coalesce_covers [OF assms(3,4) _ _ ends_like_refl]) (use Cons assms(1,2) in auto)
  ultimately have "returns (for_each (split_add_inst cpu T) (foldl coalesce_step [] insts) (0, []))
      (\<lambda>(q', r). \<exists>new. r = [] @ new \<and> covers S T 0 new (length T))"
    by (intro split_add_runs_covers [OF assms(3)]) simp
  then show ?thesis using Cons by (auto simp: returns_def optimize_def split_add_runs_def)
qed

section \<open>Targets that are safe to merge\<close>

text \<open>
  The two places where merging goes wrong, as conditions on the bytes: position \<open>q\<close> of the target
  separates two runs of different bytes, or the end of the source and then the start of the
  target are repeated around it. Instructions of the match engine are long enough that nothing
  else can make a bad join.
\<close>

definition run_change :: "byte list \<Rightarrow> nat \<Rightarrow> bool" where
  "run_change T q \<longleftrightarrow> MIN_RUN \<le> q \<and> q + MIN_RUN \<le> length T \<and> T ! (q - 1) \<noteq> T ! q
     \<and> (\<forall>k < MIN_RUN. T ! (q - MIN_RUN + k) = T ! (q - 1) \<and> T ! (q + k) = T ! q)"

definition source_wraps :: "byte list \<Rightarrow> byte list \<Rightarrow> nat \<Rightarrow> bool" where
  "source_wraps S T q \<longleftrightarrow> C_MIN_MATCH \<le> q \<and> C_MIN_MATCH \<le> length S
     \<and> agrees S (length S - C_MIN_MATCH) T (q - C_MIN_MATCH) C_MIN_MATCH \<and> agrees T 0 T q C_MIN_MATCH"

definition merge_safe :: "byte list \<Rightarrow> byte list \<Rightarrow> bool" where
  "merge_safe S T \<longleftrightarrow> (\<forall>q < length T. \<not> run_change T q \<and> \<not> source_wraps S T q)"

lemma merge_safe_run:
  assumes "merge_safe S T" "inst_ok S T p (Run n)" "inst_ok S T (p + unat n) (Run m)"
    and "inst_wide (Run n)" "inst_wide (Run m)"
  shows "T ! p = T ! (p + unat n)"
proof (rule ccontr)
  assume ne: "T ! p \<noteq> T ! (p + unat n)"
  let ?q = "p + unat n"
  have first: "T ! (p + k) = T ! p" if "k < unat n" for k using assms(2) that by simp
  have second: "T ! (?q + k) = T ! ?q" if "k < unat m" for k using assms(3) that by simp
  have wide: "MIN_RUN \<le> unat n" "MIN_RUN \<le> unat m" "0 < MIN_RUN" using assms(4,5) by (simp_all add: MIN_RUN_def)
  have before: "T ! (?q - d) = T ! p" if "0 < d" "d \<le> unat n" for d
    using first [of "unat n - d"] that by simp
  have "T ! (?q - MIN_RUN + k) = T ! (?q - 1)" if "k < MIN_RUN" for k
    using before [of "MIN_RUN - k"] before [of 1] that wide by simp
  moreover have "T ! (?q + k) = T ! ?q" if "k < MIN_RUN" for k using second wide that by simp
  moreover have "T ! (?q - 1) \<noteq> T ! ?q" using before [of 1] wide ne by simp
  moreover have "MIN_RUN \<le> ?q \<and> ?q + MIN_RUN \<le> length T" using wide assms(3) by simp
  ultimately have "run_change T ?q" unfolding run_change_def by blast
  moreover have "?q < length T" using assms(3) by simp
  ultimately show False using assms(1) unfolding merge_safe_def by blast
qed

lemma agrees_shift: "agrees xs i ys j n \<Longrightarrow> k + m \<le> n \<Longrightarrow> agrees xs (i + k) ys (j + k) m"
  unfolding agrees_def by (auto simp: add.assoc)

lemma merge_safe_copy:
  assumes "merge_safe S T" "inst_ok S T p (Copy n a x)" "inst_ok S T (p + unat n) (Copy m b y)"
    and "inst_wide (Copy n a x)" "inst_wide (Copy m b y)"
    and "unat a < length S" "length S \<le> unat b" "unat b = unat a + unat n"
  shows False
proof -
  let ?q = "p + unat n" and ?M = C_MIN_MATCH
  have wide: "?M \<le> unat n" "?M \<le> unat m" "0 < ?M" using assms(4,5) by (simp_all add: C_MIN_MATCH_def)
  have src: "agrees S (unat a) T p (unat n)" using assms(2,6) by auto
  then have b: "unat b = length S" using assms(7,8) by (auto simp: agrees_def)
  then have tgt: "agrees T 0 T ?q (unat m)" using assms(3) wide by (auto simp: agrees_def)
  have "unat a + (unat n - ?M) = length S - ?M" "p + (unat n - ?M) = ?q - ?M"
    using wide b assms(8) by simp_all
  then have "agrees S (length S - ?M) T (?q - ?M) ?M"
    using agrees_shift [OF src, of "unat n - ?M" ?M] wide by simp
  moreover have "?M \<le> ?q" "?M \<le> length S" using wide b assms(8) by simp_all
  ultimately have "source_wraps S T ?q"
    using agrees_mono [OF tgt wide(2)] unfolding source_wraps_def by blast
  moreover have "?q < length T" using tgt wide by (simp add: agrees_def)
  ultimately show False using assms(1) unfolding merge_safe_def by blast
qed

lemma merge_safe_join:
  assumes "merge_safe S T" "inst_ok S T p i" "inst_ok S T (p + inst_length i) j" "inst_wide i" "inst_wide j"
  shows "join_ok S T p i j"
proof (cases i)
  case (Copy n a x)
  then show ?thesis
    using assms merge_safe_copy [OF assms(1)] by (cases j) (auto simp del: inst_ok.simps inst_wide.simps)
next
  case (Run n)
  then show ?thesis
    using assms merge_safe_run [OF assms(1)] by (cases j) (auto simp del: inst_ok.simps inst_wide.simps)
qed simp

lemma merge_safe_joins: "merge_safe S T \<Longrightarrow> covers S T p is r \<Longrightarrow> list_all inst_wide is \<Longrightarrow> joins_ok S T p is"
  by (induction S T p "is" rule: joins_ok.induct) (auto intro: merge_safe_join)

lemma merge_safe_short: "length T < 2 * MIN_RUN \<Longrightarrow> length S < C_MIN_MATCH \<Longrightarrow> merge_safe S T"
  by (auto simp: merge_safe_def run_change_def source_wraps_def)

section \<open>Properties\<close>

text \<open>
  C25: The optimiser keeps what instructions cover. For every window below \<open>2 ^ 32\<close> bytes and every
  list of instructions that covers it, in which no RUN is directly followed by a RUN of another
  byte and no COPY from the source by a COPY that continues at the start of the window,
  \<open>optimize\<close> returns, and the merged and split instructions still reproduce the window.
\<close>

theorem optimize_covers:
  assumes "covers S T 0 insts (length T)" and "joins_ok S T 0 insts"
    and "length T < 2 ^ 32" and "length S < 2 ^ 63"
  shows "\<exists>insts'. optimize cpu insts T = Ok insts' \<and> covers S T 0 insts' (length T)"
  by (rule optimize_ok [OF assms])

theorem optimize_covers_witness:
  "\<exists>insts'. optimize Aarch64 [Add 3, Add 1, Copy 4 0 0] [1, 2, 3, 4, 1, 2, 3, 4] = Ok insts'
     \<and> covers [] [1, 2, 3, 4, 1, 2, 3, 4] 0 insts' (length [1, 2, 3, 4, 1, 2, 3, 4 :: byte])"
  by (rule optimize_covers) (code_simp, simp_all)

text \<open>
  Without that condition on RUNs the optimiser changes the target. Two adjacent RUNs of
  different bytes, which is how the match engine encodes a target of n bytes x and then m bytes y,
  are merged into a single RUN that no longer covers the target.
\<close>

theorem optimize_merges_different_runs:
  assumes "0 < n" and "0 < m" and "n + m < 2 ^ 32" and "x \<noteq> y"
  shows "covers S (replicate n x @ replicate m y) 0 [Run (of_nat n), Run (of_nat m)] (n + m)
    \<and> optimize cpu [Run (of_nat n), Run (of_nat m)] (replicate n x @ replicate m y) = Ok [Run (of_nat n + of_nat m)]
    \<and> \<not> covers S (replicate n x @ replicate m y) 0 [Run (of_nat n + of_nat m)] (n + m)"
proof -
  have u: "unat (of_nat n :: u32) = n" "unat (of_nat m :: u32) = m" "unat (of_nat n + of_nat m :: u32) = n + m"
    using assms(3) by (simp_all add: unat_of_nat take_bit_nat_eq_self flip: of_nat_add)
  have nz: "(of_nat n :: u32) \<noteq> 0" "(of_nat m :: u32) \<noteq> 0"
    using u assms(1,2) by (metis unat_0 less_irrefl)+
  have "\<not> (\<forall>k < n + m. (replicate n x @ replicate m y) ! k = (replicate n x @ replicate m y) ! 0)"
    using assms(1,2,4) by (auto simp: nth_append intro!: exI [of _ n])
  then show ?thesis
    using assms(1,2) u nz
    by (simp add: optimize_def split_add_runs_def coalesce_step_def nth_append)
qed

theorem optimize_merges_different_runs_witness:
  "\<not> covers [] (replicate 8 65 @ replicate 8 (66 :: byte)) 0 [Run (of_nat 8 + of_nat 8)] (8 + 8)"
  by (rule optimize_merges_different_runs [where cpu = Aarch64, THEN conjunct2, THEN conjunct2]) simp_all

text \<open>
  Nor may a copy of the end of the source be followed by a copy of the start of the target: the
  addresses are contiguous, so the two are merged into one copy across the boundary between source
  and target, which is not a valid instruction of the format.
\<close>

theorem optimize_merges_across_boundary:
  "covers [7, 8, 1, 2, 3, 4] [1, 2, 3, 4, 1, 2, 3, 4] 0 [Copy 4 2 0, Copy 4 6 0] 8
    \<and> optimize cpu [Copy 4 2 0, Copy 4 6 0] [1, 2, 3, 4, 1, 2, 3, 4] = Ok [Copy 8 2 0]
    \<and> \<not> covers [7, 8, 1, 2, 3, 4] [1, 2, 3, 4, 1, 2, 3, 4] 0 [Copy 8 2 0] 8"
proof (intro conjI)
  show "covers [7, 8, 1, 2, 3, 4] [1, 2, 3, 4, 1, 2, 3, 4] 0 [Copy 4 2 0, Copy 4 6 0] 8"
    by code_simp
  show "optimize cpu [Copy 4 2 0, Copy 4 6 0] [1, 2, 3, 4, 1, 2, 3, 4] = Ok [Copy 8 2 0]"
    by (simp add: optimize_def split_add_runs_def coalesce_step_def)
  show "\<not> covers [7, 8, 1, 2, 3, 4] [1, 2, 3, 4, 1, 2, 3, 4] 0 [Copy 8 2 0] 8"
    by code_simp
qed

end
