(* ===== verification/Compress_Decoder.thy ===== *)
theory Compress_Decoder
  imports Stream_Codec
begin

text \<open>
  The streaming decoder of \<open>src/src/compress/decoder.rs\<close>: windows are decoded one at a time into a
  buffer of their own and then written out, with a count of bytes and windows. The destination is
  an in-memory writer, which does not fail.
\<close>

section \<open>Definitions\<close>

record DeltaDecoder =
  dd_inner :: StreamDecoder
  bytes_decoded :: u64
  windows_decoded :: u64
  window_buf :: "byte list"

definition DeltaDecoder_with_checksum :: "byte list \<Rightarrow> bool \<Rightarrow> DeltaDecoder" where
  "DeltaDecoder_with_checksum r verify =
     \<lparr> dd_inner = StreamDecoder_new r verify, bytes_decoded = 0, windows_decoded = 0, window_buf = [] \<rparr>"

definition DeltaDecoder_new :: "byte list \<Rightarrow> DeltaDecoder" where
  "DeltaDecoder_new r =
     \<lparr> dd_inner = StreamDecoder_new r True, bytes_decoded = 0, windows_decoded = 0, window_buf = [] \<rparr>"

definition decode_window_to ::
    "Codecs \<Rightarrow> (byte list \<Rightarrow> u32) \<Rightarrow> 'p SourceProvider \<Rightarrow> DeltaDecoder \<Rightarrow> 'p \<Rightarrow> byte list
     \<Rightarrow> (u64 option \<times> DeltaDecoder \<times> 'p \<times> byte list, DecodeError) res" where
  "decode_window_to cs adler P dd source w =
     (let dd = dd\<lparr> window_buf := [] \<rparr> in
     bindR (StreamDecoder_decode_window cs adler P (dd_inner dd) source (window_buf dd)) (\<lambda>(has_more, sd, source, buf).
     let dd = dd\<lparr> dd_inner := sd, window_buf := buf \<rparr> in
     if \<not> has_more then Ok (None, dd, source, w)
     else
     let window_size = of_nat (length (window_buf dd));
         w = write_all w (window_buf dd) in
     Ok (Some window_size,
         dd\<lparr> bytes_decoded := bytes_decoded dd + window_size, windows_decoded := windows_decoded dd + 1 \<rparr>, source, w)))"

lemma decode_window_to_shorter:
  assumes "decode_window_to cs adler P dd source w = Ok (Some n, dd', source', w')"
  shows "sd_file_header (dd_inner dd') \<noteq> None
    \<and> (sd_file_header (dd_inner dd) \<noteq> None \<longrightarrow> length (reader (dd_inner dd')) < length (reader (dd_inner dd)))"
  using assms decode_window_shorter [of cs adler P "dd_inner dd" source "[]" "dd_inner dd'"]
  by (auto simp: decode_window_to_def bindR_eq_Ok Let_def split: if_splits)

text \<open>The loop \<open>while self.decode_window_to(source, writer)?.is_some() {}\<close>, and the count.\<close>

function decode_to ::
    "Codecs \<Rightarrow> (byte list \<Rightarrow> u32) \<Rightarrow> 'p SourceProvider \<Rightarrow> DeltaDecoder \<Rightarrow> 'p \<Rightarrow> byte list
     \<Rightarrow> (u64 \<times> DeltaDecoder \<times> 'p \<times> byte list, DecodeError) res" where
  "decode_to cs adler P dd source w =
     bindR (decode_window_to cs adler P dd source w) (\<lambda>(r, dd, source, w).
     if r \<noteq> None then decode_to cs adler P dd source w
     else Ok (bytes_decoded dd, dd, source, w))"
  by pat_completeness auto
termination
  by (relation "measures [\<lambda>(cs, adler, P, dd, s, w). if sd_file_header (dd_inner dd) = None then 1 else 0,
        \<lambda>(cs, adler, P, dd, s, w). length (reader (dd_inner dd))]")
    (auto dest!: decode_window_to_shorter)

declare decode_to.simps [simp del]

definition compress_decode_all ::
    "Codecs \<Rightarrow> (byte list \<Rightarrow> u32) \<Rightarrow> byte list \<Rightarrow> byte list \<Rightarrow> (byte list, DecodeError) res" where
  "compress_decode_all cs adler source delta = decode_memory cs adler delta source"

section \<open>A window does not depend on the output before it\<close>

text \<open>\<open>onto b\<close>: the same decoder state, with \<open>b\<close> already in the output.\<close>

definition onto :: "byte list \<Rightarrow> 'p DecodeState \<Rightarrow> 'p DecodeState" where
  "onto b st = st\<lparr> d_output := b @ d_output st \<rparr>"

lemma onto_sel [simp]:
  "inst_pos (onto b st) = inst_pos st" "data_pos (onto b st) = data_pos st" "addr_pos (onto b st) = addr_pos st"
  "d_acache (onto b st) = d_acache st" "target_pos (onto b st) = target_pos st" "d_output (onto b st) = b @ d_output st"
  "d_source (onto b st) = d_source st" "copy_buf (onto b st) = copy_buf st"
  by (simp_all add: onto_def)

lemma onto_upd [simp]:
  "(onto b st)\<lparr> inst_pos := i \<rparr> = onto b (st\<lparr> inst_pos := i \<rparr>)"
  "(onto b st)\<lparr> d_acache := c, addr_pos := i \<rparr> = onto b (st\<lparr> d_acache := c, addr_pos := i \<rparr>)"
  "(onto b st)\<lparr> target_pos := t \<rparr> = onto b (st\<lparr> target_pos := t \<rparr>)"
  "(onto b st)\<lparr> d_output := b @ x \<rparr> = onto b (st\<lparr> d_output := x \<rparr>)"
  "(onto b st)\<lparr> d_source := s, copy_buf := u, d_output := b @ x \<rparr> = onto b (st\<lparr> d_source := s, copy_buf := u, d_output := x \<rparr>)"
  "(onto b st)\<lparr> data_pos := i, d_output := b @ x, target_pos := t \<rparr> = onto b (st\<lparr> data_pos := i, d_output := x, target_pos := t \<rparr>)"
  "(onto b st)\<lparr> d_output := b @ x, data_pos := i, target_pos := t \<rparr> = onto b (st\<lparr> d_output := x, data_pos := i, target_pos := t \<rparr>)"
  by (simp_all add: onto_def)

lemma index_at_onto: "index_at (b @ xs) (length b + i) = index_at xs i"
  by (simp add: index_at_def nth_append)

lemma push_from_onto: "push_from n (length b + t) (b @ out) = map_ok (\<lambda>r. b @ r) (push_from n t out)"
proof (induction n arbitrary: t out)
  case (Suc n)
  show ?case using Suc [of "Suc t"] by (auto simp: index_at_onto split: bindR_split)
qed simp

lemma target_copy_onto: "target_copy (length b + t) n (onto b st) = map_ok (onto b) (target_copy t n st)"
  by (auto simp: target_copy_def slice_range_def add.assoc push_from_onto bindR_map_ok map_ok_bindR)

lemma source_copy_onto: "source_copy P off n (onto b st) = map_ok (onto b) (source_copy P off n st)"
  by (auto simp: source_copy_def map_ok_bindR split: option.splits bindR_split)

lemma resolve_size_onto: "resolve_size i t (onto b st) = map_ok (map_prod id (onto b)) (resolve_size i t st)"
  by (auto simp: resolve_size_def split: bindR_split)

lemma exec_sized_onto:
  "exec_sized P d a l off (length b + k) t n (onto b st) = map_ok (onto b) (exec_sized P d a l off k t n st)"
  by (auto simp: exec_sized_def exec_run_def exec_add_def exec_copy_def Let_def source_copy_onto target_copy_onto
      add.assoc bindR_map_ok map_ok_bindR split: bindR_split)

lemma execute_half_onto:
  "execute_half_instruction P secs l off (length b + k) t n (onto b st)
    = map_ok (onto b) (execute_half_instruction P secs l off k t n st)"
  by (auto simp: execute_half_instruction_def resolve_size_onto exec_sized_onto bindR_map_ok map_ok_bindR
      split: prod.splits bindR_split)

lemma decode_step_onto:
  "decode_step P secs l off (length b + k) (onto b st) = map_ok (onto b) (decode_step P secs l off k st)"
  by (auto simp: decode_step_def Let_def execute_half_onto bindR_map_ok map_ok_bindR split: bindR_split)

lemma decode_insts_onto:
  "decode_insts P secs l off (length b + k) (onto b st) = map_ok (onto b) (decode_insts P secs l off k st)"
proof (induction P secs l off k st rule: decode_insts.induct)
  case (1 P secs l off k st)
  show ?case
  proof (cases "inst_pos st < length (s_inst secs)")
    case True
    then show ?thesis
      using 1 by (simp add: decode_insts.simps [of P secs l off k st] decode_insts.simps [of P secs l off "length b + k"]
          decode_step_onto bindR_map_ok map_ok_bindR) (auto intro: bindR_cong)
  qed (simp add: decode_insts.simps)
qed

text \<open>The reservation of the window's length is the one step that looks at the output before the window.\<close>

lemma decode_window_onto:
  "decode_window_with_cache adler P h secs src verify cbuf out cache
    = (if length out + unat (target_window_len h) < 2 ^ 63
       then map_ok (onto out) (decode_window_with_cache adler P h secs src verify cbuf [] cache) else Panic)"
proof -
  let ?st = "\<lambda>out. \<lparr> inst_pos = 0, data_pos = 0, addr_pos = 0, d_acache = AddressCache_init cache,
      target_pos = 0, d_output = out, d_source = src, copy_buf = cbuf \<rparr>"
  have st: "?st out = onto out (?st [])" by (simp add: onto_def)
  have "decode_insts P secs (copy_window_len h) (copy_window_offset h) (length out) (?st out)
      = map_ok (onto out) (decode_insts P secs (copy_window_len h) (copy_window_offset h) 0 (?st []))"
    unfolding st using decode_insts_onto [of P secs _ _ out 0 "?st []"] by simp
  then show ?thesis
    by (auto simp: decode_window_with_cache_def vec_reserve_eq Let_def bindR_map_ok map_ok_bindR slice_from_def
        split: option.splits bindR_split)
qed

lemma decode_window_alone:
  assumes "decode_window_with_cache adler P h secs src verify cbuf out cache = Ok st"
  shows "\<exists>st0. decode_window_with_cache adler P h secs src verify cbuf [] cache = Ok st0 \<and> st = onto out st0"
  using assms by (subst (asm) decode_window_onto) (auto simp: map_ok_eq_Ok split: if_splits)

lemma stream_decode_window_onto:
  "StreamDecoder_decode_window cs adler P sd src out
      = map_ok (\<lambda>(more, sd, src, bs). (more, sd, src, out @ bs)) (StreamDecoder_decode_window cs adler P sd src [])
    \<or> StreamDecoder_decode_window cs adler P sd src out = Panic \<and> 2 ^ 63 \<le> length out + 2 ^ 24"
proof (cases "\<exists>sd1 wh r. read_header sd = Ok sd1 \<and> WindowHeader_decode (reader sd1) = Ok (Some wh, r)")
  case False
  then show ?thesis
    by (auto simp: StreamDecoder_decode_window_def Let_def split: option.splits bindR_split)
next
  case True
  then obtain sd1 wh r where 1: "read_header sd = Ok sd1" "WindowHeader_decode (reader sd1) = Ok (Some wh, r)" by blast
  then have "target_window_len wh \<le> HARD_MAX_WINSIZE" using WindowHeader_decode_Ok [OF 1(2)] by (simp add: window_header_ok_def)
  then have small: "unat (target_window_len wh) \<le> 2 ^ 24" by (simp add: word_le_nat_alt HARD_MAX_WINSIZE_def)
  show ?thesis
  proof (cases "length out + unat (target_window_len wh) < 2 ^ 63")
    case True
    then show ?thesis
      unfolding StreamDecoder_decode_window_def decode_window_onto [of adler P _ _ src _ _ out]
      by (auto simp: 1 Let_def bindR_map_ok map_ok_bindR split: bindR_split)
  next
    case False
    then show ?thesis
      using small unfolding StreamDecoder_decode_window_def decode_window_onto [of adler P _ _ src _ _ out]
      by (auto simp: 1 Let_def split: bindR_split)
  qed
qed

lemma stream_decode_window_alone:
  assumes "StreamDecoder_decode_window cs adler P sd src out = Ok (b, sd', src', out')"
  shows "\<exists>bs. StreamDecoder_decode_window cs adler P sd src [] = Ok (b, sd', src', bs) \<and> out' = out @ bs"
  using assms stream_decode_window_onto [of cs adler P sd src out] by (cases "StreamDecoder_decode_window cs adler P sd src []") auto

section \<open>The stream loop as a step relation\<close>

text \<open>
  The states between two calls of \<open>decode_window\<close>: the decoder, the source and the output so far.
  A step is a call that decoded a window.
\<close>

inductive decodes :: "Codecs \<Rightarrow> (byte list \<Rightarrow> u32) \<Rightarrow> 'p SourceProvider \<Rightarrow> StreamDecoder \<times> 'p \<times> byte list
    \<Rightarrow> StreamDecoder \<times> 'p \<times> byte list \<Rightarrow> bool" for cs adler P where
  start: "decodes cs adler P s s"
| window: "StreamDecoder_decode_window cs adler P sd src out = Ok (True, sd', src', out')
    \<Longrightarrow> decodes cs adler P (sd', src', out') s \<Longrightarrow> decodes cs adler P (sd, src, out) s"

text \<open>The output in memory has come within the length of a window of the end of the address space.\<close>

definition memory_full :: "Codecs \<Rightarrow> (byte list \<Rightarrow> u32) \<Rightarrow> 'p SourceProvider \<Rightarrow> StreamDecoder \<times> 'p \<times> byte list \<Rightarrow> bool" where
  "memory_full cs adler P s \<longleftrightarrow> (\<exists>sd src out. decodes cs adler P s (sd, src, out) \<and> 2 ^ 63 \<le> length out + 2 ^ 24)"

lemma decode_to_lengths:
  "decode_to cs adler P dd src w = Ok (n, dd', src', w') \<Longrightarrow> n = bytes_decoded dd'
    \<and> (\<exists>bs. w' = w @ bs \<and> bytes_decoded dd' = bytes_decoded dd + of_nat (length bs))"
proof (induction cs adler P dd src w arbitrary: n dd' src' w' rule: decode_to.induct)
  case (1 cs adler P dd src w)
  from 1(2) obtain r dd1 src1 w1 where step: "decode_window_to cs adler P dd src w = Ok (r, dd1, src1, w1)"
    by (subst (asm) decode_to.simps) (auto simp: bindR_eq_Ok)
  then obtain bs where bs: "w1 = w @ bs" "bytes_decoded dd1 = bytes_decoded dd + of_nat (length bs)"
    by (auto simp: decode_window_to_def bindR_eq_Ok Let_def write_all_def split: if_splits)
  show ?case
  proof (cases r)
    case None
    then show ?thesis using 1(2) step bs by (subst (asm) decode_to.simps) auto
  next
    case (Some k)
    then have "decode_to cs adler P dd1 src1 w1 = Ok (n, dd', src', w')"
      using 1(2) step by (subst (asm) decode_to.simps) simp
    from 1(1) [OF step refl refl refl _ this] Some obtain bs' where "n = bytes_decoded dd'" "w' = w1 @ bs'"
        "bytes_decoded dd' = bytes_decoded dd1 + of_nat (length bs')" by auto
    then show ?thesis using bs by (auto simp: add.assoc intro!: exI [of _ "bs @ bs'"])
  qed
qed

lemma decode_window_end:
  "StreamDecoder_decode_window cs adler P sd src out = Ok (False, sd', src', out') \<Longrightarrow> out' = out"
  by (auto simp: StreamDecoder_decode_window_def bindR_eq_Ok Let_def split: option.splits)

lemma decode_to_inner:
  "map_ok (\<lambda>(n, dd, src, w). (dd_inner dd, src, w)) (decode_to cs adler P dd src w) = decode_all cs adler P (dd_inner dd) src w
    \<or> decode_all cs adler P (dd_inner dd) src w = Panic \<and> memory_full cs adler P (dd_inner dd, src, w)"
proof (induction cs adler P dd src w rule: decode_to.induct)
  case (1 cs adler P dd src w)
  let ?step = "StreamDecoder_decode_window cs adler P (dd_inner dd) src"
  note unfold = decode_to.simps [of cs adler P dd src w] decode_all.simps [of cs adler P "dd_inner dd" src w] decode_window_to_def
  show ?case
  proof (cases "?step w = Panic \<and> 2 ^ 63 \<le> length w + 2 ^ 24")
    case True
    then have "memory_full cs adler P (dd_inner dd, src, w)" using decodes.start unfolding memory_full_def by blast
    with True show ?thesis by (simp add: unfold(2))
  next
    case False
    then have on: "?step w = map_ok (\<lambda>(more, sd, src, bs). (more, sd, src, w @ bs)) (?step [])"
      using stream_decode_window_onto [of cs adler P "dd_inner dd" src w] by blast
    show ?thesis
    proof (cases "\<exists>sd src1 buf. ?step [] = Ok (True, sd, src1, buf)")
      case True
      then obtain sd src1 buf where step: "?step [] = Ok (True, sd, src1, buf)" by blast
      define dd1 where "dd1 = dd\<lparr> dd_inner := sd, window_buf := buf, bytes_decoded := bytes_decoded dd + of_nat (length buf),
          windows_decoded := windows_decoded dd + 1 \<rparr>"
      have w: "decode_window_to cs adler P dd src w = Ok (Some (of_nat (length buf)), dd1, src1, w @ buf)"
        using step by (simp add: decode_window_to_def Let_def write_all_def dd1_def)
      have "memory_full cs adler P (dd_inner dd, src, w)" if "memory_full cs adler P (sd, src1, w @ buf)"
        using that decodes.window [of cs adler P "dd_inner dd" src w] on step unfolding memory_full_def by fastforce
      then show ?thesis using 1 [OF w refl refl refl] w on step by (simp add: unfold(1,2)) (auto simp: dd1_def)
    next
      case False
      then show ?thesis
        using on decode_window_end [of cs adler P "dd_inner dd" src "[]"] by (cases "?step []") (auto simp: unfold Let_def)
    qed
  qed
qed

lemma decode_to_Ok:
  assumes "decode_all cs adler P (dd_inner dd) src w = Ok (sd, src', w')"
  shows "\<exists>n dd'. decode_to cs adler P dd src w = Ok (n, dd', src', w') \<and> dd_inner dd' = sd"
  using assms decode_to_inner [of cs adler P dd src w] by (auto simp: map_ok_eq_Ok dest!: sym [of "map_ok _ _"])

section \<open>Properties\<close>

text \<open>
  C16: The streaming decoder writes exactly what the decoder into memory appends. For every
  stream, good or bad, and every source, \<open>decode_to\<close> ends with the same inner state, source and
  output as \<open>StreamDecoder::decode_all\<close>, with the same error or panic, although it decodes every
  window into a buffer of its own: a window does not depend on the output before it. On success
  the returned count is the number of bytes written. The one exception is a panic of \<open>decode_all\<close>
  whose output in memory has come within \<open>2 ^ 24\<close> bytes of \<open>2 ^ 63\<close>.
\<close>

theorem decode_to_refines:
  "map_ok (\<lambda>(n, dd', src', w'). (n, dd_inner dd', src', w')) (decode_to cs adler P dd src w)
    = map_ok (\<lambda>(sd, src', w'). (bytes_decoded dd + of_nat (length w' - length w), sd, src', w'))
        (decode_all cs adler P (dd_inner dd) src w)
    \<or> decode_all cs adler P (dd_inner dd) src w = Panic
      \<and> (\<exists>sd src' out. decodes cs adler P (dd_inner dd, src, w) (sd, src', out) \<and> 2 ^ 63 \<le> length out + 2 ^ 24)"
proof (cases "decode_all cs adler P (dd_inner dd) src w = Panic \<and> memory_full cs adler P (dd_inner dd, src, w)")
  case False
  then have "decode_all cs adler P (dd_inner dd) src w
      = map_ok (\<lambda>(n, dd, src, w). (dd_inner dd, src, w)) (decode_to cs adler P dd src w)"
    using decode_to_inner [of cs adler P dd src w] by auto
  then show ?thesis
    using decode_to_lengths [of cs adler P dd src w] by (cases "decode_to cs adler P dd src w") auto
qed (auto simp: memory_full_def)

end
