(* ===== verification/Compress_Encoder.thy ===== *)
theory Compress_Encoder
  imports Engine Pipeline Compress_Decoder
begin

text \<open>
  The streaming encoder of \<open>src/src/compress/encoder.rs\<close>: target data arrives in pieces and leaves
  as windows, with the match engine reused from window to window, the optimiser applied to its
  instructions, and the sections compressed by the secondary backend. The loop over full windows
  is a \<open>partial_function\<close>, because it does not end with a window size of 0.
\<close>

section \<open>Definitions\<close>

record CompressOptions =
  co_level :: u32
  co_window_size :: nat
  co_checksum :: bool
  co_secondary :: SecondaryCompression

definition CompressOptions_default :: CompressOptions where
  "CompressOptions_default =
     \<lparr> co_level = 6, co_window_size = 2 ^ 23, co_checksum = True, co_secondary = NoneC \<rparr>"

record DeltaEncoder =
  de_stream :: StreamEncoder
  de_opts :: CompressOptions
  de_config :: MatcherConfig
  de_source :: "byte list"
  de_engine :: "MatchEngine option"
  de_buffer :: "byte list"
  bytes_in :: u64
  windows_written :: u64
  last_data_size :: nat
  last_inst_size :: nat
  last_addr_size :: nat

definition stream_for :: "Codecs \<Rightarrow> byte list \<Rightarrow> CompressOptions \<Rightarrow> StreamEncoder" where
  "stream_for cs w opts =
     (let stream = StreamEncoder_new w (co_checksum opts) in
      case SecondaryCompression_backend cs (co_secondary opts) of
        Some backend \<Rightarrow> set_secondary_id stream (backend_id backend)
      | None \<Rightarrow> stream)"

definition engine_for :: "Cpu \<Rightarrow> u32 \<Rightarrow> byte list \<Rightarrow> nat \<Rightarrow> (MatchEngine option, EncodeError) res" where
  "engine_for cpu level source winsize =
     (let config = config_for_level level in
      if 0 < level \<and> source \<noteq> [] then
        bindR (MatchEngine_new cpu config (of_nat (length source)) (max winsize 64)) (\<lambda>eng.
        bindR (index_source eng (slice_data source)) (\<lambda>eng. Ok (Some eng)))
      else if 0 < level then
        bindR (MatchEngine_new cpu config 0 (max winsize 64)) (\<lambda>eng. Ok (Some eng))
      else Ok None)"

definition DeltaEncoder_new :: "Cpu \<Rightarrow> Codecs \<Rightarrow> byte list \<Rightarrow> byte list \<Rightarrow> CompressOptions
    \<Rightarrow> (DeltaEncoder, EncodeError) res" where
  "DeltaEncoder_new cpu cs w source opts =
     bindR (engine_for cpu (co_level opts) source (co_window_size opts)) (\<lambda>engine.
     Ok \<lparr> de_stream = stream_for cs w opts, de_opts = opts, de_config = config_for_level (co_level opts),
          de_source = source, de_engine = engine, de_buffer = [], bytes_in = 0, windows_written = 0,
          last_data_size = 0, last_inst_size = 0, last_addr_size = 0 \<rparr>)"

definition delta_find_matches :: "DeltaEncoder \<Rightarrow> byte list \<Rightarrow> (DeltaEncoder \<times> Instruction list, EncodeError) res" where
  "delta_find_matches d target =
     (case de_engine d of
        None \<Rightarrow> Panic
      | Some engine \<Rightarrow>
          bindR (find_matches engine target
            (if de_source d = [] then None else Some (slice_data (de_source d)))) (\<lambda>(engine, insts).
          Ok (d\<lparr> de_engine := Some engine \<rparr>, insts)))"

definition store_instructions :: "byte list \<Rightarrow> Instruction list" where
  "store_instructions window = (if window = [] then [] else [Add (of_nat (length window))])"

definition window_instructions :: "Cpu \<Rightarrow> DeltaEncoder \<Rightarrow> byte list
    \<Rightarrow> (DeltaEncoder \<times> Instruction list, EncodeError) res" where
  "window_instructions cpu d window =
     (if co_level (de_opts d) = 0 then Ok (d, store_instructions window)
      else bindR (delta_find_matches d window) (\<lambda>(d, raw).
        bindR (optimize cpu raw window) (\<lambda>insts. Ok (d, insts))))"

definition delta_emit_instructions :: "WindowEncoder \<Rightarrow> byte list \<Rightarrow> Instruction list
    \<Rightarrow> (WindowEncoder, EncodeError) res" where
  "delta_emit_instructions we target insts =
     bindR (for_each (emit_inst target) insts (we, 0)) (\<lambda>(we, target_pos). Ok we)"

text \<open>Finalising a window: with or without secondary compression.\<close>

definition pack_sections :: "Codecs \<Rightarrow> SecondaryCompression \<Rightarrow> WindowSections \<Rightarrow> (byte list, EncodeError) res" where
  "pack_sections cs secondary sections =
     (case SecondaryCompression_backend cs secondary of
        Some backend \<Rightarrow>
          bindR (map_err EncodeIo (compress_sections backend (ws_data sections) (ws_inst sections) (ws_addr sections)))
            (\<lambda>(comp_data, comp_inst, comp_addr, del).
          assemble \<lparr> ws_source_window = ws_source_window sections, ws_target_len = ws_target_len sections,
            ws_checksum = ws_checksum sections, ws_data = comp_data, ws_inst = comp_inst, ws_addr = comp_addr \<rparr> del)
      | None \<Rightarrow> assemble sections 0)"

definition window_encoder :: "DeltaEncoder \<Rightarrow> WindowEncoder" where
  "window_encoder d =
     (let source_win = source_window_of (de_source d) in
      if 0 < last_data_size d
      then WindowEncoder_with_capacity source_win (co_checksum (de_opts d))
             (last_data_size d) (last_inst_size d) (last_addr_size d)
      else WindowEncoder_new source_win (co_checksum (de_opts d)))"

definition delta_encode_window :: "Cpu \<Rightarrow> Codecs \<Rightarrow> (byte list \<Rightarrow> u32) \<Rightarrow> byte list \<Rightarrow> DeltaEncoder
    \<Rightarrow> (DeltaEncoder, EncodeError) res" where
  "delta_encode_window cpu cs adler window d =
     bindR (window_instructions cpu d window) (\<lambda>(d, insts).
     bindR (delta_emit_instructions (window_encoder d) window insts) (\<lambda>we.
     bindR (finish_sections adler we (Some window)) (\<lambda>sections.
     let d = d\<lparr> last_data_size := length (ws_data sections), last_inst_size := length (ws_inst sections),
                last_addr_size := length (ws_addr sections) \<rparr> in
     bindR (pack_sections cs (co_secondary (de_opts d)) sections) (\<lambda>encoded.
     bindR (write_raw_window (de_stream d) encoded) (\<lambda>stream.
     Ok (d\<lparr> de_stream := stream, windows_written := windows_written d + 1 \<rparr>))))))"

text \<open>Completing a partially buffered window; the subtraction wraps at 64 bits, as in a release build.\<close>

definition complete_buffer :: "Cpu \<Rightarrow> Codecs \<Rightarrow> (byte list \<Rightarrow> u32) \<Rightarrow> byte list \<Rightarrow> DeltaEncoder
    \<Rightarrow> (DeltaEncoder \<times> nat, EncodeError) res" where
  "complete_buffer cpu cs adler data d =
     (if de_buffer d \<noteq> [] then
        let need = (if length (de_buffer d) \<le> co_window_size (de_opts d)
                    then co_window_size (de_opts d) - length (de_buffer d)
                    else co_window_size (de_opts d) + 2 ^ 64 - length (de_buffer d));
            n = min need (length data);
            buffer = de_buffer d @ take n data in
        if length buffer = co_window_size (de_opts d)
        then bindR (delta_encode_window cpu cs adler buffer (d\<lparr> de_buffer := [] \<rparr>)) (\<lambda>d.
          Ok (d\<lparr> de_buffer := [] \<rparr>, n))
        else Ok (d\<lparr> de_buffer := buffer \<rparr>, n)
      else Ok (d, 0))"

partial_function (option) full_windows :: "Cpu \<Rightarrow> Codecs \<Rightarrow> (byte list \<Rightarrow> u32) \<Rightarrow> byte list \<Rightarrow> DeltaEncoder \<Rightarrow> nat
    \<Rightarrow> (DeltaEncoder \<times> nat, EncodeError) res option" where
  "full_windows cpu cs adler data d offset =
     (if offset + co_window_size (de_opts d) \<le> length data then
        let stop = offset + co_window_size (de_opts d) in
        (case delta_encode_window cpu cs adler (take (stop - offset) (drop offset data)) d of
           Ok d \<Rightarrow> full_windows cpu cs adler data d stop
         | Err e \<Rightarrow> Some (Err e)
         | Panic \<Rightarrow> Some Panic)
      else Some (Ok (d, offset)))"

definition buffer_rest :: "byte list \<Rightarrow> DeltaEncoder \<times> nat \<Rightarrow> DeltaEncoder" where
  "buffer_rest data r = (case r of (d, offset) \<Rightarrow>
     if offset < length data then d\<lparr> de_buffer := de_buffer d @ drop offset data \<rparr> else d)"

definition write_target :: "Cpu \<Rightarrow> Codecs \<Rightarrow> (byte list \<Rightarrow> u32) \<Rightarrow> DeltaEncoder \<Rightarrow> byte list
    \<Rightarrow> (DeltaEncoder, EncodeError) res option" where
  "write_target cpu cs adler d data =
     (case complete_buffer cpu cs adler data (d\<lparr> bytes_in := bytes_in d + of_nat (length data) \<rparr>) of
        Ok (d, offset) \<Rightarrow> map_option (map_ok (buffer_rest data)) (full_windows cpu cs adler data d offset)
      | Err e \<Rightarrow> Some (Err e)
      | Panic \<Rightarrow> Some Panic)"

definition delta_finish :: "Cpu \<Rightarrow> Codecs \<Rightarrow> (byte list \<Rightarrow> u32) \<Rightarrow> DeltaEncoder
    \<Rightarrow> (byte list \<times> u64, EncodeError) res" where
  "delta_finish cpu cs adler d =
     bindR (if de_buffer d \<noteq> [] then delta_encode_window cpu cs adler (de_buffer d) (d\<lparr> de_buffer := [] \<rparr>)
            else Ok d) (\<lambda>d.
     bindR (if windows_written d = 0
            then bindR (write_window adler (de_stream d) (WindowEncoder_new None (co_checksum (de_opts d))) (Some []))
              (\<lambda>stream. Ok (d\<lparr> de_stream := stream \<rparr>))
            else Ok d) (\<lambda>d.
     bindR (stream_finish (de_stream d)) (\<lambda>w. Ok (w, windows_written d))))"

definition cap_window :: "CompressOptions \<Rightarrow> byte list \<Rightarrow> CompressOptions" where
  "cap_window opts target =
     (if length target < co_window_size opts then opts\<lparr> co_window_size := max (length target) 64 \<rparr> else opts)"

definition encode_all :: "Cpu \<Rightarrow> Codecs \<Rightarrow> (byte list \<Rightarrow> u32) \<Rightarrow> byte list \<Rightarrow> byte list \<Rightarrow> byte list \<Rightarrow> CompressOptions
    \<Rightarrow> (byte list, EncodeError) res option" where
  "encode_all cpu cs adler w source target opts =
     (case DeltaEncoder_new cpu cs w source (cap_window opts target) of
        Ok enc \<Rightarrow> map_option (\<lambda>r. bindR r (\<lambda>enc. bindR (delta_finish cpu cs adler enc) (\<lambda>(w, n). Ok w)))
          (write_target cpu cs adler enc target)
      | Err e \<Rightarrow> Some (Err e)
      | Panic \<Rightarrow> Some Panic)"

subsection \<open>Independent windows\<close>

text \<open>\<open>slice::chunks\<close> of the standard library.\<close>

function chunks :: "nat \<Rightarrow> 'a list \<Rightarrow> 'a list list" where
  "chunks n xs = (if n = 0 \<or> xs = [] then [] else take n xs # chunks n (drop n xs))"
  by pat_completeness auto
termination by (relation "measure (\<lambda>(n, xs). length xs)") auto

declare chunks.simps [simp del]

text \<open>
  The closure run for each chunk. The chunks are independent and collected in order, so the
  parallel iterator is modelled by a loop over the chunks.
\<close>

definition chunk_instructions :: "Cpu \<Rightarrow> u32 \<Rightarrow> byte list \<Rightarrow> byte list \<Rightarrow> (Instruction list, EncodeError) res" where
  "chunk_instructions cpu level source c =
     (if level = 0 then Ok (store_instructions c)
      else bindR (if source \<noteq> [] then find_matches_with_source cpu (config_for_level level) (slice_data source) c
                  else find_matches_no_source cpu (config_for_level level) c) (\<lambda>raw.
        optimize cpu raw c))"

definition encode_chunk :: "Cpu \<Rightarrow> Codecs \<Rightarrow> (byte list \<Rightarrow> u32) \<Rightarrow> byte list \<Rightarrow> CompressOptions \<Rightarrow> byte list
    \<Rightarrow> (byte list, EncodeError) res" where
  "encode_chunk cpu cs adler source opts c =
     bindR (chunk_instructions cpu (co_level opts) source c) (\<lambda>insts.
     bindR (delta_emit_instructions (WindowEncoder_new (source_window_of source) (co_checksum opts)) c insts) (\<lambda>we.
     bindR (finish_sections adler we (Some c)) (pack_sections cs (co_secondary opts))))"

definition encode_all_parallel :: "Cpu \<Rightarrow> Codecs \<Rightarrow> (byte list \<Rightarrow> u32) \<Rightarrow> byte list \<Rightarrow> byte list \<Rightarrow> byte list
    \<Rightarrow> CompressOptions \<Rightarrow> (byte list, EncodeError) res option" where
  "encode_all_parallel cpu cs adler w source target opts =
     (let opts = cap_window opts target in
      if target = [] then encode_all cpu cs adler w source target opts
      else Some
        (bindR (for_each (\<lambda>c out. map_ok (\<lambda>b. out @ [b]) (encode_chunk cpu cs adler source opts c))
            (chunks (max (co_window_size opts) 64) target) []) (\<lambda>windows.
         bindR (for_each (\<lambda>window stream. write_raw_window stream window) windows (stream_for cs w opts))
           stream_finish)))"

section \<open>Feeding data in pieces\<close>

text \<open>What encoding a window touches: not the buffer, not the byte count, not the options.\<close>

definition framed :: "byte list \<Rightarrow> u64 \<Rightarrow> DeltaEncoder \<Rightarrow> DeltaEncoder" where
  "framed b n d = d\<lparr> de_buffer := b, bytes_in := n \<rparr>"

lemma framed_sel [simp]:
  "de_opts (framed b n d) = de_opts d" "de_source (framed b n d) = de_source d" "de_engine (framed b n d) = de_engine d"
  "de_stream (framed b n d) = de_stream d" "windows_written (framed b n d) = windows_written d"
  "de_buffer (framed b n d) = b" "bytes_in (framed b n d) = n" "window_encoder (framed b n d) = window_encoder d"
  "framed b n (framed b' n' d) = framed b n d"
  by (simp_all add: framed_def window_encoder_def Let_def)

lemma framed_fold:
  "d\<lparr> de_buffer := b \<rparr> = framed b (bytes_in d) d" "d\<lparr> bytes_in := n \<rparr> = framed (de_buffer d) n d"
  by (simp_all add: framed_def)

lemma framed_upd [simp]:
  "(framed b n d)\<lparr> de_engine := e \<rparr> = framed b n (d\<lparr> de_engine := e \<rparr>)"
  "(framed b n d)\<lparr> de_stream := t, windows_written := k \<rparr> = framed b n (d\<lparr> de_stream := t, windows_written := k \<rparr>)"
  "(framed b n d)\<lparr> last_data_size := x, last_inst_size := y, last_addr_size := z \<rparr>
     = framed b n (d\<lparr> last_data_size := x, last_inst_size := y, last_addr_size := z \<rparr>)"
  by (simp_all add: framed_def)

lemma window_instructions_framed:
  "window_instructions cpu (framed b n d) W = map_ok (map_prod (framed b n) id) (window_instructions cpu d W)"
  by (auto simp: window_instructions_def delta_find_matches_def split: option.splits bindR_split)

lemma encode_window_framed:
  "delta_encode_window cpu cs adler W (framed b n d) = map_ok (framed b n) (delta_encode_window cpu cs adler W d)"
  unfolding delta_encode_window_def window_instructions_framed
  by (auto simp: bindR_map_ok map_ok_bindR Let_def split: prod.splits intro!: bindR_cong)

lemma encode_window_keeps:
  assumes "delta_encode_window cpu cs adler W d = Ok d'"
  shows "de_opts d' = de_opts d" "de_buffer d' = de_buffer d" "bytes_in d' = bytes_in d"
proof -
  have "d = framed (de_buffer d) (bytes_in d) d" by (simp add: framed_def)
  then have "d' = framed (de_buffer d) (bytes_in d) d'"
    using assms encode_window_framed [of cpu cs adler W "de_buffer d" "bytes_in d" d] by simp
  then show "de_buffer d' = de_buffer d" "bytes_in d' = bytes_in d" by (metis framed_sel(6), metis framed_sel(7))
  show "de_opts d' = de_opts d"
    using assms
    by (auto simp: delta_encode_window_def window_instructions_def delta_find_matches_def bindR_eq_Ok Let_def split: if_splits option.splits)
qed

text \<open>The full windows at the front of the data, and what is left over.\<close>

function full_chunks :: "nat \<Rightarrow> 'a list \<Rightarrow> 'a list list" where
  "full_chunks n xs = (if 0 < n \<and> n \<le> length xs then take n xs # full_chunks n (drop n xs) else [])"
  by pat_completeness auto
termination by (relation "measure (\<lambda>(n, xs). length xs)") auto

function rest_chunk :: "nat \<Rightarrow> 'a list \<Rightarrow> 'a list" where
  "rest_chunk n xs = (if 0 < n \<and> n \<le> length xs then rest_chunk n (drop n xs) else xs)"
  by pat_completeness auto
termination by (relation "measure (\<lambda>(n, xs). length xs)") auto

declare full_chunks.simps [simp del] rest_chunk.simps [simp del]

lemma full_chunks_short [simp]: "length xs < n \<Longrightarrow> full_chunks n xs = []" "length xs < n \<Longrightarrow> rest_chunk n xs = xs"
  by (simp_all add: full_chunks.simps rest_chunk.simps)

lemma full_chunks_long:
  "0 < n \<Longrightarrow> n \<le> length xs \<Longrightarrow> full_chunks n xs = take n xs # full_chunks n (drop n xs)"
  "0 < n \<Longrightarrow> n \<le> length xs \<Longrightarrow> rest_chunk n xs = rest_chunk n (drop n xs)"
  by (simp_all add: full_chunks.simps [of n xs] rest_chunk.simps [of n xs])

lemma rest_chunk_less: "0 < n \<Longrightarrow> length (rest_chunk n xs) < n"
proof (induction n xs rule: rest_chunk.induct)
  case (1 n xs)
  then show ?case by (cases "n \<le> length xs") (simp_all add: full_chunks_long)
qed

lemma chunks_append:
  assumes "0 < n"
  shows "full_chunks n (xs @ ys) = full_chunks n xs @ full_chunks n (rest_chunk n xs @ ys)
    \<and> rest_chunk n (xs @ ys) = rest_chunk n (rest_chunk n xs @ ys)"
proof (induction "length xs" arbitrary: xs rule: less_induct)
  case less
  show ?case
  proof (cases "n \<le> length xs")
    case True
    then show ?thesis using less [of "drop n xs"] assms by (simp add: full_chunks_long)
  qed simp
qed

lemma chunks_full:
  assumes "0 < n"
  shows "chunks n xs = full_chunks n xs @ (if rest_chunk n xs = [] then [] else [rest_chunk n xs])"
proof (induction "length xs" arbitrary: xs rule: less_induct)
  case less
  show ?case
  proof (cases "n \<le> length xs")
    case True
    then show ?thesis
      using less [of "drop n xs"] assms by (subst chunks.simps) (auto simp: full_chunks_long)
  next
    case False
    then show ?thesis using assms chunks.simps [of n "drop n xs"] by (subst chunks.simps) simp
  qed
qed

lemma full_windows_eq:
  "0 < co_window_size (de_opts d) \<Longrightarrow> off \<le> length data \<Longrightarrow> full_windows cpu cs adler data d off
    = Some (map_ok (\<lambda>d'. (d', length data - length (rest_chunk (co_window_size (de_opts d)) (drop off data))))
        (for_each (delta_encode_window cpu cs adler) (full_chunks (co_window_size (de_opts d)) (drop off data)) d))"
proof (induction "length data - off" arbitrary: off d rule: less_induct)
  case less
  let ?ws = "co_window_size (de_opts d)"
  show ?case
  proof (cases "off + ?ws \<le> length data")
    case True
    let ?W = "take ?ws (drop off data)"
    show ?thesis
    proof (cases "delta_encode_window cpu cs adler ?W d")
      case (Ok d1)
      have "full_windows cpu cs adler data d1 (off + ?ws) = Some (map_ok (\<lambda>d'. (d', length data
          - length (rest_chunk ?ws (drop (off + ?ws) data))))
          (for_each (delta_encode_window cpu cs adler) (full_chunks ?ws (drop (off + ?ws) data)) d1))"
        using less.hyps [of "off + ?ws" d1] less.prems True encode_window_keeps(1) [OF Ok] by simp
      then show ?thesis
        using less.prems True Ok by (subst full_windows.simps) (simp add: full_chunks_long Let_def add.commute)
    qed (use less.prems True in \<open>subst full_windows.simps, simp add: full_chunks_long Let_def\<close>)+
  qed (use less.prems in \<open>subst full_windows.simps, simp\<close>)
qed

lemma rest_chunk_le: "length (rest_chunk n xs) \<le> length xs"
proof (induction n xs rule: rest_chunk.induct)
  case (1 n xs)
  then show ?case by (subst rest_chunk.simps) auto
qed

lemma rest_chunk_drop: "drop (length xs - length (rest_chunk n xs)) xs = rest_chunk n xs"
proof (induction n xs rule: rest_chunk.induct)
  case (1 n xs)
  show ?case
  proof (cases "0 < n \<and> n \<le> length xs")
    case True
    let ?r = "rest_chunk n (drop n xs)"
    have r: "rest_chunk n xs = ?r" using True by (intro full_chunks_long) simp_all
    have "length xs - length ?r = length (drop n xs) - length ?r + n"
      using True rest_chunk_le [of n "drop n xs"] unfolding length_drop by arith
    then have "drop (length xs - length ?r) xs = drop (length (drop n xs) - length ?r) (drop n xs)"
      by (simp only: drop_drop)
    then show ?thesis unfolding r using 1 [OF True] by (simp only:)
  qed (use rest_chunk.simps [of n xs] in auto)
qed

text \<open>The tail of a call: full windows straight from the data, the rest into an empty buffer.\<close>

lemma full_windows_rest:
  assumes "0 < co_window_size (de_opts d)" "de_buffer d = []" "off \<le> length data"
  shows "map_option (map_ok (buffer_rest data)) (full_windows cpu cs adler data d off)
    = Some (map_ok (framed (rest_chunk (co_window_size (de_opts d)) (drop off data)) (bytes_in d))
        (for_each (delta_encode_window cpu cs adler) (full_chunks (co_window_size (de_opts d)) (drop off data)) d))"
proof -
  let ?r = "rest_chunk (co_window_size (de_opts d)) (drop off data)"
  have keeps: "for_each (delta_encode_window cpu cs adler) Ws d = Ok d' \<Longrightarrow>
      de_buffer d' = de_buffer d \<and> bytes_in d' = bytes_in d" for Ws d d'
    by (induction Ws arbitrary: d) (auto simp: bindR_eq_Ok encode_window_keeps)
  have r: "length ?r \<le> length data - off" using rest_chunk_le [of _ "drop off data"] by simp
  then have "length data - length ?r = length data - off - length ?r + off" using assms(3) by arith
  then have "drop (length data - length ?r) data = ?r" using rest_chunk_drop [of "drop off data"] by simp
  then have "buffer_rest data (d', length data - length ?r) = framed ?r (bytes_in d') d'" if "de_buffer d' = []" for d'
    using that r assms(3) by (auto simp: buffer_rest_def framed_def)
  then show ?thesis
    unfolding full_windows_eq [OF assms(1,3)] using assms(2) keeps
    by (cases "for_each (delta_encode_window cpu cs adler) (full_chunks (co_window_size (de_opts d)) (drop off data)) d") auto
qed

text \<open>
  One call of \<open>write_target\<close>: the windows of the buffered and the new bytes together are encoded in
  order, and the rest stays in the buffer.
\<close>

lemma for_each_framed: "for_each (delta_encode_window cpu cs adler) Ws (framed b n d)
    = map_ok (framed b n) (for_each (delta_encode_window cpu cs adler) Ws d)"
  by (induction Ws arbitrary: d) (simp_all add: encode_window_framed bindR_map_ok map_ok_bindR)

lemma write_target_eq:
  fixes data :: "byte list"
  assumes "0 < co_window_size (de_opts d)" "length (de_buffer d) < co_window_size (de_opts d)"
  defines "ws \<equiv> co_window_size (de_opts d)" and "all \<equiv> de_buffer d @ data"
  shows "write_target cpu cs adler d data
    = Some (map_ok (framed (rest_chunk ws all) (bytes_in d + of_nat (length data)))
        (for_each (delta_encode_window cpu cs adler) (full_chunks ws all) d))"
proof -
  define n where "n = bytes_in d + of_nat (length data)"
  let ?E = "delta_encode_window cpu cs adler"
  have start: "d\<lparr> bytes_in := bytes_in d + of_nat (length data) \<rparr> = framed (de_buffer d) n d"
    unfolding n_def by (rule framed_fold)
  consider (empty) "de_buffer d = []" | (short) "de_buffer d \<noteq> []" "length all < ws" | (long) "de_buffer d \<noteq> []" "ws \<le> length all"
    by linarith
  then show ?thesis
  proof cases
    case empty
    then have "de_buffer (framed [] n d) = []" "0 < co_window_size (de_opts (framed [] n d))" using assms(1) by simp_all
    note full_windows_rest [OF this(2,1), of 0 data cpu cs adler]
    with empty show ?thesis
      unfolding write_target_def start by (simp add: complete_buffer_def all_def ws_def for_each_framed n_def)
  next
    case short
    have "complete_buffer cpu cs adler data (framed (de_buffer d) n d) = Ok (framed all n d, length data)"
      using short by (auto simp: complete_buffer_def all_def ws_def Let_def framed_fold)
    moreover have "full_windows cpu cs adler data (framed all n d) (length data) = Some (Ok (framed all n d, length data))"
      using assms(1) by (subst full_windows.simps) simp
    ultimately show ?thesis
      unfolding write_target_def start using short by (simp add: buffer_rest_def n_def)
  next
    case long
    define k where "k = ws - length (de_buffer d)"
    have k: "k \<le> length data" "take ws all = de_buffer d @ take k data" "drop k data = drop ws all"
      "length (take ws all) = ws" "length (de_buffer d) \<le> ws"
      using long assms(2) by (simp_all add: k_def all_def ws_def)
    have "complete_buffer cpu cs adler data (framed (de_buffer d) n d)
        = bindR (?E (take ws all) (framed [] n d)) (\<lambda>d. Ok (framed [] (bytes_in d) d, k))"
      using long(1) k by (simp add: complete_buffer_def Let_def framed_fold min_absorb1 flip: ws_def k_def)
    moreover have "map_option (map_ok (buffer_rest data)) (full_windows cpu cs adler data (framed [] n d1) k)
      = Some (map_ok (framed (rest_chunk ws all) n) (for_each ?E (full_chunks ws (drop ws all)) d1))"
      if "?E (take ws all) d = Ok d1" for d1
      using full_windows_rest [of "framed [] n d1" k data cpu cs adler] encode_window_keeps(1) [OF that] assms(1) long(2) k
      by (simp add: ws_def for_each_framed full_chunks_long(2))
    moreover have "full_chunks ws all = take ws all # full_chunks ws (drop ws all)"
      using assms(1) long(2) by (simp add: full_chunks_long ws_def)
    ultimately show ?thesis
      unfolding write_target_def start
      by (cases "?E (take ws all) d") (simp_all add: encode_window_framed n_def)
  qed
qed

lemma for_each_keeps_opts:
  "for_each (delta_encode_window cpu cs adler) Ws d = Ok d' \<Longrightarrow> de_opts d' = de_opts d"
  by (induction Ws arbitrary: d) (auto simp: bindR_eq_Ok encode_window_keeps)

lemma write_target_append:
  assumes "0 < co_window_size (de_opts d)" "length (de_buffer d) < co_window_size (de_opts d)"
  shows "write_target cpu cs adler d (xs @ ys) = (case write_target cpu cs adler d xs of
      Some (Ok d') \<Rightarrow> write_target cpu cs adler d' ys | r \<Rightarrow> r)"
proof -
  let ?E = "delta_encode_window cpu cs adler" and ?ws = "co_window_size (de_opts d)"
  let ?xs = "de_buffer d @ xs"
  note split = chunks_append [OF assms(1), of ?xs ys]
  show ?thesis
  proof (cases "for_each ?E (full_chunks ?ws ?xs) d")
    case (Ok d1)
    have o: "de_opts d1 = de_opts d" by (rule for_each_keeps_opts [OF Ok])
    define d2 where "d2 = framed (rest_chunk ?ws ?xs) (bytes_in d + of_nat (length xs)) d1"
    have "length (de_buffer d2) < ?ws" using rest_chunk_less [OF assms(1)] by (simp add: d2_def)
    then have "write_target cpu cs adler d2 ys = Some (map_ok (framed (rest_chunk ?ws (rest_chunk ?ws ?xs @ ys))
        (bytes_in d + of_nat (length xs) + of_nat (length ys)))
        (for_each ?E (full_chunks ?ws (rest_chunk ?ws ?xs @ ys)) d1))"
      using write_target_eq [of d2 cpu cs adler ys] assms(1) o by (simp add: d2_def for_each_framed)
    then show ?thesis
      using write_target_eq [OF assms, of cpu cs adler xs] write_target_eq [OF assms, of cpu cs adler "xs @ ys"] Ok split
      by (simp add: for_each_append add.assoc flip: d2_def)
  qed (use write_target_eq [OF assms, of cpu cs adler xs] write_target_eq [OF assms, of cpu cs adler "xs @ ys"] split
      in \<open>simp_all add: for_each_append\<close>)
qed

text \<open>A caller that feeds the pieces one after the other.\<close>

fun write_targets :: "Cpu \<Rightarrow> Codecs \<Rightarrow> (byte list \<Rightarrow> u32) \<Rightarrow> DeltaEncoder \<Rightarrow> byte list list
    \<Rightarrow> (DeltaEncoder, EncodeError) res option" where
  "write_targets cpu cs adler d [] = Some (Ok d)"
| "write_targets cpu cs adler d (p # ps) = (case write_target cpu cs adler d p of
     Some (Ok d') \<Rightarrow> write_targets cpu cs adler d' ps | r \<Rightarrow> r)"

lemma write_target_Nil:
  assumes "0 < co_window_size (de_opts d)" "length (de_buffer d) < co_window_size (de_opts d)"
  shows "write_target cpu cs adler d [] = Some (Ok d)"
  using write_target_eq [OF assms, of cpu cs adler "[]"] assms(2) by (simp add: framed_def)

lemma write_target_keeps:
  assumes "0 < co_window_size (de_opts d)" "length (de_buffer d) < co_window_size (de_opts d)"
    and "write_target cpu cs adler d data = Some (Ok d')"
  shows "de_opts d' = de_opts d" "length (de_buffer d') < co_window_size (de_opts d')"
  using assms(3) rest_chunk_less [OF assms(1)] for_each_keeps_opts
  unfolding write_target_eq [OF assms(1,2)] by (fastforce simp: map_ok_eq_Ok)+

lemma write_targets_concat:
  "0 < co_window_size (de_opts d) \<Longrightarrow> length (de_buffer d) < co_window_size (de_opts d) \<Longrightarrow>
    write_targets cpu cs adler d ps = write_target cpu cs adler d (concat ps)"
proof (induction ps arbitrary: d)
  case Nil
  then show ?case by (simp add: write_target_Nil)
next
  case (Cons p ps)
  have "write_targets cpu cs adler d' ps = write_target cpu cs adler d' (concat ps)"
    if "write_target cpu cs adler d p = Some (Ok d')" for d'
    using Cons.IH [of d'] write_target_keeps [OF Cons.prems that] Cons.prems(1) by simp
  then show ?case
    using write_target_append [OF Cons.prems, of cpu cs adler p "concat ps"]
    by (auto split: option.splits res.splits)
qed

section \<open>Windows that read back\<close>

text \<open>The secondary compressors whose windows the decoder can read, and the id it reads them under.\<close>

fun secondary_ok :: "Codecs \<Rightarrow> SecondaryCompression \<Rightarrow> bool" where
  "secondary_ok cs NoneC \<longleftrightarrow> True"
| "secondary_ok cs Lzma \<longleftrightarrow> codecs_lossless cs \<and> backend_total (LzmaBackend cs)"
| "secondary_ok cs (Zlib level) \<longleftrightarrow> codecs_lossless cs \<and> backend_total (ZlibBackend_new cs level)"
| "secondary_ok cs (Custom b) \<longleftrightarrow> False"

definition sid_of :: "Codecs \<Rightarrow> SecondaryCompression \<Rightarrow> byte option" where
  "sid_of cs sc = map_option backend_id (SecondaryCompression_backend cs sc)"

definition header_for :: "Codecs \<Rightarrow> SecondaryCompression \<Rightarrow> FileHeader" where
  "header_for cs sc = (case sid_of cs sc of
     Some i \<Rightarrow> \<lparr> hdr_ind = VCD_SECONDARY, secondary_id = Some i, app_header = None \<rparr>
   | None \<Rightarrow> FileHeader_default)"

lemma header_for_ok: "file_header_ok (header_for cs sc)" "secondary_id (file_header_canon (header_for cs sc)) = sid_of cs sc"
  by (auto simp: header_for_def file_header_ok_def file_header_canon_def FileHeader_default_def VCD_SECONDARY_def
      VCD_INVHDR_def VCD_CODETABLE_def split: option.splits)

lemma stream_for_holds: "stream_holds w (header_for cs (co_secondary opts)) (stream_for cs w opts) []"
  by (auto simp: stream_for_def header_for_def sid_of_def stream_holds_def StreamEncoder_new_def set_secondary_id_def
      FileHeader_default_def Let_def split: option.splits)

lemma pack_sections_ok:
  assumes "secondary_ok cs sc"
  shows "\<exists>ws' del. pack_sections cs sc ws
      = Ok (window_header_bytes (assemble_header ws' del) @ ws_data ws' @ ws_inst ws' @ ws_addr ws')
    \<and> repack cs (sid_of cs sc) ws ws' del"
proof (cases "SecondaryCompression_backend cs sc")
  case None
  then show ?thesis
    by (intro exI [of _ ws] exI [of _ 0]) (simp add: pack_sections_def assemble_eq repack_refl)
next
  case (Some B)
  then have sc: "sc = Lzma \<or> (\<exists>level. sc = Zlib level)" "codecs_lossless cs" and total: "backend_total B"
    using assms by (cases sc; auto simp: SecondaryCompression_backend_def)+
  obtain d i a del where c: "compress_sections B (ws_data ws) (ws_inst ws) (ws_addr ws) = Ok (d, i, a, del)"
    using compress_sections_total [OF total] by blast
  let ?ws = "\<lparr> ws_source_window = ws_source_window ws, ws_target_len = ws_target_len ws,
      ws_checksum = ws_checksum ws, ws_data = d, ws_inst = i, ws_addr = a \<rparr>"
  have "repack cs (sid_of cs sc) ws ?ws del"
    using builtin_sections_roundtrip [OF sc(2,1) Some c] compress_sections_Ok [OF c] Some
    by (auto simp: repack_def sid_of_def intro: compress_section_le)
  then show ?thesis
    by (intro exI [of _ ?ws] exI [of _ del]) (simp add: pack_sections_def Some c assemble_eq)
qed

lemma store_covers: "length W < 2 ^ 32 \<Longrightarrow> covers S W 0 (store_instructions W) (length W)"
  using emit_add_all_covers [of W S] by (simp add: store_instructions_def emit_add_all_def)

abbreviation reads :: "Codecs \<Rightarrow> (byte list \<Rightarrow> u32) \<Rightarrow> SecondaryCompression \<Rightarrow> byte list \<Rightarrow> byte list \<Rightarrow> byte list \<Rightarrow> bool" where
  "reads cs adler sc \<equiv> reads_as cs adler slice_provider (\<lambda>s. s) (\<lambda>s. length s < 2 ^ 64) (sid_of cs sc) True"

text \<open>From covering instructions to a window that reads back, the part both encoders share.\<close>

lemma packed_window:
  assumes "covers S W 0 insts (length W)" "length W \<le> 2 ^ 24" "length S < 2 ^ 63" "secondary_ok cs sc"
  shows "\<exists>we ws bs. delta_emit_instructions (WindowEncoder_new (source_window_of S) chk) W insts = Ok we
     \<and> finish_sections adler we (Some W) = (Ok ws :: (_, EncodeError) res)
     \<and> pack_sections cs sc ws = Ok bs \<and> reads cs adler sc S bs W"
proof -
  obtain we ws where we: "emit_instructions (WindowEncoder_new (source_window_of S) chk) W 0 insts = Ok we"
    "finish_sections adler we (Some W) = (Ok ws :: (_, EncodeError) res)"
    "\<forall>ws' del. repack cs (sid_of cs sc) ws ws' del \<longrightarrow> reads cs adler sc S
       (window_header_bytes (assemble_header ws' del) @ ws_data ws' @ ws_inst ws' @ ws_addr ws') W"
    using emitted_window [OF assms(1-3)] by blast
  moreover obtain ws' del where "pack_sections cs sc ws
      = Ok (window_header_bytes (assemble_header ws' del) @ ws_data ws' @ ws_inst ws' @ ws_addr ws')"
      "repack cs (sid_of cs sc) ws ws' del"
    using pack_sections_ok [OF assms(4)] by blast
  ultimately show ?thesis by (auto simp: emit_instructions_def delta_emit_instructions_def)
qed

section \<open>The streaming encoder\<close>

definition window_fits :: "u32 \<Rightarrow> byte list \<Rightarrow> byte list \<Rightarrow> bool" where
  "window_fits level S W \<longleftrightarrow> length W \<le> 2 ^ 24 \<and> (level = 0 \<or> merge_safe S W)"

definition encoder_inv :: "Codecs \<Rightarrow> (byte list \<Rightarrow> u32) \<Rightarrow> byte list \<Rightarrow> byte list \<Rightarrow> CompressOptions
    \<Rightarrow> DeltaEncoder \<Rightarrow> byte list list \<Rightarrow> byte list list \<Rightarrow> bool" where
  "encoder_inv cs adler w0 S opts d bss Ts \<longleftrightarrow> de_opts d = opts \<and> de_source d = S
     \<and> stream_holds w0 (header_for cs (co_secondary opts)) (de_stream d) bss
     \<and> list_all2 (reads cs adler (co_secondary opts) S) bss Ts \<and> windows_written d = of_nat (length bss)
     \<and> (co_level opts \<noteq> 0 \<longrightarrow> (\<exists>E. de_engine d = Some E \<and> engine_ok E (length S)))"

lemma window_instructions_ok:
  assumes "encoder_inv cs adler w0 S opts d bss Ts" "window_fits (co_level opts) S W" "length S < 2 ^ 63"
  shows "\<exists>e insts. window_instructions cpu d W = Ok (d\<lparr> de_engine := e \<rparr>, insts)
    \<and> encoder_inv cs adler w0 S opts (d\<lparr> de_engine := e \<rparr>) bss Ts \<and> covers S W 0 insts (length W)"
proof (cases "co_level opts = 0")
  case True
  then show ?thesis
    using assms store_covers [of W S]
    by (intro exI [of _ "de_engine d"] exI [of _ "store_instructions W"])
      (auto simp: window_instructions_def encoder_inv_def window_fits_def)
next
  case False
  then obtain E where E: "de_engine d = Some E" "engine_ok E (length S)" "de_source d = S" "de_opts d = opts"
    using assms(1) by (auto simp: encoder_inv_def)
  have W: "length W < 2 ^ 32" "merge_safe S W" using assms(2) False by (auto simp: window_fits_def)
  define src where "src = (if S = [] then None else Some S)"
  have src: "slice_source.source_bytes src = S" "\<forall>s. src = Some s \<longrightarrow> length s < 2 ^ 63"
      "map_option slice_data src = (if S = [] then None else Some (slice_data S))"
    using assms(3) by (auto simp: src_def slice_source.source_bytes_def)
  obtain E' raw where raw: "find_matches E W (if S = [] then None else Some (slice_data S)) = Ok (E', raw)"
      "engine_ok E' (length S)" "covers S W 0 raw (length W)" "list_all inst_wide raw"
    using slice_source.find_matches_ok [OF src(2) _ W(1), of E] src E(2) by (auto simp: returns_def)
  obtain insts where "optimize cpu raw W = Ok insts" "covers S W 0 insts (length W)"
    using optimize_ok [OF raw(3) merge_safe_joins [OF W(2) raw(3,4)] W(1) assms(3)] by blast
  then show ?thesis
    using E raw False assms(1)
    by (intro exI [of _ "Some E'"] exI [of _ insts])
      (auto simp: window_instructions_def delta_find_matches_def encoder_inv_def)
qed

lemma encode_window_ok:
  assumes "encoder_inv cs adler w0 S opts d bss Ts" "window_fits (co_level opts) S W" "length S < 2 ^ 63"
    and "secondary_ok cs (co_secondary opts)"
  shows "\<exists>d' bs. delta_encode_window cpu cs adler W d = Ok d' \<and> encoder_inv cs adler w0 S opts d' (bss @ [bs]) (Ts @ [W])"
proof -
  obtain e insts where i: "window_instructions cpu d W = Ok (d\<lparr> de_engine := e \<rparr>, insts)"
      "encoder_inv cs adler w0 S opts (d\<lparr> de_engine := e \<rparr>) bss Ts" "covers S W 0 insts (length W)"
    using window_instructions_ok [OF assms(1-3)] by blast
  define d1 where "d1 = d\<lparr> de_engine := e \<rparr>"
  have inv: "encoder_inv cs adler w0 S opts d1 bss Ts" using i(2) by (simp add: d1_def)
  then have we: "window_encoder d1 = WindowEncoder_new (source_window_of S) (co_checksum opts)" and o: "de_opts d1 = opts"
    and h: "file_header (de_stream d1) = header_for cs (co_secondary opts)"
    by (auto simp: window_encoder_def Let_def encoder_inv_def WindowEncoder_new_def WindowEncoder_with_capacity_def stream_holds_def)
  obtain enc ws bs where p: "delta_emit_instructions (window_encoder d1) W insts = Ok enc"
      "finish_sections adler enc (Some W) = (Ok ws :: (_, EncodeError) res)"
      "pack_sections cs (co_secondary opts) ws = Ok bs" "reads cs adler (co_secondary opts) S bs W"
    using packed_window [OF i(3) _ assms(3,4)] assms(2) unfolding we window_fits_def by blast
  define d2 where "d2 = d1\<lparr> last_data_size := length (ws_data ws), last_inst_size := length (ws_inst ws),
      last_addr_size := length (ws_addr ws) \<rparr>"
  have d2: "de_stream d2 = de_stream d1" "de_opts d2 = opts" "windows_written d2 = windows_written d1"
    using o by (simp_all add: d2_def)
  define d3 where "d3 = d2\<lparr> de_stream := written (de_stream d1) bs, windows_written := windows_written d1 + 1 \<rparr>"
  have "delta_encode_window cpu cs adler W d = Ok d3"
    using p(1-3) d2 h o header_for_ok(1)
    by (simp add: delta_encode_window_def i(1) Let_def write_raw_window_eq d3_def flip: d1_def d2_def)
  moreover have "encoder_inv cs adler w0 S opts d3 (bss @ [bs]) (Ts @ [W])"
    using inv p(4) written_holds unfolding encoder_inv_def
    by (auto simp: d3_def d2_def list_all2_appendI)
  ultimately show ?thesis by blast
qed

lemma encode_windows_ok:
  assumes "length S < 2 ^ 63" "secondary_ok cs (co_secondary opts)"
  shows "encoder_inv cs adler w0 S opts d bss Ts \<Longrightarrow> \<forall>W \<in> set Ws. window_fits (co_level opts) S W \<Longrightarrow>
    \<exists>d' bss'. for_each (delta_encode_window cpu cs adler) Ws d = Ok d' \<and> encoder_inv cs adler w0 S opts d' bss' (Ts @ Ws)"
proof (induction Ws arbitrary: d bss Ts)
  case (Cons W Ws)
  obtain d1 bs where 1: "delta_encode_window cpu cs adler W d = Ok d1"
      "encoder_inv cs adler w0 S opts d1 (bss @ [bs]) (Ts @ [W])"
    using encode_window_ok [OF Cons.prems(1) _ assms, of W cpu] Cons.prems(2) by auto
  from Cons.IH [OF 1(2)] Cons.prems(2) 1(1) show ?case by auto
qed auto

lemma encoder_new_ok:
  assumes "length S < 2 ^ 63"
  shows "\<exists>d. DeltaEncoder_new cpu cs w S opts = Ok d \<and> encoder_inv cs adler w S opts d [] [] \<and> de_buffer d = []"
proof -
  let ?new = "MatchEngine_new cpu (config_for_level (co_level opts))"
  have "returns (engine_for cpu (co_level opts) S (co_window_size opts))
      (\<lambda>r. co_level opts \<noteq> 0 \<longrightarrow> (\<exists>E. r = Some E \<and> engine_ok E (length S)))"
    unfolding engine_for_def Let_def
    using returns_mono [OF slice_source.index_source_ok [OF assms]]
      returns_mono [OF MatchEngine_new_ok [OF config_ok_level, where k = "length S"]]
    by (auto simp: wp word_neq_0_conv)
  then obtain e where "engine_for cpu (co_level opts) S (co_window_size opts) = Ok e"
      "co_level opts \<noteq> 0 \<longrightarrow> (\<exists>E. e = Some E \<and> engine_ok E (length S))"
    by (auto simp: returns_def)
  then show ?thesis using stream_for_holds [of w cs opts] by (simp add: DeltaEncoder_new_def encoder_inv_def)
qed

lemma stream_finish_ok:
  assumes "stream_holds w0 (header_for cs sc) st bss" "list_all2 (reads cs adler sc S) bss Ts" "bss \<noteq> []" "length S < 2 ^ 63"
    and "length (concat Ts) < 2 ^ 63"
  shows "\<exists>delta. stream_finish st = (Ok (w0 @ delta) :: (_, EncodeError) res) \<and> decode_memory cs adler delta S = Ok (concat Ts)"
  using stream_finish_holds [OF assms(1,3), where 'a = EncodeError] assms(2,4,5)
    decode_memory_stream [of cs adler "header_for cs sc" S bss Ts] header_for_ok
  by (intro exI [of _ "file_header_bytes (header_for cs sc) @ concat bss"]) simp

lemma finish_ok:
  assumes "encoder_inv cs adler w0 S opts d bss Ts" "length S < 2 ^ 63" "secondary_ok cs (co_secondary opts)"
    and "de_buffer d \<noteq> [] \<longrightarrow> window_fits (co_level opts) S (de_buffer d)" "length Ts < 2 ^ 63"
    and "length (concat Ts) + length (de_buffer d) < 2 ^ 63"
  shows "\<exists>delta. delta_finish cpu cs adler d = Ok (w0 @ delta, of_nat (length Ts + (if de_buffer d = [] then 0 else 1)))
    \<and> decode_memory cs adler delta S = Ok (concat Ts @ de_buffer d)"
proof -
  let ?Ts = "Ts @ (if de_buffer d = [] then [] else [de_buffer d])"
  have "encoder_inv cs adler w0 S opts (d\<lparr> de_buffer := [] \<rparr>) bss Ts"
    using assms(1) by (simp add: encoder_inv_def)
  from encode_window_ok [OF this _ assms(2,3), of "de_buffer d" cpu] assms(1,4)
  obtain d1 bss1 where d1: "(if de_buffer d \<noteq> [] then delta_encode_window cpu cs adler (de_buffer d) (d\<lparr> de_buffer := [] \<rparr>)
      else Ok d) = Ok d1" "encoder_inv cs adler w0 S opts d1 bss1 ?Ts"
    by (cases "de_buffer d = []") auto
  note inv = d1(2) [unfolded encoder_inv_def]
  have len: "length bss1 = length ?Ts" using inv list_all2_lengthD by blast
  have none: "windows_written d1 = 0 \<longleftrightarrow> bss1 = []"
  proof
    assume "windows_written d1 = 0"
    then have "unat (of_nat (length bss1) :: u64) = 0" using inv by simp
    moreover have "length bss1 < 2 ^ 64" using len assms(5) by simp
    ultimately show "bss1 = []" using unat_of_nat_id [of "length bss1", where ?'w = 64] by simp
  qed (use inv in simp)
  show ?thesis
  proof (cases "bss1 = []")
    case False
    have "length (concat ?Ts) < 2 ^ 63" using assms(6) by simp
    then obtain delta where "stream_finish (de_stream d1) = (Ok (w0 @ delta) :: (_, EncodeError) res)"
        "decode_memory cs adler delta S = Ok (concat ?Ts)"
      using stream_finish_ok [OF _ _ False assms(2)] inv by blast
    then show ?thesis
      using d1(1) none False inv len by (intro exI [of _ delta]) (simp add: delta_finish_def)
  next
    case True
    then have Ts: "Ts = []" "de_buffer d = []" using len by (simp_all split: if_splits)
    obtain ws where ws: "finish_sections adler (WindowEncoder_new None (co_checksum opts)) (Some []) = (Ok ws :: (_, EncodeError) res)"
        "reads cs adler (co_secondary opts) S (window_header_bytes (assemble_header ws 0) @ ws_data ws @ ws_inst ws @ ws_addr ws) []"
      using empty_window [OF assms(2)] by blast
    let ?bs = "window_header_bytes (assemble_header ws 0) @ ws_data ws @ ws_inst ws @ ws_addr ws"
    have "file_header_ok (file_header (de_stream d1))" using inv header_for_ok(1) by (simp add: stream_holds_def)
    then have w: "write_window adler (de_stream d1) (WindowEncoder_new None (co_checksum opts)) (Some [])
        = (Ok (written (de_stream d1) ?bs) :: (_, EncodeError) res)" by (rule write_window_eq [OF _ ws(1)])
    have "stream_holds w0 (header_for cs (co_secondary opts)) (written (de_stream d1) ?bs) [?bs]"
      using inv True written_holds by fastforce
    from stream_finish_ok [OF this, of adler S "[[]]"] obtain delta where
        "stream_finish (written (de_stream d1) ?bs) = (Ok (w0 @ delta) :: (_, EncodeError) res)"
        "decode_memory cs adler delta S = Ok []"
      using ws(2) assms(2) by auto
    then show ?thesis
      using d1(1) none True inv w Ts by (intro exI [of _ delta]) (simp add: delta_finish_def)
  qed
qed

lemma chunks_concat [simp]: "0 < n \<Longrightarrow> concat (chunks n xs) = xs"
proof (induction n xs rule: chunks.induct)
  case (1 n xs)
  then show ?case by (subst chunks.simps) auto
qed

lemma full_chunks_concat: "0 < n \<Longrightarrow> concat (full_chunks n xs) @ rest_chunk n xs = xs"
  using chunks_concat [of n xs] by (auto simp: chunks_full split: if_splits)

lemma length_chunks: "length (chunks n xs) \<le> length xs"
proof (induction n xs rule: chunks.induct)
  case (1 n xs)
  show ?case
  proof (cases "n = 0 \<or> xs = []")
    case False
    then have "length (chunks n xs) = Suc (length (chunks n (drop n xs)))" by (simp add: chunks.simps [of n xs])
    moreover have "length (drop n xs) < length xs" using False by simp
    ultimately show ?thesis using 1 [OF False] by linarith
  qed (simp add: chunks.simps [of n xs])
qed

text \<open>A new encoder, one call and the end of the stream.\<close>

lemma encoder_roundtrip:
  assumes "0 < co_window_size opts" "length S < 2 ^ 63" "length T < 2 ^ 63" "secondary_ok cs (co_secondary opts)"
    and "\<forall>W \<in> set (chunks (co_window_size opts) T). window_fits (co_level opts) S W"
  shows "\<exists>d0 d delta. DeltaEncoder_new cpu cs w S opts = Ok d0 \<and> de_opts d0 = opts \<and> de_buffer d0 = []
    \<and> write_target cpu cs adler d0 T = Some (Ok d)
    \<and> delta_finish cpu cs adler d = Ok (w @ delta, of_nat (length (chunks (co_window_size opts) T)))
    \<and> decode_memory cs adler delta S = Ok T"
proof -
  let ?ws = "co_window_size opts"
  obtain d0 where d0: "DeltaEncoder_new cpu cs w S opts = Ok d0" "encoder_inv cs adler w S opts d0 [] []" "de_buffer d0 = []"
    using encoder_new_ok [OF assms(2)] by blast
  have o: "de_opts d0 = opts" using d0(2) by (simp add: encoder_inv_def)
  have fit: "\<forall>W \<in> set (full_chunks ?ws T). window_fits (co_level opts) S W"
      "rest_chunk ?ws T \<noteq> [] \<longrightarrow> window_fits (co_level opts) S (rest_chunk ?ws T)"
    using assms(5) by (auto simp: chunks_full [OF assms(1)] split: if_splits)
  obtain d1 bss where d1: "for_each (delta_encode_window cpu cs adler) (full_chunks ?ws T) d0 = Ok d1"
      "encoder_inv cs adler w S opts d1 bss (full_chunks ?ws T)"
    using encode_windows_ok [OF assms(2,4) d0(2) fit(1), of cpu] by auto
  define d where "d = framed (rest_chunk ?ws T) (bytes_in d0 + of_nat (length T)) d1"
  have "write_target cpu cs adler d0 T = Some (Ok d)"
    using write_target_eq [of d0 cpu cs adler T] assms(1) o d0(3) d1(1) by (simp add: d_def)
  moreover have "encoder_inv cs adler w S opts d bss (full_chunks ?ws T)" "de_buffer d = rest_chunk ?ws T"
    using d1(2) by (simp_all add: encoder_inv_def d_def)
  moreover have "length (full_chunks ?ws T) < 2 ^ 63"
    using length_chunks [of ?ws T] assms(3) by (simp add: chunks_full [OF assms(1)] split: if_splits)
  moreover have "length (chunks ?ws T) = length (full_chunks ?ws T) + (if rest_chunk ?ws T = [] then 0 else 1)"
    by (simp add: chunks_full [OF assms(1)])
  moreover have "length (concat (full_chunks ?ws T)) + length (rest_chunk ?ws T) < 2 ^ 63"
    using full_chunks_concat [OF assms(1), of T] assms(3) by (metis length_append)
  ultimately show ?thesis
    using finish_ok [of cs adler w S opts d bss "full_chunks ?ws T" cpu] assms(2,4) fit(2) d0(1,3) o
      full_chunks_concat [OF assms(1), of T]
    by (intro exI [of _ d0] exI [of _ d]) simp
qed

section \<open>Independent windows\<close>

lemma encode_chunk_ok:
  assumes "window_fits (co_level opts) S W" "length S < 2 ^ 63" "secondary_ok cs (co_secondary opts)"
  shows "\<exists>bs. encode_chunk cpu cs adler S opts W = Ok bs \<and> reads cs adler (co_secondary opts) S bs W"
proof -
  have W: "length W \<le> 2 ^ 24" "length W < 2 ^ 32" using assms(1) by (simp_all add: window_fits_def)
  have "\<exists>insts. chunk_instructions cpu (co_level opts) S W = Ok insts \<and> covers S W 0 insts (length W)"
  proof (cases "co_level opts = 0")
    case False
    then have safe: "merge_safe S W" using assms(1) by (simp add: window_fits_def)
    obtain raw where raw: "(if S = [] then find_matches_no_source cpu (config_for_level (co_level opts)) W
        else find_matches_with_source cpu (config_for_level (co_level opts)) (slice_data S) W) = Ok raw"
        "covers S W 0 raw (length W)" "list_all inst_wide raw"
      using find_matches_source_covers [OF assms(2) W(2)] by (fastforce simp: returns_def)
    then show ?thesis
      using optimize_ok [OF raw(2) merge_safe_joins [OF safe raw(2,3)] W(2) assms(2)] False
      by (auto simp: chunk_instructions_def split: if_splits)
  qed (use store_covers [OF W(2)] in \<open>simp add: chunk_instructions_def\<close>)
  then show ?thesis
    using packed_window [OF _ W(1) assms(2,3), of _ "co_checksum opts" adler] by (fastforce simp: encode_chunk_def)
qed

lemma encode_chunks_ok:
  assumes "length S < 2 ^ 63" "secondary_ok cs (co_secondary opts)"
  shows "\<forall>W \<in> set Ws. window_fits (co_level opts) S W \<Longrightarrow> \<exists>bss.
    for_each (\<lambda>c out. map_ok (\<lambda>b. out @ [b]) (encode_chunk cpu cs adler S opts c)) Ws out = Ok (out @ bss)
    \<and> list_all2 (reads cs adler (co_secondary opts) S) bss Ws"
proof (induction Ws arbitrary: out)
  case (Cons W Ws)
  obtain bs where bs: "encode_chunk cpu cs adler S opts W = Ok bs" "reads cs adler (co_secondary opts) S bs W"
    using encode_chunk_ok [OF _ assms] Cons.prems by fastforce
  obtain bss where "for_each (\<lambda>c out. map_ok (\<lambda>b. out @ [b]) (encode_chunk cpu cs adler S opts c)) Ws (out @ [bs])
      = Ok ((out @ [bs]) @ bss)" "list_all2 (reads cs adler (co_secondary opts) S) bss Ws"
    using Cons.IH [of "out @ [bs]"] Cons.prems by auto
  with bs show ?case by (intro exI [of _ "bs # bss"]) simp
qed auto

lemma write_windows_holds:
  assumes "file_header_ok fh"
  shows "stream_holds w fh st bss \<Longrightarrow> \<exists>st'. for_each (\<lambda>window stream. write_raw_window stream window) bss' st = (Ok st' :: (_, EncodeError) res)
    \<and> stream_holds w fh st' (bss @ bss')"
proof (induction bss' arbitrary: st bss)
  case (Cons bs bss')
  have "write_raw_window st bs = (Ok (written st bs) :: (_, EncodeError) res)"
    using assms Cons.prems by (intro write_raw_window_eq) (simp add: stream_holds_def)
  with Cons.IH [OF written_holds [OF Cons.prems, of bs]] show ?case by simp
qed auto

text \<open>Every chunk is a piece of the data of at most the chunk size.\<close>

lemma chunk_length: "W \<in> set (chunks n xs) \<Longrightarrow> length W \<le> n \<and> length W \<le> length xs"
proof (induction n xs rule: chunks.induct)
  case (1 n xs)
  then show ?case by (subst (asm) (2) chunks.simps) (auto split: if_splits)
qed

lemma windows_fit:
  assumes "n \<le> 2 ^ 24" "level = 0 \<or> (\<forall>W \<in> set (chunks n T). merge_safe S W)"
  shows "\<forall>W \<in> set (chunks n T). window_fits level S W"
  using assms chunk_length [of _ n T] by (fastforce simp: window_fits_def)

lemma merge_safe_chunks:
  "W \<in> set (chunks n T) \<Longrightarrow> length T < 2 * MIN_RUN \<Longrightarrow> length S < C_MIN_MATCH \<Longrightarrow> merge_safe S W"
  using chunk_length [of W n T] by (intro merge_safe_short) auto

lemma cap_window_size:
  "0 < co_window_size opts \<Longrightarrow> 0 < co_window_size (cap_window opts T)"
  "co_window_size opts \<le> 2 ^ 24 \<Longrightarrow> co_window_size (cap_window opts T) \<le> 2 ^ 24"
  "co_level (cap_window opts T) = co_level opts" "co_secondary (cap_window opts T) = co_secondary opts"
  by (auto simp: cap_window_def)

text \<open>With a window size of 0 the loop over full windows encodes empty windows for ever.\<close>

lemma zero_full_windows_loops:
  assumes "co_window_size opts = 0" "length S < 2 ^ 63" "secondary_ok cs (co_secondary opts)" "off \<le> length data"
    and "encoder_inv cs adler w S opts d bss Ts"
  shows "full_windows cpu cs adler data d off = None"
proof -
  let ?P = "\<lambda>cpu cs' adler' data d off r. \<not> (cs' = cs \<and> adler' = adler \<and> off \<le> length data
      \<and> (\<exists>bss Ts. encoder_inv cs adler w S opts d bss Ts))"
  have fits: "window_fits (co_level opts) S []" by (simp add: window_fits_def merge_safe_def)
  have "?P cpu cs adler data d off r" if "full_windows cpu cs adler data d off = Some r" for r
  proof (rule full_windows.raw_induct [where P = ?P, OF _ that], rule notI, elim conjE exE)
    fix f :: "Cpu \<Rightarrow> Codecs \<Rightarrow> (byte list \<Rightarrow> u32) \<Rightarrow> byte list \<Rightarrow> DeltaEncoder \<Rightarrow> nat
        \<Rightarrow> (DeltaEncoder \<times> nat, EncodeError) res option"
      and cpu cs' adler' data and d :: DeltaEncoder and off r bss Ts
    assume IH: "\<And>cpu cs' adler' data d off r. f cpu cs' adler' data d off = Some r \<Longrightarrow> ?P cpu cs' adler' data d off r"
      and body: "(if off + co_window_size (de_opts d) \<le> length data
         then let stop = off + co_window_size (de_opts d)
           in case delta_encode_window cpu cs' adler' (take (stop - off) (drop off data)) d of
                Ok d \<Rightarrow> f cpu cs' adler' data d stop | Err e \<Rightarrow> Some (Err e) | Panic \<Rightarrow> Some Panic
         else Some (Ok (d, off))) = Some r"
      and c: "cs' = cs" "adler' = adler" "off \<le> length data" "encoder_inv cs adler w S opts d bss Ts"
    have "de_opts d = opts" using c(4) by (simp add: encoder_inv_def)
    moreover obtain d' bs where d': "delta_encode_window cpu cs adler [] d = Ok d'"
        "encoder_inv cs adler w S opts d' (bss @ [bs]) (Ts @ [[]])"
      using encode_window_ok [OF c(4) fits assms(2,3)] by blast
    ultimately have "f cpu cs adler data d' off = Some r" using body c assms(1) by (simp add: Let_def)
    from IH [OF this] c d'(2) show False by blast
  qed
  then show ?thesis using assms(4,5) by (cases "full_windows cpu cs adler data d off") blast+
qed

lemma zero_write_loops:
  assumes "co_window_size opts = 0" "length source < 2 ^ 63" "secondary_ok cs (co_secondary opts)"
  shows "\<exists>d. DeltaEncoder_new cpu cs w source opts = Ok d \<and> (\<forall>data. write_target cpu cs adler d data = None)"
proof -
  obtain d where d: "DeltaEncoder_new cpu cs w source opts = Ok d" "encoder_inv cs adler w source opts d [] []" "de_buffer d = []"
    using encoder_new_ok [OF assms(2)] by blast
  have "encoder_inv cs adler w source opts (d\<lparr> bytes_in := n \<rparr>) [] []" for n using d(2) by (simp add: encoder_inv_def)
  from zero_full_windows_loops [OF assms le0 this] d show ?thesis by (simp add: write_target_def complete_buffer_def)
qed

lemma write_target_returns:
  assumes "0 < co_window_size (de_opts d)" "de_buffer d = []"
  shows "\<exists>r. write_target cpu cs adler d data = Some r"
  using assms full_windows_eq [of "d\<lparr> bytes_in := bytes_in d + of_nat (length data) \<rparr>" 0 data cpu cs adler]
  by (simp add: write_target_def complete_buffer_def)

section \<open>Properties\<close>

text \<open>
  C2: The streaming encoder round-trips. For every CPU, every source and every target fed to
  \<open>write_target\<close> in any pieces, every window size from 1 byte to 16 MiB, with or without checksums,
  with no secondary compression or with LZMA or zlib when the codec undoes itself and reports no
  errors (\<open>secondary_ok\<close>), an encoder returned by \<open>new\<close> accepts all pieces, \<open>finish\<close> returns the delta
  and, unless the target is empty, the number of its windows, and the decoder turns the delta back
  into the target. At a level above 0 every window of the target must be safe to merge
  (\<open>merge_safe\<close>): in no window is a run of 8 or more equal bytes directly followed by such a run of
  another byte, nor the last 4 bytes of the source by the first 4 bytes of the window.
\<close>

theorem delta_encoder_roundtrip:
  assumes "0 < co_window_size opts" and "co_window_size opts \<le> 2 ^ 24" and "length source < 2 ^ 63"
    and "length (concat pieces) < 2 ^ 63" and "secondary_ok cs (co_secondary opts)"
    and "co_level opts = 0 \<or> (\<forall>W \<in> set (chunks (co_window_size opts) (concat pieces)). merge_safe source W)"
  shows "\<exists>enc enc' delta n. DeltaEncoder_new cpu cs w source opts = Ok enc
    \<and> write_targets cpu cs adler enc pieces = Some (Ok enc')
    \<and> delta_finish cpu cs adler enc' = Ok (w @ delta, n)
    \<and> (concat pieces \<noteq> [] \<longrightarrow> n = of_nat (length (chunks (co_window_size opts) (concat pieces))))
    \<and> compress_decode_all cs adler source delta = Ok (concat pieces)"
proof -
  obtain d0 d delta where d: "DeltaEncoder_new cpu cs w source opts = Ok d0" "de_opts d0 = opts" "de_buffer d0 = []"
    "write_target cpu cs adler d0 (concat pieces) = Some (Ok d)"
    "delta_finish cpu cs adler d = Ok (w @ delta, of_nat (length (chunks (co_window_size opts) (concat pieces))))"
    "decode_memory cs adler delta source = Ok (concat pieces)"
    using encoder_roundtrip [OF assms(1,3-5) windows_fit [OF assms(2,6)]] by blast
  moreover have "write_targets cpu cs adler d0 pieces = write_target cpu cs adler d0 (concat pieces)"
    using d(2,3) assms(1) by (intro write_targets_concat) simp_all
  ultimately show ?thesis by (auto simp: compress_decode_all_def)
qed

lemma pair_codecs_ok: "codecs_lossless pair_codecs" "backend_total (LzmaBackend pair_codecs)"
  by (auto simp: codecs_lossless_def backend_total_def LzmaBackend_def pair_codecs_def)

theorem delta_encoder_roundtrip_witness:
  "\<exists>enc enc' delta. DeltaEncoder_new Aarch64 pair_codecs [] [1, 2, 3]
         \<lparr> co_level = 6, co_window_size = 4, co_checksum = True, co_secondary = Lzma \<rparr> = Ok enc
    \<and> write_targets Aarch64 pair_codecs adler32_simple enc [[1, 2, 3], [1, 2], [], [9]] = Some (Ok enc')
    \<and> delta_finish Aarch64 pair_codecs adler32_simple enc' = Ok (delta, 2)
    \<and> compress_decode_all pair_codecs adler32_simple [1, 2, 3] delta = Ok [1, 2, 3, 1, 2, 9]"
proof -
  let ?opts = "\<lparr> co_level = 6, co_window_size = 4, co_checksum = True, co_secondary = Lzma \<rparr>"
  let ?pieces = "[[1, 2, 3], [1, 2], [], [9]] :: byte list list"
  have safe: "co_level ?opts = 0 \<or> (\<forall>W \<in> set (chunks (co_window_size ?opts) (concat ?pieces)). merge_safe [1, 2, 3] W)"
    by (auto simp: MIN_RUN_def C_MIN_MATCH_def intro: merge_safe_chunks)
  have "length (chunks 4 (concat ?pieces)) = 2" by code_simp
  with delta_encoder_roundtrip [OF _ _ _ _ _ safe, of pair_codecs Aarch64 "[]" adler32_simple] show ?thesis
    by (auto simp: pair_codecs_ok)
qed

text \<open>
  C14: The one-shot form round-trips too, with the window size capped to the target. Every target, the
  empty one included, comes back from the decoder at level 0; at a level above 0 every target does
  whose windows, of the capped size, are safe to merge (\<open>merge_safe\<close>): in no window is a run of 8 or
  more equal bytes directly followed by such a run of another byte, nor the last 4 bytes of the
  source by the first 4 bytes of the window. Window sizes and backends are those of the streaming
  encoder.
\<close>

theorem encode_all_roundtrip:
  assumes "0 < co_window_size opts" and "co_window_size opts \<le> 2 ^ 24" and "length source < 2 ^ 63"
    and "length target < 2 ^ 63" and "secondary_ok cs (co_secondary opts)"
    and "co_level opts = 0
      \<or> (\<forall>W \<in> set (chunks (co_window_size (cap_window opts target)) target). merge_safe source W)"
  shows "\<exists>delta. encode_all cpu cs adler w source target opts = Some (Ok (w @ delta))
    \<and> compress_decode_all cs adler source delta = Ok target"
proof -
  let ?opts = "cap_window opts target"
  have "\<forall>W \<in> set (chunks (co_window_size ?opts) target). window_fits (co_level ?opts) source W"
    using cap_window_size(2) [OF assms(2), of target] assms(6) by (intro windows_fit) (simp_all add: cap_window_size)
  from encoder_roundtrip [OF cap_window_size(1) [OF assms(1)] assms(3,4) _ this, of cs cpu w adler] assms(5)
  show ?thesis by (auto simp: encode_all_def compress_decode_all_def cap_window_size)
qed

theorem encode_all_roundtrip_witness:
  "\<exists>delta. encode_all (X86_64 True True) pair_codecs adler32_simple [] [1, 2, 3] [1, 2, 3, 1, 2, 3] CompressOptions_default
       = Some (Ok ([] @ delta))
     \<and> compress_decode_all pair_codecs adler32_simple [1, 2, 3] delta = Ok [1, 2, 3, 1, 2, 3]"
  by (rule encode_all_roundtrip)
    (auto simp: CompressOptions_default_def MIN_RUN_def C_MIN_MATCH_def intro: merge_safe_chunks)

text \<open>
  C13: Windows encoded independently of each other, as the parallel encoder does, also decode to
  the target, although their instructions may differ from those of the sequential encoder. As
  there, at a level above 0 the windows, which are of at least 64 bytes here, must be safe to merge
  (\<open>merge_safe\<close>): in no window is a run of 8 or more equal bytes directly followed by such a run of
  another byte, nor the last 4 bytes of the source by the first 4 bytes of the window.
\<close>

theorem encode_all_parallel_roundtrip:
  assumes "0 < co_window_size opts" and "co_window_size opts \<le> 2 ^ 24" and "length source < 2 ^ 63"
    and "length target < 2 ^ 63" and "secondary_ok cs (co_secondary opts)"
    and "co_level opts = 0
      \<or> (\<forall>W \<in> set (chunks (max (co_window_size (cap_window opts target)) 64) target). merge_safe source W)"
  shows "\<exists>delta. encode_all_parallel cpu cs adler w source target opts = Some (Ok (w @ delta))
    \<and> compress_decode_all cs adler source delta = Ok target"
proof (cases "target = []")
  case True
  let ?opts = "cap_window (cap_window opts target) target"
  have "\<forall>W \<in> set (chunks (co_window_size ?opts) target). window_fits (co_level ?opts) source W"
    using True by (simp add: chunks.simps)
  from encoder_roundtrip [OF cap_window_size(1) [OF cap_window_size(1) [OF assms(1)]] assms(3,4) _ this, of cs cpu w adler] assms(5)
  show ?thesis using True by (auto simp: encode_all_parallel_def encode_all_def compress_decode_all_def cap_window_size)
next
  case False
  let ?opts = "cap_window opts target"
  let ?n = "max (co_window_size ?opts) 64"
  let ?fh = "header_for cs (co_secondary opts)"
  have "\<forall>W \<in> set (chunks ?n target). window_fits (co_level ?opts) source W"
    using cap_window_size(2) [OF assms(2), of target] assms(6) by (intro windows_fit) (simp_all add: cap_window_size)
  then obtain bss where bss: "for_each (\<lambda>c out. map_ok (\<lambda>b. out @ [b]) (encode_chunk cpu cs adler source ?opts c))
      (chunks ?n target) [] = Ok ([] @ bss)" "list_all2 (reads cs adler (co_secondary opts) source) bss (chunks ?n target)"
    using encode_chunks_ok [OF assms(3), of cs ?opts "chunks ?n target" cpu adler "[]"] assms(5)
    by (auto simp: cap_window_size)
  then have ne: "bss \<noteq> []" using False chunks.simps [of ?n target] by auto
  have "stream_holds w ?fh (stream_for cs w ?opts) []" using stream_for_holds [of w cs ?opts] by (simp add: cap_window_size)
  from write_windows_holds [OF header_for_ok(1) this] obtain st where
    st: "for_each (\<lambda>window stream. write_raw_window stream window) bss (stream_for cs w ?opts) = (Ok st :: (_, EncodeError) res)"
      "stream_holds w ?fh st ([] @ bss)" by blast
  from stream_finish_ok [OF st(2)] bss(2) ne assms(3,4) obtain delta where
    "stream_finish st = (Ok (w @ delta) :: (_, EncodeError) res)" "decode_memory cs adler delta source = Ok (concat (chunks ?n target))"
    by fastforce
  then show ?thesis
    using False bss(1) st(1) by (intro exI [of _ delta]) (simp add: encode_all_parallel_def Let_def compress_decode_all_def)
qed

theorem encode_all_parallel_roundtrip_witness:
  "\<exists>delta. encode_all_parallel Aarch64 pair_codecs adler32_simple [] [1, 2, 3] [1, 2, 3, 1, 2, 3] CompressOptions_default
       = Some (Ok ([] @ delta))
     \<and> compress_decode_all pair_codecs adler32_simple [1, 2, 3] delta = Ok [1, 2, 3, 1, 2, 3]"
  by (rule encode_all_parallel_roundtrip)
    (auto simp: CompressOptions_default_def MIN_RUN_def C_MIN_MATCH_def intro: merge_safe_chunks)



text \<open>
  C36: For a source that fits in memory, with no secondary compression or a codec that undoes itself
  and reports no errors, the one-shot form of the streaming encoder returns exactly when the
  window size is not 0. With a window size of 0 it never returns from its first piece of data, not
  even for an empty one.
\<close>

theorem encode_all_returns_iff:
  assumes "length source < 2 ^ 63" and "secondary_ok cs (co_secondary opts)"
  shows "(\<exists>r. encode_all cpu cs adler w source target opts = Some r) \<longleftrightarrow> co_window_size opts \<noteq> 0"
proof (cases "co_window_size opts = 0")
  case True
  then have cap: "cap_window opts target = opts" by (simp add: cap_window_def)
  from zero_write_loops [OF True assms, of cpu w adler] True show ?thesis by (auto simp: encode_all_def cap)
next
  case False
  then have "co_window_size (cap_window opts target) \<noteq> 0" by (auto simp: cap_window_def max_def)
  then have "\<exists>r. write_target cpu cs adler d target = Some r"
    if "DeltaEncoder_new cpu cs w source (cap_window opts target) = Ok d" for d
    using that by (intro write_target_returns) (auto simp: DeltaEncoder_new_def bindR_eq_Ok)
  then show ?thesis using False by (auto simp: encode_all_def split: res.splits)
qed

theorem encode_all_returns_iff_witness:
  "secondary_ok pair_codecs NoneC
    \<and> \<not> (\<exists>r. encode_all Aarch64 pair_codecs adler32_simple [] [] []
         \<lparr> co_level = 0, co_window_size = 0, co_checksum = True, co_secondary = NoneC \<rparr> = Some r)"
  using encode_all_returns_iff [of "[]" pair_codecs
      "\<lparr> co_level = 0, co_window_size = 0, co_checksum = True, co_secondary = NoneC \<rparr>" Aarch64 adler32_simple "[]" "[]"] by simp

end
