(* ===== verification/File_Io.thy ===== *)
theory File_Io
  imports Compress_Encoder
begin

text \<open>
  The file-level functions of \<open>src/src/io.rs\<close>. The file system is a map from paths to contents,
  where a path stands for a file; a file opened for reading yields the bytes it holds when it is
  read, so an output that truncates an open input is seen by the reader. Reads deliver the file in
  pieces of any sizes and writes do not fail. SHA-256 and the sizes of the pieces are parameters.
  Errors carry no file system: what a failed call leaves in its output file is not modelled.
\<close>

section \<open>Files and streams\<close>

record world =
  files :: "string \<Rightarrow> byte list option"
  writable :: "string \<Rightarrow> bool"
  stdin_data :: "byte list"
  stdout_data :: "byte list"

definition fs_read :: "string \<Rightarrow> world \<Rightarrow> (byte list, io_error) res" where
  "fs_read path w = (case files w path of Some bs \<Rightarrow> Ok bs | None \<Rightarrow> Err NotFound)"

definition fs_create :: "string \<Rightarrow> world \<Rightarrow> (world, io_error) res" where
  "fs_create path w =
     (if writable w path then Ok (w\<lparr> files := (files w)(path \<mapsto> []) \<rparr>) else Err PermissionDenied)"

definition fs_append :: "string \<Rightarrow> byte list \<Rightarrow> world \<Rightarrow> world" where
  "fs_append path bs w = w\<lparr> files := (files w)(path \<mapsto> (case files w path of Some old \<Rightarrow> old | None \<Rightarrow> []) @ bs) \<rparr>"

text \<open>Sequencing of calls that may not return.\<close>

fun bindO :: "('a, 'e) res option \<Rightarrow> ('a \<Rightarrow> ('b, 'e) res option) \<Rightarrow> ('b, 'e) res option" where
  "bindO None f = None"
| "bindO (Some (Ok x)) f = f x"
| "bindO (Some (Err e)) f = Some (Err e)"
| "bindO (Some Panic) f = Some Panic"

text \<open>
  What \<open>Read::read\<close> delivers until it returns 0: the contents in nonempty pieces. How long the
  pieces are is up to the reader.
\<close>

definition chop_ok :: "(byte list \<Rightarrow> byte list list) \<Rightarrow> bool" where
  "chop_ok chop \<longleftrightarrow> (\<forall>bs. concat (chop bs) = bs \<and> [] \<notin> set (chop bs))"

section \<open>Definitions\<close>

record EncodeStats =
  es_source_size :: u64
  es_target_size :: u64
  es_delta_size :: u64
  es_windows :: u64
  es_source_sha256 :: "byte list option"
  es_target_sha256 :: "byte list option"

record DecodeStats =
  ds_source_size :: u64
  ds_delta_size :: u64
  ds_output_size :: u64
  ds_windows :: u64
  ds_output_sha256 :: "byte list option"

datatype IoError = IoErr_Io io_error | IoErr_Encode EncodeError | IoErr_Decode DecodeError

text \<open>
  The loop over the target: each piece goes into the hasher, which keeps what it was given, and
  into the encoder.
\<close>

fun feed_target :: "Cpu \<Rightarrow> Codecs \<Rightarrow> (byte list \<Rightarrow> u32) \<Rightarrow> byte list list \<Rightarrow> DeltaEncoder \<times> byte list
    \<Rightarrow> (DeltaEncoder \<times> byte list, IoError) res option" where
  "feed_target cpu cs adler [] s = Some (Ok s)"
| "feed_target cpu cs adler (buf # bufs) (encoder, hasher) =
     (let hasher = hasher @ buf in
      bindO (map_option (map_err IoErr_Encode) (write_target cpu cs adler encoder buf)) (\<lambda>encoder.
      feed_target cpu cs adler bufs (encoder, hasher)))"

definition encode_file :: "Cpu \<Rightarrow> Codecs \<Rightarrow> (byte list \<Rightarrow> u32) \<Rightarrow> (byte list \<Rightarrow> byte list) option
    \<Rightarrow> (byte list \<Rightarrow> byte list list) \<Rightarrow> string \<Rightarrow> string \<Rightarrow> string \<Rightarrow> CompressOptions \<Rightarrow> world
    \<Rightarrow> (world \<times> EncodeStats, IoError) res option" where
  "encode_file cpu cs adler sha chop source_path target_path delta_path opts w =
     bindO (Some (map_err IoErr_Io (fs_read source_path w))) (\<lambda>source.
     bindO (Some (map_err IoErr_Io (fs_read target_path w))) (\<lambda>target.
     let target_size = of_nat (length target) in
     bindO (Some (map_err IoErr_Io (fs_create delta_path w))) (\<lambda>w.
     bindO (Some (map_err IoErr_Encode (DeltaEncoder_new cpu cs [] source opts))) (\<lambda>encoder.
     bindO (Some (map_err IoErr_Io (fs_read target_path w))) (\<lambda>target.
     bindO (feed_target cpu cs adler (chop target) (encoder, [])) (\<lambda>(encoder, hasher).
     bindO (Some (map_err IoErr_Encode (delta_finish cpu cs adler encoder))) (\<lambda>(delta, windows).
     Some (Ok (fs_append delta_path delta w,
       \<lparr> es_source_size = of_nat (length source), es_target_size = target_size,
         es_delta_size = of_nat (length delta), es_windows = windows,
         es_source_sha256 = map_option (\<lambda>h. h source) sha,
         es_target_sha256 = map_option (\<lambda>h. h hasher) sha \<rparr>)))))))))"

text \<open>The writer that hashes what it passes on. The inner writer takes the whole buffer.\<close>

record HashingWriter =
  hw_inner :: "byte list"
  hw_hasher :: "byte list"

definition HashingWriter_write :: "byte list \<Rightarrow> HashingWriter \<Rightarrow> nat \<times> HashingWriter" where
  "HashingWriter_write buf hw =
     (let n = length buf; hw = hw\<lparr> hw_inner := write_all (hw_inner hw) buf \<rparr> in
      (n, hw\<lparr> hw_hasher := hw_hasher hw @ take n buf \<rparr>))"

definition decode_file :: "Codecs \<Rightarrow> (byte list \<Rightarrow> u32) \<Rightarrow> (byte list \<Rightarrow> byte list) option
    \<Rightarrow> string \<Rightarrow> string \<Rightarrow> string \<Rightarrow> world \<Rightarrow> (world \<times> DecodeStats, IoError) res" where
  "decode_file cs adler sha source_path delta_path output_path w =
     bindR (map_err IoErr_Io (fs_read source_path w)) (\<lambda>source.
     bindR (map_err IoErr_Io (fs_read delta_path w)) (\<lambda>delta.
     let delta_size = of_nat (length delta) in
     bindR (map_err IoErr_Io (fs_create output_path w)) (\<lambda>w.
     bindR (map_err IoErr_Io (fs_read delta_path w)) (\<lambda>delta.
     bindR (map_err IoErr_Decode (decode_to cs adler slice_provider (DeltaDecoder_new delta) source []))
       (\<lambda>(output_size, decoder, src, out).
     let (n, hw) = HashingWriter_write out \<lparr> hw_inner = [], hw_hasher = [] \<rparr> in
     Ok (fs_append output_path (hw_inner hw) w,
       \<lparr> ds_source_size = of_nat (length source), ds_delta_size = delta_size, ds_output_size = output_size,
         ds_windows = windows_decoded decoder, ds_output_sha256 = map_option (\<lambda>h. h (hw_hasher hw)) sha \<rparr>))))))"

section \<open>Lemmas\<close>

lemma fs_append_created: "fs_create path w = Ok w' \<Longrightarrow> fs_append path bs w' = w\<lparr> files := (files w)(path \<mapsto> bs) \<rparr>"
  by (auto simp: fs_create_def fs_append_def split: if_splits)

text \<open>Hashing in pieces hashes the whole, so one call stands for the calls of the decoder.\<close>

lemma hashing_pieces:
  "snd (HashingWriter_write b (snd (HashingWriter_write a hw))) = snd (HashingWriter_write (a @ b) hw)"
  by (simp add: HashingWriter_write_def Let_def write_all_def)

lemma feed_target_eq:
  "feed_target cpu cs adler ps (enc, h)
    = map_option (\<lambda>r. map_ok (\<lambda>enc. (enc, h @ concat ps)) (map_err IoErr_Encode r)) (write_targets cpu cs adler enc ps)"
proof (induction ps arbitrary: enc h)
  case (Cons p ps)
  show ?case
  proof (cases "write_target cpu cs adler enc p")
    case (Some r)
    then show ?thesis using Cons by (cases r) (simp_all add: Let_def)
  qed simp
qed simp

lemma decode_memory_to:
  assumes "decode_memory cs adler delta source = Ok T"
  shows "\<exists>dd src. decode_to cs adler slice_provider (DeltaDecoder_new delta) source [] = Ok (of_nat (length T), dd, src, T)"
proof -
  from assms obtain sd src where "decode_all cs adler slice_provider (dd_inner (DeltaDecoder_new delta)) source [] = Ok (sd, src, T)"
    by (auto simp: decode_memory_def DeltaDecoder_new_def bindR_eq_Ok)
  then obtain n dd where dd: "decode_to cs adler slice_provider (DeltaDecoder_new delta) source [] = Ok (n, dd, src, T)"
    by (auto dest!: decode_to_Ok)
  with decode_to_lengths [OF dd] show ?thesis by (auto simp: DeltaDecoder_new_def)
qed

text \<open>
  The conditions under which the streaming encoder round-trips: a window size from 1 to \<open>2 ^ 24\<close>,
  inputs that fit in memory, codecs that undo themselves where they are used, and, at a level above
  0, windows whose instructions are safe to merge.
\<close>

definition encodable :: "Codecs \<Rightarrow> CompressOptions \<Rightarrow> byte list \<Rightarrow> byte list \<Rightarrow> bool" where
  "encodable cs opts source target \<longleftrightarrow> 0 < co_window_size opts \<and> co_window_size opts \<le> 2 ^ 24
     \<and> length source < 2 ^ 63 \<and> length target < 2 ^ 63 \<and> secondary_ok cs (co_secondary opts)
     \<and> (co_level opts = 0 \<or> (\<forall>W \<in> set (chunks (co_window_size opts) target). merge_safe source W))"

lemma encodable_short:
  assumes "0 < co_window_size opts" "co_window_size opts \<le> 2 ^ 24" "secondary_ok cs (co_secondary opts)"
    and "length target < 2 * MIN_RUN" "length source < C_MIN_MATCH"
  shows "encodable cs opts source target"
  using assms by (auto simp: encodable_def MIN_RUN_def C_MIN_MATCH_def intro: merge_safe_chunks)

lemma encoder_feeds:
  assumes "encodable cs opts source target" "concat ps = target"
  shows "\<exists>d0 d delta. DeltaEncoder_new cpu cs [] source opts = Ok d0
    \<and> write_target cpu cs adler d0 target = Some (Ok d) \<and> write_targets cpu cs adler d0 ps = Some (Ok d)
    \<and> delta_finish cpu cs adler d = Ok (delta, of_nat (length (chunks (co_window_size opts) target)))
    \<and> decode_memory cs adler delta source = Ok target"
proof -
  have ok: "0 < co_window_size opts" "co_window_size opts \<le> 2 ^ 24" "length source < 2 ^ 63" "length target < 2 ^ 63"
    "secondary_ok cs (co_secondary opts)"
    "co_level opts = 0 \<or> (\<forall>W \<in> set (chunks (co_window_size opts) target). merge_safe source W)"
    using assms(1) by (simp_all add: encodable_def)
  obtain d0 d delta where d: "DeltaEncoder_new cpu cs [] source opts = Ok d0" "de_opts d0 = opts" "de_buffer d0 = []"
    "write_target cpu cs adler d0 target = Some (Ok d)"
    "delta_finish cpu cs adler d = Ok ([] @ delta, of_nat (length (chunks (co_window_size opts) target)))"
    "decode_memory cs adler delta source = Ok target"
    using encoder_roundtrip [OF ok(1,3-5) windows_fit [OF ok(2,6)]] by blast
  moreover have "write_targets cpu cs adler d0 ps = write_target cpu cs adler d0 (concat ps)"
    using d(2,3) ok(1) by (intro write_targets_concat) simp_all
  ultimately show ?thesis using assms(2) by auto
qed

lemma encode_file_ok:
  assumes "encodable cs opts source target" "chop_ok chop"
    and "files w sp = Some source" "files w tp = Some target" "tp \<noteq> dp" "writable w dp"
  shows "\<exists>delta. encode_file cpu cs adler sha chop sp tp dp opts w = Some (Ok (w\<lparr> files := (files w)(dp \<mapsto> delta) \<rparr>,
      \<lparr> es_source_size = of_nat (length source), es_target_size = of_nat (length target), es_delta_size = of_nat (length delta),
        es_windows = of_nat (length (chunks (co_window_size opts) target)),
        es_source_sha256 = map_option (\<lambda>h. h source) sha, es_target_sha256 = map_option (\<lambda>h. h target) sha \<rparr>))
    \<and> decode_memory cs adler delta source = Ok target"
proof -
  have chop: "concat (chop target) = target" using assms(2) by (simp add: chop_ok_def)
  from encoder_feeds [OF assms(1) chop, of cpu adler] obtain d0 d delta where
    d: "DeltaEncoder_new cpu cs [] source opts = Ok d0" "write_targets cpu cs adler d0 (chop target) = Some (Ok d)"
    "delta_finish cpu cs adler d = Ok (delta, of_nat (length (chunks (co_window_size opts) target)))"
    "decode_memory cs adler delta source = Ok target" by blast
  then have "feed_target cpu cs adler (chop target) (d0, []) = Some (Ok (d, target))"
    by (simp add: feed_target_eq chop)
  then show ?thesis
    using d(1,3,4) assms(3-)
    by (intro exI [of _ delta]) (simp add: encode_file_def fs_read_def fs_create_def fs_append_def Let_def)
qed

lemma decode_file_ok:
  assumes "files w sp = Some source" "files w dp = Some delta" "op \<noteq> dp" "writable w op"
    and "decode_memory cs adler delta source = Ok target"
  shows "\<exists>n. decode_file cs adler sha sp dp op w = Ok (w\<lparr> files := (files w)(op \<mapsto> target) \<rparr>,
      \<lparr> ds_source_size = of_nat (length source), ds_delta_size = of_nat (length delta),
        ds_output_size = of_nat (length target), ds_windows = n, ds_output_sha256 = map_option (\<lambda>h. h target) sha \<rparr>)"
  using decode_memory_to [OF assms(5)] assms(1-4)
  by (auto simp: decode_file_def fs_read_def fs_create_def fs_append_def HashingWriter_write_def write_all_def Let_def)

section \<open>Properties\<close>

text \<open>
  C12: Files round-trip. If a source and a target file exist and the delta and the output can be
  written at paths of their own, \<open>encode_file\<close> followed by \<open>decode_file\<close> leaves exactly the bytes of
  the target in the output file and every other file as it was. The reported sizes are the sizes
  of the files, and the digest of the output is the digest of the target, however the target is
  cut into reads. The conditions \<open>encodable\<close> are those of the streaming encoder: window sizes from 1
  byte to 16 MiB, files that fit in memory, a codec that undoes itself and reports no errors, and
  at a level above 0 windows that are safe to merge (\<open>merge_safe\<close>): in no window of the target is a
  run of 8 or more equal bytes directly followed by such a run of another byte, nor the last 4
  bytes of the source by the first 4 bytes of the window.
\<close>

theorem file_roundtrip:
  assumes "encodable cs opts source target" and "chop_ok chop"
    and "files w sp = Some source" and "files w tp = Some target"
    and "distinct [sp, tp, dp, op]" and "writable w dp" and "writable w op"
  shows "\<exists>w1 es w2 ds delta. encode_file cpu cs adler sha chop sp tp dp opts w = Some (Ok (w1, es))
    \<and> decode_file cs adler sha sp dp op w1 = Ok (w2, ds)
    \<and> files w2 = (files w)(dp \<mapsto> delta, op \<mapsto> target)
    \<and> es_source_size es = of_nat (length source) \<and> ds_source_size ds = of_nat (length source)
    \<and> es_target_size es = of_nat (length target) \<and> ds_output_size ds = of_nat (length target)
    \<and> es_delta_size es = of_nat (length delta) \<and> ds_delta_size ds = of_nat (length delta)
    \<and> es_target_sha256 es = map_option (\<lambda>h. h target) sha \<and> ds_output_sha256 ds = es_target_sha256 es"
proof -
  have "tp \<noteq> dp" using assms(5) by simp
  from encode_file_ok [OF assms(1-4) this assms(6), of cpu adler sha] obtain delta where
    enc: "encode_file cpu cs adler sha chop sp tp dp opts w = Some (Ok (w\<lparr> files := (files w)(dp \<mapsto> delta) \<rparr>,
      \<lparr> es_source_size = of_nat (length source), es_target_size = of_nat (length target), es_delta_size = of_nat (length delta),
        es_windows = of_nat (length (chunks (co_window_size opts) target)),
        es_source_sha256 = map_option (\<lambda>h. h source) sha, es_target_sha256 = map_option (\<lambda>h. h target) sha \<rparr>))"
    "decode_memory cs adler delta source = Ok target" by blast
  have "\<exists>n. decode_file cs adler sha sp dp op (w\<lparr> files := (files w)(dp \<mapsto> delta) \<rparr>)
      = Ok (w\<lparr> files := (files w)(dp \<mapsto> delta, op \<mapsto> target) \<rparr>,
      \<lparr> ds_source_size = of_nat (length source), ds_delta_size = of_nat (length delta),
        ds_output_size = of_nat (length target), ds_windows = n, ds_output_sha256 = map_option (\<lambda>h. h target) sha \<rparr>)"
    using decode_file_ok [OF _ _ _ _ enc(2), of "w\<lparr> files := (files w)(dp \<mapsto> delta) \<rparr>" sp dp op sha] assms(3,5,7) by auto
  with enc(1) show ?thesis by fastforce
qed

theorem file_roundtrip_witness:
  "\<exists>w1 es w2 ds delta. encode_file Aarch64 pair_codecs adler32_simple (Some (take 32)) (map (\<lambda>b. [b])) ''s'' ''t'' ''d''
      \<lparr> co_level = 6, co_window_size = 4, co_checksum = True, co_secondary = Lzma \<rparr>
      \<lparr> files = [''s'' \<mapsto> [1, 2, 3], ''t'' \<mapsto> [1, 2, 3, 1, 2, 9]], writable = (\<lambda>p. True), stdin_data = [], stdout_data = [] \<rparr>
      = Some (Ok (w1, es))
    \<and> decode_file pair_codecs adler32_simple (Some (take 32)) ''s'' ''d'' ''o'' w1 = Ok (w2, ds)
    \<and> files w2 = [''s'' \<mapsto> [1, 2, 3], ''t'' \<mapsto> [1, 2, 3, 1, 2, 9], ''d'' \<mapsto> delta, ''o'' \<mapsto> [1, 2, 3, 1, 2, 9]]"
proof -
  let ?w = "\<lparr> files = [''s'' \<mapsto> [1, 2, 3], ''t'' \<mapsto> [1, 2, 3, 1, 2, 9]], writable = (\<lambda>p. True), stdin_data = [], stdout_data = [] \<rparr>"
  let ?opts = "\<lparr> co_level = 6, co_window_size = 4, co_checksum = True, co_secondary = Lzma \<rparr>"
  have "encodable pair_codecs ?opts [1, 2, 3] [1, 2, 3, 1, 2, 9]"
    by (rule encodable_short) (simp_all add: pair_codecs_ok MIN_RUN_def C_MIN_MATCH_def)
  moreover have "chop_ok (map (\<lambda>b. [b]))" by (auto simp: chop_ok_def)
  ultimately show ?thesis
    using file_roundtrip [of pair_codecs ?opts "[1, 2, 3]" "[1, 2, 3, 1, 2, 9]" "map (\<lambda>b. [b])" ?w
        "''s''" "''t''" "''d''" "''o''" Aarch64 adler32_simple "Some (take 32)"] by auto
qed

end
