(* ===== verification/Cli_Options.thy ===== *)
theory Cli_Options
  imports Compress_Encoder
begin

text \<open>
  The command line of \<open>src/src/cli.rs\<close> up to the commands: the parser of byte sizes, the arguments
  as \<open>clap\<close> delivers them, and the options the commands run with. Parsing of the argument vector by
  \<open>clap\<close> is not modelled; the argument records are its results. A Rust string is the list of its
  code points in the size parser, and a path is a string of characters.
\<close>

section \<open>Byte sizes\<close>

text \<open>The Unicode property \<open>White_Space\<close>, which \<open>str::trim\<close> strips.\<close>

definition is_whitespace :: "nat \<Rightarrow> bool" where
  "is_whitespace c \<longleftrightarrow> 9 \<le> c \<and> c \<le> 13 \<or> c = 32 \<or> c = 0x85 \<or> c = 0xA0 \<or> c = 0x1680 \<or> 0x2000 \<le> c \<and> c \<le> 0x200A
     \<or> c = 0x2028 \<or> c = 0x2029 \<or> c = 0x202F \<or> c = 0x205F \<or> c = 0x3000"

definition str_trim :: "nat list \<Rightarrow> nat list" where
  "str_trim s = rev (dropWhile is_whitespace (rev (dropWhile is_whitespace s)))"

text \<open>\<open>str::parse::<u64>\<close>: an optional plus sign and at least one digit, checked against overflow.\<close>

fun parse_digits :: "nat list \<Rightarrow> nat \<Rightarrow> nat option" where
  "parse_digits [] acc = Some acc"
| "parse_digits (c # cs) acc =
     (if 48 \<le> c \<and> c \<le> 57 \<and> acc * 10 + (c - 48) < 2 ^ 64 then parse_digits cs (acc * 10 + (c - 48)) else None)"

definition parse_u64 :: "nat list \<Rightarrow> u64 option" where
  "parse_u64 s =
     (let digits = (case s of c # cs \<Rightarrow> if c = 43 then cs else s | [] \<Rightarrow> []) in
      if digits = [] then None else map_option of_nat (parse_digits digits 0))"

datatype size_error = EmptySize | InvalidSize | SizeOverflow

definition size_suffix :: "nat list \<Rightarrow> nat list \<times> u64" where
  "size_suffix s =
     (if last s = of_char (CHR ''k'') \<or> last s = of_char (CHR ''K'') then (butlast s, 1024)
      else if last s = of_char (CHR ''m'') \<or> last s = of_char (CHR ''M'') then (butlast s, 1024 * 1024)
      else if last s = of_char (CHR ''g'') \<or> last s = of_char (CHR ''G'') then (butlast s, 1024 * 1024 * 1024)
      else (s, 1))"

definition parse_byte_size :: "nat list \<Rightarrow> (u64, size_error) res" where
  "parse_byte_size s =
     (let s = str_trim s in
      if s = [] then Err EmptySize
      else
        let (num_part, multiplier) = size_suffix s in
        case parse_u64 (str_trim num_part) of
          None \<Rightarrow> Err InvalidSize
        | Some num \<Rightarrow>
            if unat num * unat multiplier < 2 ^ 64 then Ok (num * multiplier) else Err SizeOverflow)"

section \<open>Arguments\<close>

definition XD3_DEFAULT_LEVEL :: u32 where "XD3_DEFAULT_LEVEL = 6"
definition XD3_DEFAULT_WINSIZE :: nat where "XD3_DEFAULT_WINSIZE = 2 ^ 23"
definition XD3_DEFAULT_SRCWINSZ :: u64 where "XD3_DEFAULT_SRCWINSZ = push_bit 26 1"
definition XD3_DEFAULT_IOPT_SIZE :: nat where "XD3_DEFAULT_IOPT_SIZE = 2 ^ 15"
definition XD3_DEFAULT_SPREVSZ :: nat where "XD3_DEFAULT_SPREVSZ = 2 ^ 18"
definition XD3_HARDMAXWINSIZE :: nat where "XD3_HARDMAXWINSIZE = 2 ^ 24"

datatype SecondaryArg = SecArgNone | SecArgLzma | SecArgZlib | SecArgDjw | SecArgFgk

record EncodeTuningArgs =
  ta_level :: u32
  ta_input_window_size :: u64
  ta_source_window_size :: u64
  ta_sprevsz :: u64
  ta_iopt_size :: u64
  ta_secondary :: SecondaryArg
  ta_no_compress :: bool
  ta_no_checksum :: bool

text \<open>What \<open>clap\<close> fills in for options that are not given.\<close>

definition EncodeTuningArgs_default :: EncodeTuningArgs where
  "EncodeTuningArgs_default = \<lparr> ta_level = XD3_DEFAULT_LEVEL, ta_input_window_size = of_nat XD3_DEFAULT_WINSIZE,
     ta_source_window_size = XD3_DEFAULT_SRCWINSZ, ta_sprevsz = of_nat XD3_DEFAULT_SPREVSZ,
     ta_iopt_size = of_nat XD3_DEFAULT_IOPT_SIZE, ta_secondary = SecArgNone, ta_no_compress = False,
     ta_no_checksum = False \<rparr>"

record EncodeArgs =
  ea_source :: "string option"
  ea_input :: "string option"
  ea_output :: "string option"
  ea_stdout :: bool
  ea_no_output :: bool
  ea_tuning :: EncodeTuningArgs
  ea_input_pos :: "string option"
  ea_output_pos :: "string option"

record DecodeArgs =
  da_source :: "string option"
  da_input :: "string option"
  da_output :: "string option"
  da_stdout :: bool
  da_no_checksum :: bool
  da_no_output :: bool
  da_input_pos :: "string option"
  da_output_pos :: "string option"

record PrintArgs =
  pa_input :: string

record RecodeArgs =
  ra_input :: "string option"
  ra_output :: "string option"
  ra_stdout :: bool
  ra_secondary :: SecondaryArg
  ra_app_header :: "byte list option"
  ra_drop_app_header :: bool
  ra_input_pos :: "string option"
  ra_output_pos :: "string option"

record MergeArgs =
  ma_source :: "string option"
  ma_patches :: "string list"
  ma_last_patch :: "string option"
  ma_output :: "string option"
  ma_output_pos :: "string option"
  ma_stdout :: bool
  ma_tuning :: EncodeTuningArgs

datatype Cmd = CmdEncode EncodeArgs | CmdDecode DecodeArgs | CmdConfig | CmdHeader PrintArgs | CmdHeaders PrintArgs
  | CmdDelta PrintArgs | CmdRecode RecodeArgs | CmdMerge MergeArgs

record Cli =
  cli_command :: Cmd
  cli_force :: bool
  cli_quiet :: bool
  cli_verbose :: byte
  cli_json_output :: bool

section \<open>Options\<close>

datatype Command = CEncode | CDecode | CConfig | CPrintHdr | CPrintHdrs | CPrintDelta | CRecode | CMerge

record Options =
  o_command :: Command
  o_use_stdout :: bool
  o_force :: bool
  o_quiet :: bool
  o_verbose :: byte
  o_level :: u32
  o_no_compress :: bool
  o_no_checksum :: bool
  o_no_output :: bool
  o_use_secondary :: bool
  o_secondary_name :: "string option"
  o_use_appheader :: bool
  o_appheader :: "byte list option"
  o_source_window_size :: u64
  o_input_window_size :: nat
  o_iopt_size :: nat
  o_sprevsz :: nat
  o_source_file :: "string option"
  o_input_file :: "string option"
  o_output_file :: "string option"
  o_merge_files :: "string list"
  o_json_output :: bool

fun secondary_name :: "SecondaryArg \<Rightarrow> string option" where
  "secondary_name SecArgNone = None"
| "secondary_name SecArgLzma = Some ''lzma''"
| "secondary_name SecArgZlib = Some ''zlib''"
| "secondary_name SecArgDjw = Some ''djw''"
| "secondary_name SecArgFgk = Some ''fgk''"

definition option_or :: "'a option \<Rightarrow> 'a option \<Rightarrow> 'a option" where
  "option_or a b = (case a of Some x \<Rightarrow> Some x | None \<Rightarrow> b)"

definition resolve_encode :: "Cli \<Rightarrow> EncodeArgs \<Rightarrow> Options" where
  "resolve_encode cli args =
     (let name = secondary_name (ta_secondary (ea_tuning args)) in
      \<lparr> o_command = CEncode, o_use_stdout = ea_stdout args, o_force = cli_force cli, o_quiet = cli_quiet cli,
        o_verbose = min (cli_verbose cli) 2, o_level = ta_level (ea_tuning args),
        o_no_compress = ta_no_compress (ea_tuning args), o_no_checksum = ta_no_checksum (ea_tuning args),
        o_no_output = ea_no_output args, o_use_secondary = (name \<noteq> None), o_secondary_name = name,
        o_use_appheader = True, o_appheader = None,
        o_source_window_size = ta_source_window_size (ea_tuning args),
        o_input_window_size = unat (ta_input_window_size (ea_tuning args)),
        o_iopt_size = unat (ta_iopt_size (ea_tuning args)), o_sprevsz = unat (ta_sprevsz (ea_tuning args)),
        o_source_file = ea_source args, o_input_file = option_or (ea_input args) (ea_input_pos args),
        o_output_file = option_or (ea_output args) (ea_output_pos args), o_merge_files = [],
        o_json_output = cli_json_output cli \<rparr>)"

definition resolve_decode :: "Cli \<Rightarrow> DecodeArgs \<Rightarrow> Options" where
  "resolve_decode cli args =
      \<lparr> o_command = CDecode, o_use_stdout = da_stdout args, o_force = cli_force cli, o_quiet = cli_quiet cli,
        o_verbose = min (cli_verbose cli) 2, o_level = XD3_DEFAULT_LEVEL, o_no_compress = False,
        o_no_checksum = da_no_checksum args, o_no_output = da_no_output args, o_use_secondary = False,
        o_secondary_name = None, o_use_appheader = True, o_appheader = None,
        o_source_window_size = XD3_DEFAULT_SRCWINSZ, o_input_window_size = XD3_DEFAULT_WINSIZE,
        o_iopt_size = XD3_DEFAULT_IOPT_SIZE, o_sprevsz = XD3_DEFAULT_SPREVSZ,
        o_source_file = da_source args, o_input_file = option_or (da_input args) (da_input_pos args),
        o_output_file = option_or (da_output args) (da_output_pos args), o_merge_files = [],
        o_json_output = cli_json_output cli \<rparr>"

text \<open>The arms of \<open>Config\<close>, \<open>Header\<close>, \<open>Headers\<close> and \<open>Delta\<close> differ in the command and the input file.\<close>

definition resolve_plain :: "Cli \<Rightarrow> Command \<Rightarrow> string option \<Rightarrow> Options" where
  "resolve_plain cli command input =
      \<lparr> o_command = command, o_use_stdout = False, o_force = cli_force cli, o_quiet = cli_quiet cli,
        o_verbose = min (cli_verbose cli) 2, o_level = XD3_DEFAULT_LEVEL, o_no_compress = False,
        o_no_checksum = False, o_no_output = False, o_use_secondary = False,
        o_secondary_name = None, o_use_appheader = True, o_appheader = None,
        o_source_window_size = XD3_DEFAULT_SRCWINSZ, o_input_window_size = XD3_DEFAULT_WINSIZE,
        o_iopt_size = XD3_DEFAULT_IOPT_SIZE, o_sprevsz = XD3_DEFAULT_SPREVSZ,
        o_source_file = None, o_input_file = input, o_output_file = None, o_merge_files = [],
        o_json_output = cli_json_output cli \<rparr>"

definition resolve_recode :: "Cli \<Rightarrow> RecodeArgs \<Rightarrow> Options" where
  "resolve_recode cli args =
     (let name = secondary_name (ra_secondary args);
          (use_appheader, appheader) =
            (if ra_drop_app_header args then (False, None)
             else case ra_app_header args of Some app \<Rightarrow> (True, Some app) | None \<Rightarrow> (True, None)) in
      \<lparr> o_command = CRecode, o_use_stdout = ra_stdout args, o_force = cli_force cli, o_quiet = cli_quiet cli,
        o_verbose = min (cli_verbose cli) 2, o_level = XD3_DEFAULT_LEVEL, o_no_compress = False,
        o_no_checksum = False, o_no_output = False, o_use_secondary = (name \<noteq> None), o_secondary_name = name,
        o_use_appheader = use_appheader, o_appheader = appheader,
        o_source_window_size = XD3_DEFAULT_SRCWINSZ, o_input_window_size = XD3_DEFAULT_WINSIZE,
        o_iopt_size = XD3_DEFAULT_IOPT_SIZE, o_sprevsz = XD3_DEFAULT_SPREVSZ,
        o_source_file = None, o_input_file = option_or (ra_input args) (ra_input_pos args),
        o_output_file = option_or (ra_output args) (ra_output_pos args), o_merge_files = [],
        o_json_output = cli_json_output cli \<rparr>)"

definition resolve_merge :: "Cli \<Rightarrow> MergeArgs \<Rightarrow> Options" where
  "resolve_merge cli args =
     (let name = secondary_name (ta_secondary (ma_tuning args)) in
      \<lparr> o_command = CMerge, o_use_stdout = ma_stdout args, o_force = cli_force cli, o_quiet = cli_quiet cli,
        o_verbose = min (cli_verbose cli) 2, o_level = ta_level (ma_tuning args),
        o_no_compress = ta_no_compress (ma_tuning args), o_no_checksum = ta_no_checksum (ma_tuning args),
        o_no_output = False, o_use_secondary = (name \<noteq> None), o_secondary_name = name,
        o_use_appheader = True, o_appheader = None,
        o_source_window_size = ta_source_window_size (ma_tuning args),
        o_input_window_size = unat (ta_input_window_size (ma_tuning args)),
        o_iopt_size = unat (ta_iopt_size (ma_tuning args)), o_sprevsz = unat (ta_sprevsz (ma_tuning args)),
        o_source_file = ma_source args, o_input_file = ma_last_patch args,
        o_output_file = option_or (ma_output args) (ma_output_pos args), o_merge_files = ma_patches args,
        o_json_output = cli_json_output cli \<rparr>)"

definition resolve_options :: "Cli \<Rightarrow> Options" where
  "resolve_options cli = (case cli_command cli of
     CmdEncode args \<Rightarrow> resolve_encode cli args
   | CmdDecode args \<Rightarrow> resolve_decode cli args
   | CmdConfig \<Rightarrow> resolve_plain cli CConfig None
   | CmdHeader args \<Rightarrow> resolve_plain cli CPrintHdr (Some (pa_input args))
   | CmdHeaders args \<Rightarrow> resolve_plain cli CPrintHdrs (Some (pa_input args))
   | CmdDelta args \<Rightarrow> resolve_plain cli CPrintDelta (Some (pa_input args))
   | CmdRecode args \<Rightarrow> resolve_recode cli args
   | CmdMerge args \<Rightarrow> resolve_merge cli args)"

definition build_compress_options :: "Options \<Rightarrow> CompressOptions" where
  "build_compress_options opts =
     (let secondary = (if o_use_secondary opts then
            (case o_secondary_name opts of
               Some name \<Rightarrow>
                 if name = ''lzma'' then Lzma
                 else if name = ''zlib'' then Zlib (o_level opts)
                 else NoneC
             | None \<Rightarrow> Lzma)
          else NoneC) in
      \<lparr> co_level = o_level opts, co_window_size = o_input_window_size opts,
        co_checksum = (\<not> o_no_checksum opts), co_secondary = secondary \<rparr>)"

section \<open>Decimal numbers\<close>

text \<open>The code points of a number in decimal, as \<open>Display\<close> prints it.\<close>

fun dec :: "nat \<Rightarrow> nat list" where
  "dec n = (if n < 10 then [48 + n] else dec (n div 10) @ [48 + n mod 10])"

declare dec.simps [simp del]

lemma dec_digits: "c \<in> set (dec n) \<Longrightarrow> 48 \<le> c \<and> c \<le> 57"
proof (induction n rule: dec.induct)
  case (1 n)
  then show ?case by (subst (asm) (2) dec.simps) (auto split: if_splits)
qed

lemma dec_not_Nil [simp]: "dec n \<noteq> []"
  by (subst dec.simps) simp

lemma parse_digits_append: "parse_digits (xs @ ys) acc = Option.bind (parse_digits xs acc) (parse_digits ys)"
  by (induction xs arbitrary: acc) auto

lemma parse_digits_dec: "n < 2 ^ 64 \<Longrightarrow> parse_digits (dec n) 0 = Some n"
proof (induction n rule: dec.induct)
  case (1 n)
  have "n mod 10 \<le> 9" using mod_less_divisor [of 10 n] by linarith
  with 1 show ?case
    by (subst dec.simps) (simp add: parse_digits_append less_mult_imp_div_less)
qed

lemma parse_u64_dec:
  assumes "n < 2 ^ 64"
  shows "parse_u64 (dec n) = Some (of_nat n)"
proof -
  obtain c cs where c: "dec n = c # cs" by (cases "dec n") auto
  then have "c \<noteq> 43" using dec_digits [of c n] by auto
  then show ?thesis using parse_digits_dec [OF assms] c by (simp add: parse_u64_def)
qed

lemma str_trim_padded:
  assumes "\<forall>c \<in> set pre. is_whitespace c" "\<forall>c \<in> set post. is_whitespace c" "s \<noteq> []"
    and "\<not> is_whitespace (hd s)" "\<not> is_whitespace (last s)"
  shows "str_trim (pre @ s @ post) = s"
proof -
  have "dropWhile is_whitespace (pre @ s @ post) = s @ post"
    using assms(1,3,4) by (subst dropWhile_append2) (auto simp: neq_Nil_conv)
  moreover have "dropWhile is_whitespace (rev post @ rev s) = rev s"
    using assms(2,3,5) by (subst dropWhile_append2) (auto simp: dropWhile_eq_self_iff hd_rev)
  ultimately show ?thesis by (simp add: str_trim_def)
qed

lemma dec_no_whitespace: "c \<in> set (dec n) \<Longrightarrow> \<not> is_whitespace c"
  using dec_digits [of c n] by (auto simp: is_whitespace_def)

text \<open>The suffixes and their factors.\<close>

definition size_units :: "(nat list \<times> nat) list" where
  "size_units = [([], 1), ([107], 2 ^ 10), ([75], 2 ^ 10), ([109], 2 ^ 20), ([77], 2 ^ 20), ([103], 2 ^ 30), ([71], 2 ^ 30)]"

section \<open>Properties\<close>

text \<open>
  C40: Byte sizes are read exactly. A number below \<open>2 ^ 64\<close> in decimal, followed by nothing or by one
  of the suffixes k, K, m, M, g, G, with any white space around the number and the suffix, is read
  as the number times the factor of the suffix, or rejected when the product does not fit in 64
  bits; it never wraps.
\<close>

theorem parse_byte_size_exact:
  assumes "n < 2 ^ 64" and "(suffix, m) \<in> set size_units"
    and "\<forall>c \<in> set (pre @ mid @ post). is_whitespace c"
  shows "parse_byte_size (pre @ dec n @ mid @ suffix @ post)
    = (if n * m < 2 ^ 64 then Ok (of_nat (n * m)) else Err SizeOverflow)"
proof -
  have pad: "\<forall>c \<in> set pre. is_whitespace c" "\<forall>c \<in> set mid. is_whitespace c" "\<forall>c \<in> set post. is_whitespace c"
    using assms(3) by auto
  have d: "\<not> is_whitespace (hd (dec n))" "\<not> is_whitespace (last (dec n))" "48 \<le> last (dec n)" "last (dec n) \<le> 57"
    using dec_no_whitespace [of "hd (dec n)" n] dec_no_whitespace [of "last (dec n)" n] dec_digits [of "last (dec n)" n] by simp_all
  have num: "str_trim (dec n) = dec n" "str_trim (dec n @ mid) = dec n"
    using str_trim_padded [of "[]" "[]" "dec n"] str_trim_padded [of "[]" mid "dec n"] d pad by simp_all
  show ?thesis
  proof (cases "suffix = []")
    case True
    have "str_trim (pre @ dec n @ mid @ post) = dec n"
      using str_trim_padded [of pre "mid @ post" "dec n"] d pad by auto
    then show ?thesis
      using True assms(1,2) d num parse_u64_dec [OF assms(1)]
      by (auto simp: parse_byte_size_def size_suffix_def size_units_def unat_of_nat)
  next
    case False
    then obtain c where c: "suffix = [c]" "\<not> is_whitespace c" using assms(2) by (auto simp: size_units_def is_whitespace_def)
    have "str_trim (pre @ (dec n @ mid @ [c]) @ post) = dec n @ mid @ [c]"
      using d c pad by (intro str_trim_padded) auto
    then show ?thesis
      using c(1) assms(1,2) num parse_u64_dec [OF assms(1)]
      by (auto simp: parse_byte_size_def size_suffix_def size_units_def unat_of_nat butlast_append)
  qed
qed

theorem parse_byte_size_exact_witness:
  "parse_byte_size (map of_char '' 64 K'') = Ok 65536 \<and> parse_byte_size (map of_char ''17179869184g'') = Err SizeOverflow"
proof -
  have "dec 64 = [54, 52]" "dec 17179869184 = [49, 55, 49, 55, 57, 56, 54, 57, 49, 56, 52]" by (simp_all add: dec.simps)
  then show ?thesis
    using parse_byte_size_exact [of 64 "[75]" "2 ^ 10" "[32]" "[32]" "[]"]
      parse_byte_size_exact [of 17179869184 "[103]" "2 ^ 30" "[]" "[]" "[]"]
    by (simp add: size_units_def is_whitespace_def)
qed

end
