(* ===== verification/Cli_Commands.thy ===== *)
theory Cli_Commands
  imports File_Io Cli_Options
begin

text \<open>
  The commands \<open>encode\<close>, \<open>decode\<close> and \<open>merge\<close> of \<open>src/src/cli.rs\<close> over the files and standard
  streams of a \<open>world\<close>. A command that exits with status 0 is \<open>Ok\<close> with the world it leaves. Status 1
  is an error: \<open>Failed\<close> with the world that is left, or \<open>FailedWriting\<close> with the open output and the
  world before the first byte went there, when it may hold a part of the result. A command that ends
  in a panic is an error too, \<open>Panicked\<close>, with the output it may have written to. Messages on
  standard error are not modelled.
\<close>

section \<open>Inputs and outputs\<close>

datatype sink = ToStdout | ToFile string | ToSink

datatype failure = Failed world | FailedWriting sink world | Panicked sink world

definition source_data :: "Options \<Rightarrow> world \<Rightarrow> (byte list, failure) res" where
  "source_data opts w = (case o_source_file opts of
     Some path \<Rightarrow> map_err (\<lambda>e. Failed w) (fs_read path w)
   | None \<Rightarrow> Ok [])"

text \<open>Opening the input, and what it holds when it is read.\<close>

definition open_input :: "Options \<Rightarrow> world \<Rightarrow> (unit, failure) res" where
  "open_input opts w = (case o_input_file opts of
     Some path \<Rightarrow> map_ok (\<lambda>_. ()) (map_err (\<lambda>e. Failed w) (fs_read path w))
   | None \<Rightarrow> Ok ())"

definition input_data :: "Options \<Rightarrow> world \<Rightarrow> byte list" where
  "input_data opts w = (case o_input_file opts of
     Some path \<Rightarrow> (case files w path of Some bs \<Rightarrow> bs | None \<Rightarrow> [])
   | None \<Rightarrow> stdin_data w)"

definition drain_input :: "Options \<Rightarrow> world \<Rightarrow> world" where
  "drain_input opts w = (case o_input_file opts of Some path \<Rightarrow> w | None \<Rightarrow> w\<lparr> stdin_data := [] \<rparr>)"

definition create_output :: "Options \<Rightarrow> string \<Rightarrow> world \<Rightarrow> (world, failure) res" where
  "create_output opts path w =
     (if files w path \<noteq> None \<and> \<not> o_force opts then Err (Failed w)
      else map_err (\<lambda>e. Failed w) (fs_create path w))"

definition open_output :: "Options \<Rightarrow> world \<Rightarrow> (sink \<times> world, failure) res" where
  "open_output opts w =
     (if o_use_stdout opts then Ok (ToStdout, w)
      else case o_output_file opts of
        None \<Rightarrow> Ok (ToStdout, w)
      | Some path \<Rightarrow> map_ok (\<lambda>w. (ToFile path, w)) (create_output opts path w))"

fun put_output :: "sink \<Rightarrow> byte list \<Rightarrow> world \<Rightarrow> world" where
  "put_output ToStdout bs w = w\<lparr> stdout_data := stdout_data w @ bs \<rparr>"
| "put_output (ToFile path) bs w = fs_append path bs w"
| "put_output ToSink bs w = w"

section \<open>Commands\<close>

text \<open>What becomes of an error or a panic, before anything is written to the output and after.\<close>

fun failing :: "world \<Rightarrow> ('a, 'e) res \<Rightarrow> ('a, failure) res" where
  "failing w (Ok x) = Ok x"
| "failing w (Err e) = Err (Failed w)"
| "failing w Panic = Err (Panicked ToSink w)"

fun writing :: "sink \<Rightarrow> world \<Rightarrow> ('a, 'e) res \<Rightarrow> ('a, failure) res" where
  "writing output w (Ok x) = Ok x"
| "writing output w (Err e) = Err (FailedWriting output w)"
| "writing output w Panic = Err (Panicked output w)"

definition cmd_encode :: "Cpu \<Rightarrow> Codecs \<Rightarrow> (byte list \<Rightarrow> u32) \<Rightarrow> (byte list \<Rightarrow> byte list list) \<Rightarrow> Options \<Rightarrow> world
    \<Rightarrow> (world, failure) res option" where
  "cmd_encode cpu cs adler chop opts w =
     (let compress_opts = build_compress_options opts in
      bindO (Some (source_data opts w)) (\<lambda>source.
      bindO (Some (open_input opts w)) (\<lambda>_.
      bindO (Some (open_output opts w)) (\<lambda>(output, w).
      let target = input_data opts w; w = drain_input opts w in
      if o_no_output opts then Some (Ok w)
      else
      bindO (Some (writing output w (DeltaEncoder_new cpu cs [] source compress_opts))) (\<lambda>encoder.
      bindO (map_option (writing output w) (write_targets cpu cs adler encoder (chop target))) (\<lambda>encoder.
      bindO (Some (writing output w (delta_finish cpu cs adler encoder))) (\<lambda>(delta, windows).
      Some (Ok (put_output output delta w)))))))))"

definition cmd_decode :: "Codecs \<Rightarrow> (byte list \<Rightarrow> u32) \<Rightarrow> Options \<Rightarrow> world \<Rightarrow> (world, failure) res" where
  "cmd_decode cs adler opts w =
     bindR (source_data opts w) (\<lambda>source.
     bindR (open_input opts w) (\<lambda>_.
     bindR (if o_no_output opts then Ok (ToSink, w) else open_output opts w) (\<lambda>(output, w).
     let delta = input_data opts w; w = drain_input opts w; verify_checksum = (\<not> o_no_checksum opts) in
     bindR (writing output w (decode_to cs adler slice_provider (DeltaDecoder_with_checksum delta verify_checksum) source []))
       (\<lambda>(total, decoder, src, out).
     Ok (put_output output out w)))))"

text \<open>
  The chain of patches of \<open>merge\<close>: the first is applied to the source file, if there is one, and
  every other to the result of the one before.
\<close>

fun merge_chain :: "Codecs \<Rightarrow> (byte list \<Rightarrow> u32) \<Rightarrow> Options \<Rightarrow> world \<Rightarrow> nat \<Rightarrow> string list \<Rightarrow> byte list
    \<Rightarrow> (byte list, failure) res" where
  "merge_chain cs adler opts w i [] current_source = Ok current_source"
| "merge_chain cs adler opts w i (patch_path # rest) current_source =
     bindR (map_err (\<lambda>e. Failed w) (fs_read patch_path w)) (\<lambda>delta_data.
     bindR (if i = 0 then
              (case o_source_file opts of
                 Some path \<Rightarrow> map_err (\<lambda>e. Failed w) (fs_read path w)
               | None \<Rightarrow> Ok current_source)
            else Ok current_source) (\<lambda>source_for_decode.
     bindR (failing w (decode_memory cs adler delta_data source_for_decode)) (\<lambda>decoded.
     merge_chain cs adler opts w (i + 1) rest decoded)))"

definition cmd_merge :: "Cpu \<Rightarrow> Codecs \<Rightarrow> (byte list \<Rightarrow> u32) \<Rightarrow> Options \<Rightarrow> world \<Rightarrow> (world, failure) res option" where
  "cmd_merge cpu cs adler opts w =
     (let all_patches = o_merge_files opts @ (case o_input_file opts of Some input \<Rightarrow> [input] | None \<Rightarrow> []) in
      if length all_patches < 2 then Some (Err (Failed w))
      else if o_output_file opts = None \<and> \<not> o_use_stdout opts then Some (Err (Failed w))
      else
      bindO (Some (merge_chain cs adler opts w 0 all_patches [])) (\<lambda>final_target.
      bindO (Some (source_data opts w)) (\<lambda>original_source.
      let compress_opts = build_compress_options opts in
      bindO (Some (failing w (DeltaEncoder_new cpu cs [] original_source compress_opts))) (\<lambda>encoder.
      bindO (map_option (failing w) (write_target cpu cs adler encoder final_target)) (\<lambda>encoder.
      bindO (Some (failing w (delta_finish cpu cs adler encoder))) (\<lambda>(delta_output, windows).
      case o_output_file opts of
        Some path \<Rightarrow> Some (map_ok (fs_append path delta_output) (create_output opts path w))
      | None \<Rightarrow> Some (Ok (put_output ToStdout delta_output w))))))))"

section \<open>Encoding and decoding\<close>

lemma input_file [simp]:
  "o_input_file opts = Some path \<Longrightarrow> drain_input opts w = w"
  "o_input_file opts = Some path \<Longrightarrow> files w path = Some bs \<Longrightarrow> input_data opts w = bs"
  "o_input_file opts = Some path \<Longrightarrow> files w path = Some bs \<Longrightarrow> open_input opts w = Ok ()"
  by (simp_all add: drain_input_def input_data_def open_input_def fs_read_def)

lemma source_file:
  "source_data opts w = Ok source \<longleftrightarrow> (case o_source_file opts of Some path \<Rightarrow> files w path = Some source | None \<Rightarrow> source = [])"
  by (auto simp: source_data_def fs_read_def split: option.splits)

text \<open>A destination that can be written, and the world once \<open>bs\<close> is there.\<close>

definition can_write :: "Options \<Rightarrow> world \<Rightarrow> bool" where
  "can_write opts w \<longleftrightarrow> o_use_stdout opts \<or> (case o_output_file opts of
     None \<Rightarrow> True | Some path \<Rightarrow> writable w path \<and> (files w path = None \<or> o_force opts))"

definition delivered :: "Options \<Rightarrow> byte list \<Rightarrow> world \<Rightarrow> world" where
  "delivered opts bs w = (case (o_use_stdout opts, o_output_file opts) of
     (False, Some path) \<Rightarrow> w\<lparr> files := (files w)(path \<mapsto> bs) \<rparr>
   | _ \<Rightarrow> w\<lparr> stdout_data := stdout_data w @ bs \<rparr>)"

lemma open_output_ok:
  assumes "can_write opts w" "o_input_file opts = Some path" "files w path = Some bs"
    and "o_use_stdout opts \<or> o_output_file opts \<noteq> Some path"
  shows "\<exists>out w1. open_output opts w = Ok (out, w1) \<and> files w1 path = Some bs
    \<and> (\<forall>bs. put_output out bs w1 = delivered opts bs w)"
  using assms
  by (auto simp: open_output_def can_write_def delivered_def create_output_def fs_create_def fs_append_def split: option.splits)

lemma cmd_encode_ok:
  assumes "encodable cs (build_compress_options opts) source target" "chop_ok chop" "\<not> o_no_output opts"
    and "source_data opts w = Ok source" "o_input_file opts = Some tp" "files w tp = Some target"
    and "can_write opts w" "o_use_stdout opts \<or> o_output_file opts \<noteq> Some tp"
  shows "\<exists>delta. cmd_encode cpu cs adler chop opts w = Some (Ok (delivered opts delta w))
    \<and> decode_memory cs adler delta source = Ok target"
proof -
  have chop: "concat (chop target) = target" using assms(2) by (simp add: chop_ok_def)
  from encoder_feeds [OF assms(1) chop, of cpu adler] obtain d0 d delta n where
    d: "DeltaEncoder_new cpu cs [] source (build_compress_options opts) = Ok d0"
      "write_targets cpu cs adler d0 (chop target) = Some (Ok d)" "delta_finish cpu cs adler d = Ok (delta, n)"
      "decode_memory cs adler delta source = Ok target" by blast
  from open_output_ok [OF assms(7,5,6,8)] obtain out w1 where
    out: "open_output opts w = Ok (out, w1)" "files w1 tp = Some target" "\<forall>bs. put_output out bs w1 = delivered opts bs w" by blast
  have "cmd_encode cpu cs adler chop opts w = Some (Ok (delivered opts delta w))"
    using d(1-3) out assms(3-6) by (simp add: cmd_encode_def Let_def)
  with d(4) show ?thesis by blast
qed

lemma unverified_window:
  "decode_window_with_cache adler P h secs src verify cbuf out cache = Ok st
    \<Longrightarrow> decode_window_with_cache adler P h secs src False cbuf out cache = Ok st"
  by (auto simp: decode_window_with_cache_def bindR_eq_Ok Let_def split: if_splits option.splits)

abbreviation unverified :: "StreamDecoder \<Rightarrow> StreamDecoder" where
  "unverified sd \<equiv> sd\<lparr> sd_verify_checksum := False \<rparr>"

lemma unverified_step:
  assumes "StreamDecoder_decode_window cs adler P sd src out = Ok (b, sd', src', out')"
  shows "StreamDecoder_decode_window cs adler P (unverified sd) src out = Ok (b, unverified sd', src', out')"
proof -
  have hdr: "read_header (unverified sd) = map_ok unverified (read_header sd)"
    by (auto simp: read_header_def Let_def map_ok_bindR split: option.splits prod.splits intro!: arg_cong [where f = "bindR _"])
  from assms obtain sd1 where 1: "read_header sd = Ok sd1" by (auto simp: StreamDecoder_decode_window_def bindR_eq_Ok)
  with assms obtain wh r where 2: "WindowHeader_decode (reader sd1) = Ok (wh, r)"
    by (auto simp: StreamDecoder_decode_window_def bindR_eq_Ok)
  show ?thesis
  proof (cases wh)
    case None
    then show ?thesis using assms 1 2 by (auto simp: StreamDecoder_decode_window_def hdr)
  next
    case (Some h)
    with assms 1 2 obtain d r1 i r2 a r3 secs st where 3: "\<not> win_ind h AND VCD_TARGET \<noteq> 0"
        "read_section r (data_len h) = Ok (d, r1)" "read_section r1 (WindowHeader.inst_len h) = Ok (i, r2)"
        "read_section r2 (addr_len h) = Ok (a, r3)"
        "decompress_sections cs d i a (del_ind h) (sd_secondary_id sd1) = Ok secs"
        "decode_window_with_cache adler P h (case secs of (d, i, a) \<Rightarrow> \<lparr> s_data = d, s_inst = i, s_addr = a \<rparr>) src
          (sd_verify_checksum sd1) (sd_copy_buf sd1) out (sd_acache sd1) = Ok st"
        "(b, sd', src', out') = (True, sd1\<lparr> reader := r3, data_buf := d, inst_buf := i, addr_buf := a,
          sd_copy_buf := copy_buf st, sd_acache := d_acache st \<rparr>, d_source st, d_output st)"
      by (cases sd1) (auto simp: StreamDecoder_decode_window_def bindR_eq_Ok map_ok_eq_Ok select_sections_eq Let_def split: if_splits)
    then show ?thesis
      using 1 2 Some unverified_window [OF 3(6)]
      by (cases sd1) (simp add: StreamDecoder_decode_window_def hdr select_sections_eq Let_def)
  qed
qed

lemma unverified_all:
  "decode_all cs adler P sd src out = Ok (sd', src', out')
    \<Longrightarrow> decode_all cs adler P (unverified sd) src out = Ok (unverified sd', src', out')"
proof (induction cs adler P sd src out rule: decode_all.induct)
  case (1 cs adler P sd src out)
  from 1(2) obtain b sd1 src1 out1 where step: "StreamDecoder_decode_window cs adler P sd src out = Ok (b, sd1, src1, out1)"
    and rest: "if b then decode_all cs adler P sd1 src1 out1 = Ok (sd', src', out') else (sd1, src1, out1) = (sd', src', out')"
    by (subst (asm) decode_all.simps) (auto simp: bindR_eq_Ok split: if_splits)
  show ?case
    using unverified_step [OF step] rest 1(1) [OF step refl refl refl]
    by (subst decode_all.simps) (auto split: if_splits)
qed

lemma decode_memory_checksum:
  assumes "decode_memory cs adler delta source = Ok T"
  shows "\<exists>n dd src. decode_to cs adler slice_provider (DeltaDecoder_with_checksum delta verify) source [] = Ok (n, dd, src, T)"
proof -
  from assms obtain sd src where "decode_all cs adler slice_provider (StreamDecoder_new delta True) source [] = Ok (sd, src, T)"
    by (auto simp: decode_memory_def bindR_eq_Ok)
  with unverified_all [OF this]
  have "\<exists>sd. decode_all cs adler slice_provider (dd_inner (DeltaDecoder_with_checksum delta verify)) source [] = Ok (sd, src, T)"
    by (cases verify) (auto simp: DeltaDecoder_with_checksum_def StreamDecoder_new_def)
  then show ?thesis using decode_to_Ok [of cs adler slice_provider] by metis
qed

lemma cmd_decode_ok:
  assumes "decode_memory cs adler delta source = Ok target" "\<not> o_no_output opts"
    and "source_data opts w = Ok source" "o_input_file opts = Some dp" "files w dp = Some delta"
    and "can_write opts w" "o_use_stdout opts \<or> o_output_file opts \<noteq> Some dp"
  shows "cmd_decode cs adler opts w = Ok (delivered opts target w)"
proof -
  from open_output_ok [OF assms(6,4,5,7)] obtain out w1 where
    out: "open_output opts w = Ok (out, w1)" "files w1 dp = Some delta" "\<forall>bs. put_output out bs w1 = delivered opts bs w" by blast
  from decode_memory_checksum [OF assms(1), of "\<not> o_no_checksum opts"] out show ?thesis
    using assms(2-5) by (auto simp: cmd_decode_def Let_def)
qed

section \<open>Merging\<close>

text \<open>Patches applied one after the other.\<close>

fun apply_patches :: "Codecs \<Rightarrow> (byte list \<Rightarrow> u32) \<Rightarrow> byte list list \<Rightarrow> byte list \<Rightarrow> (byte list, DecodeError) res" where
  "apply_patches cs adler [] source = Ok source"
| "apply_patches cs adler (delta # deltas) source = bindR (decode_memory cs adler delta source) (apply_patches cs adler deltas)"

lemma merge_chain_rest:
  assumes "map (files w) ps = map Some deltas"
  shows "merge_chain cs adler opts w (Suc i) ps source = failing w (apply_patches cs adler deltas source)"
  using assms
proof (induction ps arbitrary: deltas i source)
  case (Cons p ps)
  then obtain d ds where d: "deltas = d # ds" "files w p = Some d" "map (files w) ps = map Some ds" by (cases deltas) auto
  show ?case
    using Cons.IH [OF d(3)] d by (cases "decode_memory cs adler d source") (simp_all add: fs_read_def)
qed simp

lemma merge_chain_eq:
  assumes "map (files w) ps = map Some deltas" "ps \<noteq> []" "source_data opts w = Ok source"
  shows "merge_chain cs adler opts w 0 ps [] = failing w (apply_patches cs adler deltas source)"
proof -
  from assms(1,2) obtain p ps' d ds where ps: "ps = p # ps'" "deltas = d # ds" "files w p = Some d" "map (files w) ps' = map Some ds"
    by (cases ps; cases deltas) auto
  have "(case o_source_file opts of Some path \<Rightarrow> map_err (\<lambda>e. Failed w) (fs_read path w) | None \<Rightarrow> Ok []) = (Ok source :: (_, failure) res)"
    using assms(3) by (simp add: source_data_def)
  then show ?thesis
    using ps merge_chain_rest [OF ps(4), of cs adler opts 0]
    by (cases "decode_memory cs adler d source") (simp_all add: fs_read_def)
qed

section \<open>Properties\<close>

text \<open>
  C11: A merged delta does the work of its patches. If two or more patch files, applied one after
  the other to the source, give a target, and the destination (a named file or standard output, not
  both) can be written, \<open>merge\<close> succeeds and writes there one delta that turns the source into that
  target. The source and the target must be such that the encoder round-trips them under the
  options (\<open>encodable\<close>): sizes within its limits, a backend that undoes itself and reports no errors
  or none, and at a level above 0 windows that are safe to merge (\<open>merge_safe\<close>): in no window of the
  target is a run of 8 or more equal bytes directly followed by such a run of another byte, nor the
  last 4 bytes of the source by the first 4 bytes of the window.
\<close>

theorem merge_composes:
  assumes "o_merge_files opts @ (case o_input_file opts of Some p \<Rightarrow> [p] | None \<Rightarrow> []) = ps" and "2 \<le> length ps"
    and "map (files w) ps = map Some deltas" and "source_data opts w = Ok source"
    and "apply_patches cs adler deltas source = Ok target" and "encodable cs (build_compress_options opts) source target"
    and "o_use_stdout opts \<longleftrightarrow> o_output_file opts = None" and "can_write opts w"
  shows "\<exists>delta. cmd_merge cpu cs adler opts w = Some (Ok (delivered opts delta w))
    \<and> decode_memory cs adler delta source = Ok target"
proof -
  have chain: "merge_chain cs adler opts w 0 ps [] = Ok target"
    using merge_chain_eq [OF assms(3) _ assms(4), of cs adler] assms(2,5) by (cases ps) simp_all
  from encoder_feeds [OF assms(6), of "[target]" cpu adler] obtain d0 d delta n where
    d: "DeltaEncoder_new cpu cs [] source (build_compress_options opts) = Ok d0"
      "write_target cpu cs adler d0 target = Some (Ok d)" "delta_finish cpu cs adler d = Ok (delta, n)"
      "decode_memory cs adler delta source = Ok target" by auto
  then show ?thesis
    using assms(1,2,4,7,8) chain
    by (intro exI [of _ delta])
      (auto simp: cmd_merge_def Let_def create_output_def fs_create_def fs_append_def can_write_def delivered_def split: option.splits)
qed

theorem merge_composes_witness:
  "\<exists>delta. cmd_merge Aarch64 pair_codecs adler32_simple
      (resolve_merge \<lparr> cli_command = CmdConfig, cli_force = False, cli_quiet = False, cli_verbose = 0, cli_json_output = False \<rparr>
        \<lparr> ma_source = Some ''s'', ma_patches = [''p''], ma_last_patch = Some ''q'', ma_output = Some ''o'', ma_output_pos = None,
          ma_stdout = False, ma_tuning = EncodeTuningArgs_default \<rparr>)
      \<lparr> files = [''s'' \<mapsto> [5], ''p'' \<mapsto> VCDIFF_MAGIC @ [0],
           ''q'' \<mapsto> VCDIFF_MAGIC @ [0, 0, 8, 2, 0, 2, 1, 0, 8, 9, 3]],
        writable = (\<lambda>p. True), stdin_data = [], stdout_data = [] \<rparr>
    = Some (Ok \<lparr> files = [''s'' \<mapsto> [5], ''p'' \<mapsto> VCDIFF_MAGIC @ [0],
           ''q'' \<mapsto> VCDIFF_MAGIC @ [0, 0, 8, 2, 0, 2, 1, 0, 8, 9, 3], ''o'' \<mapsto> delta],
        writable = (\<lambda>p. True), stdin_data = [], stdout_data = [] \<rparr>)
    \<and> decode_memory pair_codecs adler32_simple delta [5] = Ok [8, 9]"
proof -
  let ?d1 = "VCDIFF_MAGIC @ [0]" and ?d2 = "VCDIFF_MAGIC @ [0, 0, 8, 2, 0, 2, 1, 0, 8, 9, 3]"
  let ?opts = "resolve_merge \<lparr> cli_command = CmdConfig, cli_force = False, cli_quiet = False, cli_verbose = 0, cli_json_output = False \<rparr>
        \<lparr> ma_source = Some ''s'', ma_patches = [''p''], ma_last_patch = Some ''q'', ma_output = Some ''o'', ma_output_pos = None,
          ma_stdout = False, ma_tuning = EncodeTuningArgs_default \<rparr>"
  let ?w = "\<lparr> files = [''s'' \<mapsto> [5], ''p'' \<mapsto> ?d1, ''q'' \<mapsto> ?d2], writable = (\<lambda>p. True), stdin_data = [], stdout_data = [] \<rparr>"
  note opts = resolve_merge_def Let_def option_or_def EncodeTuningArgs_default_def
  have "apply_patches pair_codecs adler32_simple [?d1, ?d2] [5] = Ok [8, 9]" by code_simp
  moreover have "encodable pair_codecs (build_compress_options ?opts) [5] [8, 9]"
    by (rule encodable_short)
      (simp_all add: opts build_compress_options_def XD3_DEFAULT_WINSIZE_def MIN_RUN_def C_MIN_MATCH_def)
  ultimately show ?thesis
    using merge_composes [of ?opts "[''p'', ''q'']" ?w "[?d1, ?d2]" "[5]" pair_codecs adler32_simple "[8, 9]" Aarch64]
    by (simp add: opts source_data_def fs_read_def can_write_def delivered_def)
qed

end
