(* ===== verification/Cli_Recode.thy ===== *)
theory Cli_Recode
  imports Cli_Commands
begin

text \<open>
  The command \<open>recode\<close> of \<open>src/src/cli.rs\<close>: a delta is read window by window, its sections are
  decompressed and compressed anew with another backend or with none, and the headers are written
  again. The windows are not executed. The lemmas run the decoder on the old and the new delta side
  by side.
\<close>

section \<open>Definitions\<close>

definition recode_header :: "Options \<Rightarrow> CompressBackend option \<Rightarrow> FileHeader \<Rightarrow> FileHeader" where
  "recode_header opts new_secondary in_hdr =
     (let out_hdr = FileHeader_default;
          out_hdr = (case new_secondary of
             Some backend \<Rightarrow> out_hdr\<lparr> hdr_ind := hdr_ind out_hdr OR VCD_SECONDARY, secondary_id := Some (backend_id backend) \<rparr>
           | None \<Rightarrow> out_hdr) in
      if o_use_appheader opts then
        (case o_appheader opts of
           Some ah \<Rightarrow> out_hdr\<lparr> hdr_ind := hdr_ind out_hdr OR VCD_APPHEADER, app_header := Some ah \<rparr>
         | None \<Rightarrow> (case app_header in_hdr of
             Some orig_ah \<Rightarrow> out_hdr\<lparr> hdr_ind := hdr_ind out_hdr OR VCD_APPHEADER, app_header := Some orig_ah \<rparr>
           | None \<Rightarrow> out_hdr))
      else out_hdr)"

definition read_raw :: "WindowHeader \<Rightarrow> byte list \<Rightarrow> ((byte list \<times> byte list \<times> byte list) \<times> byte list, DecodeError) res" where
  "read_raw wh r =
     bindR (vec_zeroed (data_len wh)) (\<lambda>nd.
     bindR (vec_zeroed (WindowHeader.inst_len wh)) (\<lambda>ni.
     bindR (vec_zeroed (addr_len wh)) (\<lambda>na.
     bindR (map_err Io (read_exact r nd)) (\<lambda>(data, r).
     bindR (map_err Io (read_exact r ni)) (\<lambda>(inst, r).
     bindR (map_err Io (read_exact r na)) (\<lambda>(addr, r).
     Ok ((data, inst, addr), r)))))))"

definition recode_window :: "Codecs \<Rightarrow> byte option \<Rightarrow> CompressBackend option \<Rightarrow> WindowHeader
    \<Rightarrow> byte list \<times> byte list \<times> byte list \<Rightarrow> byte list \<Rightarrow> (byte list, DecodeError) res" where
  "recode_window cs in_id new_secondary wh bufs w = (case bufs of (data, inst, addr) \<Rightarrow>
     bindR (if del_ind wh \<noteq> 0 then decompress_sections cs data inst addr (del_ind wh) in_id
            else Ok (data, inst, addr)) (\<lambda>(raw_data, raw_inst, raw_addr).
     bindR (case new_secondary of
              Some backend \<Rightarrow> map_err Io (compress_sections backend raw_data raw_inst raw_addr)
            | None \<Rightarrow> Ok (raw_data, raw_inst, raw_addr, 0)) (\<lambda>(out_data, out_inst, out_addr, new_del_ind).
     let new_wh = \<lparr> win_ind = win_ind wh, copy_window_len = copy_window_len wh,
           copy_window_offset = copy_window_offset wh, enc_len = 0, target_window_len = target_window_len wh,
           del_ind = new_del_ind, data_len = of_nat (length out_data), inst_len = of_nat (length out_inst),
           addr_len = of_nat (length out_addr), wh_adler32 = wh_adler32 wh \<rparr>;
         new_wh = new_wh\<lparr> enc_len := compute_enc_len new_wh \<rparr> in
     bindR (WindowHeader_encode new_wh w) (\<lambda>w.
     Ok (write_all (write_all (write_all w out_data) out_inst) out_addr)))))"

lemma read_raw_shorter: "read_raw wh r = Ok (bufs, r') \<Longrightarrow> length r' \<le> length r"
  by (auto simp: read_raw_def bindR_eq_Ok read_exact_def split: if_splits)

function recode_windows :: "Codecs \<Rightarrow> byte option \<Rightarrow> CompressBackend option \<Rightarrow> byte list \<Rightarrow> byte list
    \<Rightarrow> (byte list, DecodeError) res" where
  "recode_windows cs in_id new_secondary r w =
     bindR (map_err Io (WindowHeader_decode r)) (\<lambda>(wh_opt, r). case wh_opt of
       None \<Rightarrow> Ok w
     | Some wh \<Rightarrow>
     bindR (read_raw wh r) (\<lambda>(bufs, r).
     bindR (recode_window cs in_id new_secondary wh bufs w) (\<lambda>w.
     recode_windows cs in_id new_secondary r w)))"
  by pat_completeness auto
termination
  by (relation "measure (\<lambda>(cs, i, n, r, w). length r)") (auto dest!: WindowHeader_decode_Ok read_raw_shorter)

declare recode_windows.simps [simp del]

definition cmd_recode :: "Codecs \<Rightarrow> Options \<Rightarrow> world \<Rightarrow> (world, failure) res" where
  "cmd_recode cs opts w = (case o_input_file opts of
     None \<Rightarrow> Err (Failed w)
   | Some input_file \<Rightarrow>
     bindR (map_err (\<lambda>e. Failed w) (fs_read input_file w)) (\<lambda>_.
     bindR (open_output opts w) (\<lambda>(output, w).
     bindR (failing w (FileHeader_decode (input_data opts w))) (\<lambda>(in_hdr, r).
     let new_secondary = SecondaryCompression_backend cs (co_secondary (build_compress_options opts));
         out_hdr = recode_header opts new_secondary in_hdr in
     bindR (writing output w (FileHeader_encode out_hdr [] :: (byte list, io_error) res)) (\<lambda>out.
     bindR (writing output w (recode_windows cs (secondary_id in_hdr) new_secondary r out)) (\<lambda>out.
     Ok (put_output output out w)))))))"

section \<open>One window\<close>

text \<open>What a call that decoded a window read and executed.\<close>

lemma stream_window_parts:
  assumes "StreamDecoder_decode_window cs adler P sd src out = Ok (True, sd', src', out')" "sd_file_header sd \<noteq> None"
  shows "\<exists>wh r d i a r' secs st. WindowHeader_decode (reader sd) = Ok (Some wh, r) \<and> \<not> has_target wh
    \<and> read_raw wh r = Ok ((d, i, a), r')
    \<and> decompress_sections cs d i a (del_ind wh) (sd_secondary_id sd) = Ok secs
    \<and> decode_window_with_cache adler P wh (case secs of (d, i, a) \<Rightarrow> \<lparr> s_data = d, s_inst = i, s_addr = a \<rparr>) src
        (sd_verify_checksum sd) (sd_copy_buf sd) out (sd_acache sd) = Ok st
    \<and> sd' = sd\<lparr> data_buf := d, inst_buf := i, addr_buf := a, reader := r', sd_copy_buf := copy_buf st, sd_acache := d_acache st \<rparr>
    \<and> src' = d_source st \<and> out' = d_output st"
proof -
  have hdr: "read_header sd = Ok sd" using assms(2) by (auto simp: read_header_def)
  obtain wh r where 1: "WindowHeader_decode (reader sd) = Ok (Some wh, r)"
    using assms(1) by (auto simp: StreamDecoder_decode_window_def hdr bindR_eq_Ok Let_def split: option.splits)
  then show ?thesis
    using assms(1)
    by (auto simp: StreamDecoder_decode_window_def hdr bindR_eq_Ok map_ok_eq_Ok select_sections_eq read_section_def
        read_raw_def has_target_def Let_def split: if_splits)
qed

text \<open>The same window from another encoding of its sections.\<close>

lemma stream_window_from_parts:
  assumes "sd_file_header sd \<noteq> None" "reader sd = window_header_bytes wh @ d @ i @ a @ rest" "window_header_ok wh" "\<not> has_target wh"
    and "data_len wh = of_nat (length d)" "WindowHeader.inst_len wh = of_nat (length i)" "addr_len wh = of_nat (length a)"
    and "length d < 2 ^ 63" "length i < 2 ^ 63" "length a < 2 ^ 63"
    and "decompress_sections cs d i a (del_ind wh) (sd_secondary_id sd) = Ok secs"
    and "decode_window_with_cache adler P wh (case secs of (d, i, a) \<Rightarrow> \<lparr> s_data = d, s_inst = i, s_addr = a \<rparr>) src
      (sd_verify_checksum sd) (sd_copy_buf sd) out (sd_acache sd) = Ok st"
  shows "StreamDecoder_decode_window cs adler P sd src out
    = Ok (True, sd\<lparr> data_buf := d, inst_buf := i, addr_buf := a, reader := rest, sd_copy_buf := copy_buf st, sd_acache := d_acache st \<rparr>,
        d_source st, d_output st)"
proof -
  have hdr: "read_header sd = Ok sd" using assms(1) by (auto simp: read_header_def)
  show ?thesis
    using assms WindowHeader_decode_bytes [OF assms(3), of "d @ i @ a @ rest"]
    by (simp add: StreamDecoder_decode_window_def hdr select_sections_eq has_target_def Let_def)
qed

text \<open>Backends of the built-in kinds: what they compress comes back under the id in the new header.\<close>

lemma recompress_ok:
  assumes "secondary_ok cs sc"
  shows "\<exists>od oi oa del. (case SecondaryCompression_backend cs sc of
        Some backend \<Rightarrow> map_err Io (compress_sections backend d i a) | None \<Rightarrow> Ok (d, i, a, 0)) = Ok (od, oi, oa, del)
    \<and> decompress_sections cs od oi oa del (sid_of cs sc) = Ok (d, i, a) \<and> del AND VCD_INVDEL = 0"
proof (cases "SecondaryCompression_backend cs sc")
  case None
  then show ?thesis by (simp add: decompress_sections_def)
next
  case (Some B)
  with assms have sc: "codecs_lossless cs" "backend_total B" "sc = Lzma \<or> (\<exists>level. sc = Zlib level)"
    by (cases sc; auto simp: SecondaryCompression_backend_def)+
  from compress_sections_total [OF sc(2)] obtain od oi oa del where c: "compress_sections B d i a = Ok (od, oi, oa, del)" by blast
  have "del AND VCD_INVDEL = 0" using compress_sections_Ok [OF c] by auto
  with builtin_sections_roundtrip [OF sc(1,3) Some c] c Some show ?thesis by (auto simp: sid_of_def)
qed

section \<open>Decoding the old and the new delta side by side\<close>

text \<open>Two decoders that differ only in the encoding of what is left to read.\<close>

definition twin :: "StreamDecoder \<Rightarrow> StreamDecoder \<Rightarrow> bool" where
  "twin sd sd' \<longleftrightarrow> sd_file_header sd \<noteq> None \<and> sd_file_header sd' \<noteq> None \<and> sd_verify_checksum sd' = sd_verify_checksum sd
     \<and> sd_copy_buf sd' = sd_copy_buf sd \<and> sd_acache sd' = sd_acache sd"

lemma recode_window_ok:
  assumes "window_header_ok wh" "decompress_sections cs d i a (del_ind wh) in_id = Ok secs" "secondary_ok cs sc"
  shows "\<exists>h od oi oa. (\<forall>w. recode_window cs in_id (SecondaryCompression_backend cs sc) wh (d, i, a) w
        = Ok (w @ window_header_bytes h @ od @ oi @ oa))
    \<and> window_header_ok h \<and> has_target h = has_target wh
    \<and> data_len h = of_nat (length od) \<and> WindowHeader.inst_len h = of_nat (length oi) \<and> addr_len h = of_nat (length oa)
    \<and> decompress_sections cs od oi oa (del_ind h) (sid_of cs sc) = Ok secs
    \<and> copy_window_len h = copy_window_len wh \<and> copy_window_offset h = copy_window_offset wh
    \<and> target_window_len h = target_window_len wh \<and> wh_adler32 h = wh_adler32 wh"
proof -
  obtain rd ri ra where secs: "secs = (rd, ri, ra)" by (cases secs) auto
  from recompress_ok [OF assms(3), of rd ri ra] obtain od oi oa del where c:
    "(case SecondaryCompression_backend cs sc of Some backend \<Rightarrow> map_err Io (compress_sections backend rd ri ra)
      | None \<Rightarrow> Ok (rd, ri, ra, 0)) = Ok (od, oi, oa, del)"
    "decompress_sections cs od oi oa del (sid_of cs sc) = Ok (rd, ri, ra)" "del AND VCD_INVDEL = 0" by blast
  have raw: "(if del_ind wh \<noteq> 0 then decompress_sections cs d i a (del_ind wh) in_id else Ok (d, i, a)) = Ok (rd, ri, ra)"
    using assms(2) secs by (auto simp: decompress_sections_def)
  define h0 where "h0 = \<lparr> win_ind = win_ind wh, copy_window_len = copy_window_len wh, copy_window_offset = copy_window_offset wh,
      enc_len = 0, target_window_len = target_window_len wh, del_ind = del, data_len = of_nat (length od),
      inst_len = of_nat (length oi), addr_len = of_nat (length oa), wh_adler32 = wh_adler32 wh \<rparr>"
  define h where "h = h0\<lparr> enc_len := compute_enc_len h0 \<rparr>"
  have "recode_window cs in_id (SecondaryCompression_backend cs sc) wh (d, i, a) w = Ok (w @ window_header_bytes h @ od @ oi @ oa)" for w
    unfolding recode_window_def prod.case raw bindR.simps c(1) Let_def
    by (simp add: WindowHeader_encode_eq write_all_def h_def h0_def)
  moreover have "window_header_ok h"
    using assms(1) c(3) by (auto simp: window_header_ok_def h_def h0_def compute_enc_len_def has_source_def has_target_def has_checksum_def Let_def)
  ultimately show ?thesis
    using c(2) secs by (intro exI [of _ h] exI [of _ od] exI [of _ oi] exI [of _ oa]) (simp add: h_def h0_def has_target_def)
qed

lemma decode_window_header_cong:
  assumes "copy_window_len h = copy_window_len wh" "copy_window_offset h = copy_window_offset wh"
    and "target_window_len h = target_window_len wh" "wh_adler32 h = wh_adler32 wh"
  shows "decode_window_with_cache adler P h = decode_window_with_cache adler P wh"
  by (intro ext) (simp only: decode_window_with_cache_def assms)

lemma stream_end:
  assumes "sd_file_header sd \<noteq> None"
  shows "reader sd = [] \<Longrightarrow> StreamDecoder_decode_window cs adler P sd src out = Ok (False, sd, src, out)"
    and "StreamDecoder_decode_window cs adler P sd src out = Ok (False, sd', src', out') \<Longrightarrow> reader sd = [] \<and> src' = src \<and> out' = out"
proof -
  have hdr: "read_header sd = Ok sd" using assms by (auto simp: read_header_def)
  show "reader sd = [] \<Longrightarrow> StreamDecoder_decode_window cs adler P sd src out = Ok (False, sd, src, out)"
    by (simp add: StreamDecoder_decode_window_def hdr WindowHeader_decode_None [THEN iffD2])
  show "reader sd = [] \<and> src' = src \<and> out' = out"
    if "StreamDecoder_decode_window cs adler P sd src out = Ok (False, sd', src', out')"
    using that by (auto simp: StreamDecoder_decode_window_def hdr bindR_eq_Ok Let_def WindowHeader_decode_None split: option.splits if_splits)
qed

lemma recode_step:
  assumes step: "StreamDecoder_decode_window cs adler P sd src out = Ok (True, sd1, src1, out1)"
    and "sd_file_header sd \<noteq> None" "secondary_ok cs sc"
  shows "\<exists>pre. (\<forall>w. recode_windows cs (sd_secondary_id sd) (SecondaryCompression_backend cs sc) (reader sd) w
        = recode_windows cs (sd_secondary_id sd1) (SecondaryCompression_backend cs sc) (reader sd1) (w @ pre))
    \<and> sd_file_header sd1 \<noteq> None
    \<and> (\<forall>sd2 rest. twin sd sd2 \<and> sd_secondary_id sd2 = sid_of cs sc \<and> reader sd2 = pre @ rest \<and> length (pre @ rest) < 2 ^ 63
        \<longrightarrow> (\<exists>sd3. StreamDecoder_decode_window cs adler P sd2 src out = Ok (True, sd3, src1, out1)
              \<and> twin sd1 sd3 \<and> sd_secondary_id sd3 = sid_of cs sc \<and> reader sd3 = rest))"
proof -
  let ?B = "SecondaryCompression_backend cs sc"
  obtain wh r d i a r1 secs st where p: "WindowHeader_decode (reader sd) = Ok (Some wh, r)" "\<not> has_target wh"
    "read_raw wh r = Ok ((d, i, a), r1)" "decompress_sections cs d i a (del_ind wh) (sd_secondary_id sd) = Ok secs"
    "decode_window_with_cache adler P wh (case secs of (d, i, a) \<Rightarrow> \<lparr> s_data = d, s_inst = i, s_addr = a \<rparr>) src
      (sd_verify_checksum sd) (sd_copy_buf sd) out (sd_acache sd) = Ok st"
    "sd1 = sd\<lparr> data_buf := d, inst_buf := i, addr_buf := a, reader := r1, sd_copy_buf := copy_buf st, sd_acache := d_acache st \<rparr>"
    "src1 = d_source st" "out1 = d_output st"
    using stream_window_parts [OF step assms(2)] by blast
  have "window_header_ok wh" using WindowHeader_decode_Ok [OF p(1)] by simp
  from recode_window_ok [OF this p(4) assms(3)] obtain h od oi oa where
    h: "\<forall>w. recode_window cs (sd_secondary_id sd) ?B wh (d, i, a) w = Ok (w @ window_header_bytes h @ od @ oi @ oa)"
      "window_header_ok h" "has_target h = has_target wh" "data_len h = of_nat (length od)"
      "WindowHeader.inst_len h = of_nat (length oi)" "addr_len h = of_nat (length oa)"
      "decompress_sections cs od oi oa (del_ind h) (sid_of cs sc) = Ok secs"
    and same: "decode_window_with_cache adler P h = decode_window_with_cache adler P wh"
    using decode_window_header_cong by metis
  let ?pre = "window_header_bytes h @ od @ oi @ oa"
  let ?next = "\<lambda>sd2 rest. sd2\<lparr> data_buf := od, inst_buf := oi, addr_buf := oa, reader := rest,
      sd_copy_buf := copy_buf st, sd_acache := d_acache st \<rparr>"
  have "StreamDecoder_decode_window cs adler P sd2 src out = Ok (True, ?next sd2 rest, src1, out1)"
    if "twin sd sd2" "sd_secondary_id sd2 = sid_of cs sc" "reader sd2 = ?pre @ rest" "length (?pre @ rest) < 2 ^ 63" for sd2 rest
    using that h p(2,5) unfolding p(7,8) by (intro stream_window_from_parts [where wh = h]) (simp_all add: twin_def same)
  moreover have "twin sd1 (?next sd2 rest)" if "twin sd sd2" for sd2 rest using that p(6) by (simp add: twin_def)
  moreover have "recode_windows cs (sd_secondary_id sd) ?B (reader sd) w = recode_windows cs (sd_secondary_id sd1) ?B (reader sd1) (w @ ?pre)" for w
    using p(1,3) h(1) p(6) by (subst recode_windows.simps) simp
  moreover have "sd_file_header sd1 \<noteq> None" using p(6) assms(2) by simp
  ultimately show ?thesis by (intro exI [of _ ?pre] conjI allI impI) (auto intro!: exI [of _ "?next _ _"])
qed

lemma recode_simulates:
  "decode_all cs adler P sd src out = Ok (sdE, srcE, outE) \<Longrightarrow> sd_file_header sd \<noteq> None \<Longrightarrow> secondary_ok cs sc \<Longrightarrow>
    \<exists>bs. (\<forall>w. recode_windows cs (sd_secondary_id sd) (SecondaryCompression_backend cs sc) (reader sd) w = Ok (w @ bs))
      \<and> (length bs < 2 ^ 63 \<longrightarrow> (\<forall>sd2. twin sd sd2 \<and> sd_secondary_id sd2 = sid_of cs sc \<and> reader sd2 = bs
          \<longrightarrow> (\<exists>sdE2. decode_all cs adler P sd2 src out = Ok (sdE2, srcE, outE))))"
proof (induction cs adler P sd src out rule: decode_all.induct)
  case (1 cs adler P sd src out)
  let ?B = "SecondaryCompression_backend cs sc"
  from 1(2) obtain m sd1 src1 out1 where step: "StreamDecoder_decode_window cs adler P sd src out = Ok (m, sd1, src1, out1)"
    and rest: "if m then decode_all cs adler P sd1 src1 out1 = Ok (sdE, srcE, outE) else (sd1, src1, out1) = (sdE, srcE, outE)"
    by (subst (asm) decode_all.simps) (auto simp: bindR_eq_Ok split: if_splits)
  show ?case
  proof (cases m)
    case False
    with stream_end(2) [OF 1(3), of cs adler P src out sd1 src1 out1] step rest have e: "reader sd = []" "srcE = src" "outE = out" by auto
    then have "recode_windows cs (sd_secondary_id sd) ?B (reader sd) w = Ok (w @ [])" for w
      by (subst recode_windows.simps) (simp add: WindowHeader_decode_None [THEN iffD2])
    moreover have "decode_all cs adler P sd2 src out = Ok (sd2, src, out)" if "twin sd sd2" "reader sd2 = []" for sd2
      using that stream_end(1) [of sd2 cs adler P src out] by (subst decode_all.simps) (simp add: twin_def)
    ultimately show ?thesis using e by blast
  next
    case True
    note step = step [unfolded eqTrueI [OF True]]
    from recode_step [OF step 1(3,4)] obtain pre where
      pre: "\<forall>w. recode_windows cs (sd_secondary_id sd) ?B (reader sd) w = recode_windows cs (sd_secondary_id sd1) ?B (reader sd1) (w @ pre)"
        "sd_file_header sd1 \<noteq> None"
      and sim: "\<And>sd2 rest. twin sd sd2 \<Longrightarrow> sd_secondary_id sd2 = sid_of cs sc \<Longrightarrow> reader sd2 = pre @ rest \<Longrightarrow> length (pre @ rest) < 2 ^ 63
        \<Longrightarrow> \<exists>sd3. StreamDecoder_decode_window cs adler P sd2 src out = Ok (True, sd3, src1, out1)
              \<and> twin sd1 sd3 \<and> sd_secondary_id sd3 = sid_of cs sc \<and> reader sd3 = rest" by blast
    have "decode_all cs adler P sd1 src1 out1 = Ok (sdE, srcE, outE)" using rest True by simp
    from 1(1) [OF step refl refl refl _ this pre(2) 1(4)] obtain bs where
      bs: "\<forall>w. recode_windows cs (sd_secondary_id sd1) ?B (reader sd1) w = Ok (w @ bs)"
        "length bs < 2 ^ 63 \<longrightarrow> (\<forall>sd2. twin sd1 sd2 \<and> sd_secondary_id sd2 = sid_of cs sc \<and> reader sd2 = bs
          \<longrightarrow> (\<exists>sdE2. decode_all cs adler P sd2 src1 out1 = Ok (sdE2, srcE, outE)))" by blast
    have "\<exists>sdE2. decode_all cs adler P sd2 src out = Ok (sdE2, srcE, outE)"
      if "length (pre @ bs) < 2 ^ 63" "twin sd sd2" "sd_secondary_id sd2 = sid_of cs sc" "reader sd2 = pre @ bs" for sd2
      using sim [OF that(2,3,4,1)] bs(2) that(1) by (subst decode_all.simps) auto
    then show ?thesis using pre(1) bs(1) by (intro exI [of _ "pre @ bs"]) simp
  qed
qed

section \<open>The whole delta\<close>

lemma FileHeader_decode_app_header:
  "FileHeader_decode r = Ok (hdr, r') \<Longrightarrow> app_header hdr = Some ah \<Longrightarrow> length ah < 2 ^ 63"
  by (auto simp: FileHeader_decode_def bindR_eq_Ok Let_def vec_zeroed_eq_Ok read_exact_def split: if_splits)

lemma decode_all_start:
  assumes "read_header sd0 = Ok sd" "read_header sd = Ok sd"
  shows "decode_all cs adler P sd0 src out = decode_all cs adler P sd src out"
proof -
  have "StreamDecoder_decode_window cs adler P sd0 src out = StreamDecoder_decode_window cs adler P sd src out"
    using assms by (simp add: StreamDecoder_decode_window_def)
  then show ?thesis by (simp add: decode_all.simps [of cs adler P sd0] decode_all.simps [of cs adler P sd])
qed

lemma recode_header_ok:
  assumes "\<forall>ah. o_appheader opts = Some ah \<longrightarrow> length ah < 2 ^ 63" "\<forall>ah. app_header hdr = Some ah \<longrightarrow> length ah < 2 ^ 63"
  shows "file_header_ok (recode_header opts (SecondaryCompression_backend cs sc) hdr)
    \<and> secondary_id (file_header_canon (recode_header opts (SecondaryCompression_backend cs sc) hdr)) = sid_of cs sc"
  using assms
  by (cases "SecondaryCompression_backend cs sc"; cases "o_use_appheader opts"; cases "o_appheader opts"; cases "app_header hdr")
    (simp_all add: recode_header_def file_header_ok_def file_header_canon_def FileHeader_default_def sid_of_def Let_def
      VCD_SECONDARY_def VCD_APPHEADER_def VCD_INVHDR_def VCD_CODETABLE_def)

text \<open>The decoder once the file header is read.\<close>

definition opened :: "FileHeader \<Rightarrow> byte list \<Rightarrow> StreamDecoder" where
  "opened hdr r = (StreamDecoder_new r True)\<lparr> sd_file_header := Some hdr, sd_secondary_id := secondary_id hdr \<rparr>"

lemma opened_fields [simp]:
  "sd_file_header (opened hdr r) = Some hdr" "sd_secondary_id (opened hdr r) = secondary_id hdr" "reader (opened hdr r) = r"
  "sd_acache (opened hdr r) = AddressCache_new" "twin (opened hdr r) (opened hdr' r')"
  by (simp_all add: opened_def StreamDecoder_new_def twin_def)

lemma decode_memory_opened:
  assumes "decode_memory cs adler delta source = Ok target"
  shows "\<exists>hdr r sdE srcE. FileHeader_decode delta = Ok (hdr, r)
    \<and> decode_all cs adler slice_provider (opened hdr r) source [] = Ok (sdE, srcE, target)"
proof -
  from assms obtain sdE srcE where dec: "decode_all cs adler slice_provider (StreamDecoder_new delta True) source [] = Ok (sdE, srcE, target)"
    by (auto simp: decode_memory_def bindR_eq_Ok)
  then obtain hdr r where hdr: "FileHeader_decode delta = Ok (hdr, r)"
    by (subst (asm) decode_all.simps)
      (auto simp: StreamDecoder_decode_window_def read_header_def StreamDecoder_new_def bindR_eq_Ok)
  have "decode_all cs adler slice_provider (StreamDecoder_new delta True) source [] = decode_all cs adler slice_provider (opened hdr r) source []"
    by (rule decode_all_start) (use hdr in \<open>simp_all add: read_header_def StreamDecoder_new_def opened_def\<close>)
  with hdr dec show ?thesis by auto
qed

lemma recode_delta:
  assumes "decode_memory cs adler delta source = Ok target" "secondary_ok cs sc"
  shows "\<exists>hdr r bs. FileHeader_decode delta = Ok (hdr, r)
    \<and> (\<forall>w. recode_windows cs (secondary_id hdr) (SecondaryCompression_backend cs sc) r w = Ok (w @ bs))
    \<and> (\<forall>oh. file_header_ok oh \<and> secondary_id (file_header_canon oh) = sid_of cs sc \<and> length bs < 2 ^ 63
        \<longrightarrow> decode_memory cs adler (file_header_bytes oh @ bs) source = Ok target)"
proof -
  let ?B = "SecondaryCompression_backend cs sc"
  from decode_memory_opened [OF assms(1)] obtain hdr r sdE srcE where hdr: "FileHeader_decode delta = Ok (hdr, r)"
    and dec: "decode_all cs adler slice_provider (opened hdr r) source [] = Ok (sdE, srcE, target)" by blast
  from recode_simulates [OF dec _ assms(2)] obtain bs where
    bs: "\<forall>w. recode_windows cs (secondary_id hdr) ?B r w = Ok (w @ bs)"
      "length bs < 2 ^ 63 \<longrightarrow> (\<forall>sd2. twin (opened hdr r) sd2 \<and> sd_secondary_id sd2 = sid_of cs sc \<and> reader sd2 = bs
          \<longrightarrow> (\<exists>sdE2. decode_all cs adler slice_provider sd2 source [] = Ok (sdE2, srcE, target)))"
    by auto
  have "decode_memory cs adler (file_header_bytes oh @ bs) source = Ok target"
    if ok: "file_header_ok oh" "secondary_id (file_header_canon oh) = sid_of cs sc" "length bs < 2 ^ 63" for oh
  proof -
    obtain sdE2 where "decode_all cs adler slice_provider (opened (file_header_canon oh) bs) source [] = Ok (sdE2, srcE, target)"
      using bs(2) ok(2,3) by fastforce
    then show ?thesis by (simp add: decode_memory_def decode_all_header [OF ok(1)] opened_def)
  qed
  with hdr bs(1) show ?thesis by blast
qed

section \<open>Properties\<close>

text \<open>
  C8: Recoding a delta does not change what it decodes to. If the input file holds a delta that decodes
  to a target with some source, the output can be written and is not the input, and the backend
  asked for undoes itself and reports no errors, \<open>recode\<close> succeeds, with the old or the new
  application header or with none, and the delta it writes decodes with the same source to the
  same target, checksums included. The new delta must fit in memory.
\<close>

theorem recode_preserves:
  assumes "decode_memory cs adler delta source = Ok target"
    and "secondary_ok cs (co_secondary (build_compress_options opts))"
    and "o_input_file opts = Some path" and "files w path = Some delta"
    and "can_write opts w" and "o_use_stdout opts \<or> o_output_file opts \<noteq> Some path"
    and "\<forall>ah. o_appheader opts = Some ah \<longrightarrow> length ah < 2 ^ 63"
  shows "\<exists>delta'. cmd_recode cs opts w = Ok (delivered opts delta' w)
    \<and> (length delta' < 2 ^ 63 \<longrightarrow> decode_memory cs adler delta' source = Ok target)"
proof -
  let ?sc = "co_secondary (build_compress_options opts)"
  let ?B = "SecondaryCompression_backend cs ?sc"
  obtain hdr r bs where bs: "FileHeader_decode delta = Ok (hdr, r)" "\<forall>w. recode_windows cs (secondary_id hdr) ?B r w = Ok (w @ bs)"
    "\<forall>oh. file_header_ok oh \<and> secondary_id (file_header_canon oh) = sid_of cs ?sc \<and> length bs < 2 ^ 63
        \<longrightarrow> decode_memory cs adler (file_header_bytes oh @ bs) source = Ok target"
    using recode_delta [OF assms(1,2)] by blast
  define oh where "oh = recode_header opts ?B hdr"
  have oh: "file_header_ok oh" "secondary_id (file_header_canon oh) = sid_of cs ?sc"
    using recode_header_ok [OF assms(7), of hdr cs ?sc] FileHeader_decode_app_header [OF bs(1)] by (simp_all add: oh_def)
  from open_output_ok [OF assms(5,3,4,6)] obtain out w1 where
    out: "open_output opts w = Ok (out, w1)" "files w1 path = Some delta" "\<forall>bs. put_output out bs w1 = delivered opts bs w" by blast
  have "cmd_recode cs opts w = Ok (delivered opts (file_header_bytes oh @ bs) w)"
    using assms(3,4) out bs(1,2)
    by (simp add: FileHeader_encode_eq [OF oh(1)] cmd_recode_def fs_read_def Let_def flip: oh_def)
  with oh bs(3) show ?thesis by auto
qed

theorem recode_preserves_witness:
  "\<exists>delta'. cmd_recode pair_codecs
      (resolve_recode \<lparr> cli_command = CmdConfig, cli_force = False, cli_quiet = False, cli_verbose = 0, cli_json_output = False \<rparr>
        \<lparr> ra_input = Some ''d'', ra_output = Some ''o'', ra_stdout = False, ra_secondary = SecArgLzma, ra_app_header = Some [65],
          ra_drop_app_header = False, ra_input_pos = None, ra_output_pos = None \<rparr>)
      \<lparr> files = [''d'' \<mapsto> VCDIFF_MAGIC @ [0, 0, 9, 3, 0, 3, 1, 0, 1, 2, 3, 4]], writable = (\<lambda>p. True), stdin_data = [], stdout_data = [] \<rparr>
    = Ok \<lparr> files = [''d'' \<mapsto> VCDIFF_MAGIC @ [0, 0, 9, 3, 0, 3, 1, 0, 1, 2, 3, 4], ''o'' \<mapsto> delta'], writable = (\<lambda>p. True),
        stdin_data = [], stdout_data = [] \<rparr>
    \<and> (length delta' < 2 ^ 63 \<longrightarrow> decode_memory pair_codecs adler32_simple delta' [] = Ok [1, 2, 3])"
proof -
  let ?d = "VCDIFF_MAGIC @ [0, 0, 9, 3, 0, 3, 1, 0, 1, 2, 3, 4]"
  let ?opts = "resolve_recode \<lparr> cli_command = CmdConfig, cli_force = False, cli_quiet = False, cli_verbose = 0, cli_json_output = False \<rparr>
        \<lparr> ra_input = Some ''d'', ra_output = Some ''o'', ra_stdout = False, ra_secondary = SecArgLzma, ra_app_header = Some [65],
          ra_drop_app_header = False, ra_input_pos = None, ra_output_pos = None \<rparr>"
  note opts = resolve_recode_def Let_def option_or_def
  have "decode_memory pair_codecs adler32_simple ?d [] = Ok [1, 2, 3]" by code_simp
  then show ?thesis
    using recode_preserves [of pair_codecs adler32_simple ?d "[]" "[1, 2, 3]" ?opts "''d''"
        "\<lparr> files = [''d'' \<mapsto> ?d], writable = (\<lambda>p. True), stdin_data = [], stdout_data = [] \<rparr>"]
    by (simp add: opts build_compress_options_def pair_codecs_ok can_write_def delivered_def)
qed

text \<open>
  Recoding a file onto itself under \<open>--force\<close> destroys it: the output is created, and with it the
  input truncated, before the input is read. The command exits with status 1 and leaves an empty
  file.
\<close>

theorem recode_in_place_destroys:
  assumes "o_input_file opts = Some path" "o_output_file opts = Some path" "\<not> o_use_stdout opts" "o_force opts"
    and "files w path = Some delta" "writable w path"
  shows "cmd_recode cs opts w = Err (Failed (w\<lparr> files := (files w)(path \<mapsto> []) \<rparr>))"
  using assms
  by (simp add: cmd_recode_def fs_read_def open_output_def create_output_def fs_create_def input_data_def
      FileHeader_decode_def read_exact_def)

end
