(* ===== verification/Decoder_Safety.thy ===== *)
theory Decoder_Safety
  imports Compress_Decoder
begin

text \<open>
  The decoder on untrusted input: whatever bytes a window holds, executing it stays within its
  buffers, ends in an error or in a window of the declared length, and the states the stream loop
  reaches satisfy the decoder's invariants. The only panics left are the ones the header fields
  allow: a length beyond \<open>isize::MAX\<close>, or a source segment at the very end of the 64-bit range.
\<close>

section \<open>Providers that do not panic\<close>

text \<open>
  The part of the \<open>SourceProvider\<close> contract that safety needs: within the 64-bit range no request
  panics, a slice has the requested length, and a read keeps the length of its buffer.
\<close>

locale safe_provider =
  fixes P :: "'p SourceProvider" and ready :: "'p \<Rightarrow> bool"
  assumes slice_safe: "ready s \<Longrightarrow> unat off + n < 2 ^ 64 \<Longrightarrow>
      safe (source_slice P s off n) (\<lambda>r. \<forall>bs. r = Some bs \<longrightarrow> length bs = n)"
    and read_safe: "ready s \<Longrightarrow> safe (read_source P s off buf) (\<lambda>(s', buf', n). ready s' \<and> length buf' = length buf)"
begin

lemma source_copy_safe:
  assumes "ready (d_source st)" "unat off + n < 2 ^ 64"
  shows "safe (source_copy P off n st) (\<lambda>st'. ready (d_source st') \<and> d_acache st' = d_acache st
     \<and> addr_pos st' = addr_pos st \<and> inst_pos st' = inst_pos st \<and> data_pos st' = data_pos st \<and> target_pos st' = target_pos st
     \<and> (\<exists>bs. length bs = n \<and> d_output st' = d_output st @ bs))"
proof -
  have "length (vec_resize (copy_buf st) n 0) = n" by (simp add: vec_resize_def)
  then have rd: "safe (read_source P (d_source st) off (vec_resize (copy_buf st) n 0)) (\<lambda>(s', buf', k). ready s' \<and> length buf' = n)"
    using read_safe [OF assms(1), of off "vec_resize (copy_buf st) n 0"] by simp
  show ?thesis
    unfolding source_copy_def safe_bind
    by (rule safe_mono [OF slice_safe [OF assms]])
      (use assms(1) in \<open>auto simp: sp split: option.splits intro!: safe_mono [OF rd]\<close>)
qed

end

interpretation safe_slice: safe_provider slice_provider "\<lambda>s. s = S" for S
proof unfold_locales
  fix s :: "byte list" and off :: u64 and n and buf
  show "s = S \<Longrightarrow> unat off + n < 2 ^ 64 \<Longrightarrow> safe (source_slice slice_provider s off n) (\<lambda>r. \<forall>bs. r = Some bs \<longrightarrow> length bs = n)"
    by (subgoal_tac "unat (off + of_nat n) = unat off + n")
      (auto simp: slice_provider_def slice_source_slice_def sp unat_add_no_wrap unat_of_nat_id)
  show "s = S \<Longrightarrow> safe (read_source slice_provider s off buf) (\<lambda>(s', buf', n). s' = S \<and> length buf' = length buf)"
    by (auto simp: slice_provider_def slice_read_source_def sp Let_def)
qed

interpretation safe_NoSource: safe_provider NoSource "\<lambda>s. True"
  by unfold_locales (simp_all add: NoSource_def sp)

section \<open>Executing a window\<close>

lemma of_nat_lt_12: "k < 12 \<Longrightarrow> (of_nat k :: byte) < 12"
  by (simp add: word_less_nat_alt unat_of_nat_id)

lemma table_types: "i < 256 \<Longrightarrow> type1 (table_entry i) < 12 \<and> type2 (table_entry i) < 12"
  using of_nat_lt_12 [of "3 + (i - 19) div 16"] of_nat_lt_12 [of "3 + (i - 163) div 12"]
    of_nat_lt_12 [of "9 + (i - 235) div 4"] of_nat_lt_12 [of "3 + (i - 247)"]
  by (auto simp: table_entry_def single_def double_def XD3_NOOP_def XD3_ADD_def XD3_RUN_def
      div_less_iff_less_mult simp del: of_nat_add of_nat_diff)

lemma copy_mode:
  assumes "t \<noteq> XD3_NOOP" "t \<noteq> XD3_ADD" "t \<noteq> XD3_RUN" "t < 12"
  shows "unat (t - XD3_CPY) < 9"
proof -
  have "unat t \<noteq> 0 \<and> unat t \<noteq> 1 \<and> unat t \<noteq> 2"
    using assms(1-3) by (auto simp: XD3_NOOP_def XD3_ADD_def XD3_RUN_def word_unat_eq_iff)
  then have "3 \<le> t" by (simp add: word_le_nat_alt)
  then show ?thesis using assms(4) by (simp add: XD3_CPY_def unat_sub_no_wrap word_less_nat_alt)
qed

text \<open>The state of the instruction loop, with \<open>base\<close> bytes of output before the window.\<close>

definition exec_ok :: "('p \<Rightarrow> bool) \<Rightarrow> Sections \<Rightarrow> nat \<Rightarrow> 'p DecodeState \<Rightarrow> bool" where
  "exec_ok ready secs base st \<longleftrightarrow> base \<le> length (d_output st)
     \<and> target_pos st = of_nat (length (d_output st) - base) \<and> default_cache (d_acache st)
     \<and> addr_pos st \<le> length (s_addr secs) \<and> inst_pos st \<le> length (s_inst secs) \<and> ready (d_source st)"

lemma push_from_safe: "t < length out \<Longrightarrow> returns (push_from n t out) (\<lambda>out'. \<exists>bs. length bs = n \<and> out' = out @ bs)"
proof (induction n arbitrary: t out)
  case (Suc n)
  from Suc.IH [of "Suc t" "out @ [out ! t]"] Suc.prems show ?case
    by (auto simp: returns_def)
qed (simp add: wp)

lemma target_copy_safe:
  assumes "t < length (d_output st)"
  shows "\<exists>bs. target_copy t n st = Ok (st\<lparr> d_output := d_output st @ bs \<rparr>) \<and> length bs = n"
proof (cases "t + n \<le> length (d_output st)")
  case False
  obtain bs where "length bs = n" "push_from n t (d_output st) = (Ok (d_output st @ bs) :: (_, DecodeError) res)"
    using push_from_safe [OF assms, of n, where 'a = DecodeError] by (auto simp: returns_def)
  then show ?thesis using False by (intro exI [of _ bs]) (simp add: target_copy_def)
qed (auto simp: target_copy_def intro!: exI [of _ "take n (drop t (d_output st))"])

lemma read_u32_safe: "safe (read_u32 bs) (\<lambda>(v, k). k \<le> length bs)"
  using read_u32_Ok [of bs] by (auto simp: safe_def read_u32_def read_u32_loop_eq)

lemma cache_decode_safe:
  assumes "default_cache c" "unat mode < 9"
  shows "safe (AddressCache_decode c mode bs here) (\<lambda>(c', addr, n). addr < here \<and> n \<le> length bs \<and> default_cache c')"
proof -
  have "mode_count c = 9" using assms(1) by (simp add: mode_count_def default_cache_def)
  then show ?thesis using decode_safe [OF assms(1), of mode bs here] assms(2) by (auto simp: safe_def)
qed

lemma resolve_size_safe:
  assumes "inst_pos st \<le> length inst"
  shows "safe (resolve_size inst k st) (\<lambda>(sz, st'). st' = st\<lparr> inst_pos := inst_pos st' \<rparr> \<and> inst_pos st' \<le> length inst)"
  using assms read_u32_safe [of "drop (inst_pos st) inst"]
  by (auto simp: resolve_size_def sp elim!: safe_mono)

text \<open>
  A decoded address lies below the current position, so what is not a source copy starts in the
  output of this window, even where the 64-bit position wraps.
\<close>

lemma target_offset:
  assumes "addr < l + of_nat k" "\<not> addr < (l :: u64)"
  shows "unat (addr - l) < k"
proof -
  have "unat addr < unat (l + of_nat k :: u64)" "unat l \<le> unat addr"
    using assms by (simp_all add: word_less_nat_alt)
  moreover have "unat (l + of_nat k :: u64) \<le> unat l + k"
    using take_bit_nat_less_eq_self [of 64 k] mod_less_eq_dividend [of "unat l + unat (of_nat k :: u64)" "2 ^ 64"]
    by (simp add: unat_word_ariths unat_of_nat)
  moreover have "unat (addr - l) = unat addr - unat l" using assms(2) by (simp add: unat_sub_no_wrap word_less_nat_alt word_le_nat_alt)
  ultimately show ?thesis by linarith
qed

lemma exec_data_safe:
  assumes "exec_ok ready secs base st"
  shows "safe (exec_run data sz st) (exec_ok ready secs base)" "safe (exec_add data sz st) (exec_ok ready secs base)"
proof -
  have grow: "target_pos st + ucast sz = of_nat (length (d_output st) + unat sz - base)"
    using assms by (simp add: exec_ok_def of_nat_diff algebra_simps)
  then show "safe (exec_run data sz st) (exec_ok ready secs base)" "safe (exec_add data sz st) (exec_ok ready secs base)"
    using assms by (auto simp: exec_run_def exec_add_def exec_ok_def sp Let_def)
qed

context safe_provider
begin

lemma exec_copy_safe:
  assumes ok: "exec_ok ready secs base st" and mode: "unat mode < 9"
    and seg: "unat cw_off + unat cw_len + 2 ^ 32 \<le> 2 ^ 64"
  shows "safe (exec_copy P (s_addr secs) cw_len cw_off base mode sz st) (exec_ok ready secs base)"
proof -
  let ?k = "length (d_output st) - base" and ?rest = "drop (addr_pos st) (s_addr secs)"
  have st: "base \<le> length (d_output st)" "target_pos st = of_nat ?k" "default_cache (d_acache st)"
      "addr_pos st \<le> length (s_addr secs)" "ready (d_source st)"
    using ok by (simp_all add: exec_ok_def)
  have grow: "target_pos st + ucast sz = of_nat (length (d_output st) + unat sz - base)"
    using st(1,2) by (simp add: of_nat_diff algebra_simps)
  have dec: "safe (AddressCache_decode (d_acache st) mode ?rest (cw_len + target_pos st))
      (\<lambda>(c, addr, n). addr < cw_len + of_nat ?k \<and> n \<le> length ?rest \<and> default_cache c)"
    using cache_decode_safe [OF st(3) mode, of ?rest "cw_len + target_pos st"] st(2) by simp
  have src: "safe (source_copy P (cw_off + addr) (unat sz) st')
      (\<lambda>st'. exec_ok ready secs base (st'\<lparr> target_pos := target_pos st' + ucast sz \<rparr>))"
    if "st' = st\<lparr> d_acache := c, addr_pos := addr_pos st + n \<rparr>" "addr < cw_len"
      "\<not> (addr < cw_len \<and> cw_len < addr + ucast sz)" "n \<le> length ?rest" "default_cache c" for st' c addr n
  proof -
    have lt: "unat addr < unat cw_len" using that(2) by (simp add: word_less_nat_alt)
    have "unat sz < 2 ^ 32" using unsigned_less [of sz] by simp
    then have no_wrap: "unat addr + unat sz < 2 ^ 64" "unat cw_off + unat addr < 2 ^ 64" using lt seg by linarith+
    have "unat (ucast sz :: u64) = unat sz" by (simp add: unsigned_ucast_eq)
    then have "unat (addr + ucast sz :: u64) = unat addr + unat sz" using no_wrap by (subst unat_add_no_wrap) simp_all
    then have "unat addr + unat sz \<le> unat cw_len" using that(2,3) by (simp add: word_less_nat_alt not_less)
    moreover have "unat (cw_off + addr) = unat cw_off + unat addr" using no_wrap by (subst unat_add_no_wrap) simp_all
    ultimately have "unat (cw_off + addr) + unat sz < 2 ^ 64" using seg by simp
    from source_copy_safe [OF _ this, of st'] st that grow ok show ?thesis
      by (auto simp: exec_ok_def elim!: safe_mono)
  qed
  have tgt: "safe (target_copy (base + unat (addr - cw_len)) (unat sz) st')
      (\<lambda>st'. exec_ok ready secs base (st'\<lparr> target_pos := target_pos st' + ucast sz \<rparr>))"
    if "st' = st\<lparr> d_acache := c, addr_pos := addr_pos st + n \<rparr>" "\<not> addr < cw_len"
      "addr < cw_len + of_nat ?k" "n \<le> length ?rest" "default_cache c" for st' c addr n
  proof -
    have "base + unat (addr - cw_len) < length (d_output st')"
      using target_offset [OF that(3,2)] st(1) that(1) by simp
    from target_copy_safe [OF this, of "unat sz"] st that grow ok show ?thesis by (auto simp: exec_ok_def sp)
  qed
  show ?thesis
    unfolding exec_copy_def Let_def safe_bind safe_slice_from safe_map_err
    by (intro conjI st(4), rule safe_mono [OF dec]) (auto simp: sp intro!: src tgt)
qed

lemma execute_half_safe:
  assumes "exec_ok ready secs base st" "unat cw_off + unat cw_len + 2 ^ 32 \<le> 2 ^ 64" "t \<noteq> XD3_NOOP" "t < 12"
  shows "safe (execute_half_instruction P secs cw_len cw_off base t n st) (exec_ok ready secs base)"
proof -
  have run: "safe (exec_sized P (s_data secs) (s_addr secs) cw_len cw_off base t sz st') (exec_ok ready secs base)"
    if "exec_ok ready secs base st'" for sz st'
    using exec_data_safe [OF that] exec_copy_safe [OF that _ assms(2)] copy_mode [OF assms(3) _ _ assms(4)]
    by (simp add: exec_sized_def)
  have "exec_ok ready secs base (st\<lparr> inst_pos := i \<rparr>)" if "i \<le> length (s_inst secs)" for i
    using assms(1) that by (simp add: exec_ok_def)
  then show ?thesis
    unfolding execute_half_instruction_def safe_bind
    by (intro safe_mono [OF resolve_size_safe]) (use assms(1) in \<open>auto simp: exec_ok_def [of _ _ _ st] intro!: run\<close>, metis)
qed

lemma decode_step_safe:
  assumes "exec_ok ready secs base st" "unat cw_off + unat cw_len + 2 ^ 32 \<le> 2 ^ 64" "inst_pos st < length (s_inst secs)"
  shows "safe (decode_step P secs cw_len cw_off base st) (exec_ok ready secs base)"
proof -
  let ?i = "unat (s_inst secs ! inst_pos st)"
  have i: "?i < 256" using byte_lt by blast
  have st: "exec_ok ready secs base (st\<lparr> inst_pos := inst_pos st + 1 \<rparr>)" using assms(1,3) by (simp add: exec_ok_def)
  note half = execute_half_safe [OF _ assms(2)]
  have "safe (if type1 (table_entry ?i) \<noteq> XD3_NOOP
      then execute_half_instruction P secs cw_len cw_off base (type1 (table_entry ?i)) (size1 (table_entry ?i))
        (st\<lparr> inst_pos := inst_pos st + 1 \<rparr>) else Ok (st\<lparr> inst_pos := inst_pos st + 1 \<rparr>)) (exec_ok ready secs base)"
    using half [OF st] table_types [OF i] st by (simp add: sp)
  from safe_mono [OF this] show ?thesis
    using assms(3) i st half table_types [OF i] unfolding decode_step_def by (auto simp: sp Let_def)
qed

lemma decode_insts_safe:
  assumes "unat cw_off + unat cw_len + 2 ^ 32 \<le> 2 ^ 64"
  shows "exec_ok ready secs base st \<Longrightarrow> safe (decode_insts P secs cw_len cw_off base st) (exec_ok ready secs base)"
proof (induction "length (s_inst secs) - inst_pos st" arbitrary: st rule: less_induct)
  case less
  show ?case
  proof (cases "inst_pos st < length (s_inst secs)")
    case True
    have rec: "safe (decode_insts P secs cw_len cw_off base st') (exec_ok ready secs base)"
      if "decode_step P secs cw_len cw_off base st = Ok st'" "exec_ok ready secs base st'" for st'
      by (rule less.hyps) (use that True decode_step_pos [OF that(1)] in simp_all)
    have "safe (decode_step P secs cw_len cw_off base st)
        (\<lambda>st'. safe (decode_insts P secs cw_len cw_off base st') (exec_ok ready secs base))"
      by (rule safe_mono [OF decode_step_safe [OF less.prems assms True]]) (rule rec)
    then show ?thesis using True by (subst decode_insts.simps) (simp add: sp)
  qed (use less.prems in \<open>subst decode_insts.simps, simp add: sp\<close>)
qed

text \<open>A window on any bytes: an error, or output of the declared length and checksum.\<close>

lemma decode_window_sound:
  assumes "unat (copy_window_offset h) + unat (copy_window_len h) + 2 ^ 32 \<le> 2 ^ 64" "ready src" "default_cache cache"
    and "length out + unat (target_window_len h) < 2 ^ 63"
  shows "safe (decode_window_with_cache adler P h secs src verify cbuf out cache)
    (\<lambda>st. ready (d_source st) \<and> default_cache (d_acache st) \<and> (\<exists>T. d_output st = out @ T
       \<and> of_nat (length T) = target_window_len h \<and> (verify \<longrightarrow> wh_adler32 h \<in> {None, Some (adler T)})))"
proof -
  let ?st = "\<lparr> inst_pos = 0, data_pos = 0, addr_pos = 0, d_acache = AddressCache_init cache,
      target_pos = 0, d_output = [], d_source = src, copy_buf = cbuf \<rparr>"
  have "exec_ok ready secs 0 ?st"
    using assms(2,3) by (simp add: exec_ok_def cache_init_eq_new)
  from decode_insts_safe [OF assms(1) this]
  have "safe (decode_window_with_cache adler P h secs src verify cbuf [] cache) (\<lambda>st. ready (d_source st)
      \<and> default_cache (d_acache st) \<and> of_nat (length (d_output st)) = target_window_len h
      \<and> (verify \<longrightarrow> wh_adler32 h \<in> {None, Some (adler (d_output st))}))"
    using assms(4) unfolding decode_window_with_cache_def Let_def
    by (auto simp: sp exec_ok_def vec_reserve_eq split: option.splits elim!: safe_mono)
  then show ?thesis
    using assms(4) by (subst decode_window_onto) (auto simp: sp elim!: safe_mono)
qed

end

section \<open>The stream loop\<close>

text \<open>What the next call reads first: the file header, once, and a window header.\<close>

definition next_header :: "StreamDecoder \<Rightarrow> (WindowHeader option, DecodeError) res" where
  "next_header sd = bindR (read_header sd) (\<lambda>sd. bindR (map_err Io (WindowHeader_decode (reader sd))) (\<lambda>(wh, r). Ok wh))"

definition header_fits :: "WindowHeader \<Rightarrow> bool" where
  "header_fits h \<longleftrightarrow> unat (data_len h) < 2 ^ 63 \<and> unat (inst_len h) < 2 ^ 63 \<and> unat (addr_len h) < 2 ^ 63
     \<and> unat (copy_window_offset h) + unat (copy_window_len h) + 2 ^ 32 \<le> 2 ^ 64"

text \<open>A header that asks for more than the address space, or more than is left of it behind the output.\<close>

definition crashing_header :: "StreamDecoder \<Rightarrow> byte list \<Rightarrow> bool" where
  "crashing_header sd out \<longleftrightarrow> (case next_header sd of
     Panic \<Rightarrow> True
   | Ok (Some h) \<Rightarrow> \<not> header_fits h \<or> 2 ^ 63 \<le> length out + unat (target_window_len h)
   | _ \<Rightarrow> False)"

lemma read_section_safe: "unat len < 2 ^ 63 \<Longrightarrow> safe (read_section r len) (\<lambda>_. True)"
  by (simp add: read_section_def sp) (simp add: safe_def read_exact_def)

lemma decompress_section_safe:
  "safe (backend_for_id cs sid) (\<lambda>B. \<forall>d. safe (decompress_section B d) (\<lambda>_. True))"
  by (auto simp: backend_for_id_def sp decompress_section_def LzmaBackend_def ZlibBackend_default_def
      ZlibBackend_new_def split: option.splits)

lemma select_sections_safe: "safe (select_sections cs sd del) (\<lambda>_. True)"
proof -
  have opt: "safe (if b then m else Ok x) (\<lambda>_. True)" if "safe m (\<lambda>_. True)" for b x and m :: "(byte list, DecodeError) res"
    using that by (simp add: sp)
  show ?thesis
    unfolding select_sections_eq safe_map_ok decompress_sections_def safe_if safe_bind
    by (auto simp: sp intro!: safe_mono [OF decompress_section_safe] opt elim!: safe_mono)
qed

context safe_provider
begin

definition stream_ok :: "StreamDecoder \<times> 'p \<times> byte list \<Rightarrow> bool" where
  "stream_ok s \<longleftrightarrow> (case s of (sd, src, out) \<Rightarrow> ready src \<and> default_cache (sd_acache sd))"

lemma stream_decode_window_safe:
  assumes "stream_ok (sd, src, out)" "\<not> crashing_header sd out"
  shows "safe (StreamDecoder_decode_window cs adler P sd src out) (\<lambda>(more, sd', src', out'). stream_ok (sd', src', out'))"
proof -
  define fits where "fits wh \<longleftrightarrow> header_fits wh \<and> length out + unat (target_window_len wh) < 2 ^ 63" for wh
  have hdr: "safe (read_header sd) (\<lambda>sd1. sd_acache sd1 = sd_acache sd \<and> safe (WindowHeader_decode (reader sd1))
      (\<lambda>(h, r). \<forall>wh. h = Some wh \<longrightarrow> fits wh))"
  proof -
    have "read_header sd \<noteq> Panic" using assms(2) by (auto simp: crashing_header_def next_header_def)
    moreover have "sd_acache sd1 = sd_acache sd" if "read_header sd = Ok sd1" for sd1
      using that by (auto simp: read_header_def bindR_eq_Ok split: if_splits)
    moreover have "fits wh" if "read_header sd = Ok sd1" "WindowHeader_decode (reader sd1) = Ok (Some wh, r)" for sd1 wh r
      using assms(2) that by (simp add: crashing_header_def next_header_def fits_def)
    ultimately show ?thesis using WindowHeader_decode_not_Panic by (auto simp: safe_def)
  qed
  have win: "safe (decode_window_with_cache adler P wh secs src verify cbuf out (sd_acache sd))
      (\<lambda>st. ready (d_source st) \<and> default_cache (d_acache st))" if "fits wh" for wh secs verify cbuf
    by (rule safe_mono [OF decode_window_sound]) (use that assms(1) in \<open>auto simp: fits_def header_fits_def stream_ok_def\<close>)
  have secs: "safe (read_section r (data_len wh)) (\<lambda>_. True)" "safe (read_section r (inst_len wh)) (\<lambda>_. True)"
      "safe (read_section r (addr_len wh)) (\<lambda>_. True)" if "fits wh" for r wh
    using that by (simp_all add: fits_def header_fits_def read_section_safe)
  show ?thesis
    unfolding StreamDecoder_decode_window_def safe_bind [of "read_header sd"]
    by (rule safe_mono [OF hdr])
      (use assms(1) in \<open>auto simp: sp Let_def stream_ok_def split: option.splits elim!: safe_mono
        intro!: safe_mono [OF secs(1)] safe_mono [OF secs(2)] safe_mono [OF secs(3)] safe_mono [OF select_sections_safe] safe_mono [OF win]\<close>)
qed

lemma panic_reachable:
  "stream_ok (sd, src, out) \<Longrightarrow> decode_all cs adler P sd src out = Panic \<Longrightarrow>
    \<exists>sd' src' out'. decodes cs adler P (sd, src, out) (sd', src', out') \<and> crashing_header sd' out'"
proof (induction "(sd_file_header sd = None, length (reader sd))" arbitrary: sd src out
    rule: wf_induct_rule [OF wf_measures [of "[\<lambda>(b, n). if b then 1 else 0, \<lambda>(b, n). n]"]])
  case 1
  show ?case
  proof (cases "crashing_header sd out")
    case True
    then show ?thesis using decodes.start by blast
  next
    case False
    note safe = stream_decode_window_safe [OF 1(2) False, of cs adler]
    with 1(3) obtain sd1 src1 out1 where
      step: "StreamDecoder_decode_window cs adler P sd src out = Ok (True, sd1, src1, out1)"
      and rest: "decode_all cs adler P sd1 src1 out1 = Panic"
      by (subst (asm) decode_all.simps) (auto simp: bindR_eq_Panic safe_def split: if_splits)
    have ok: "stream_ok (sd1, src1, out1)" using safeD(1) [OF safe step] by simp
    have "\<exists>sd' src' out'. decodes cs adler P (sd1, src1, out1) (sd', src', out') \<and> crashing_header sd' out'"
      by (rule 1(1) [OF _ ok rest]) (use decode_window_shorter [OF step] in auto)
    then show ?thesis using decodes.window [OF step] by blast
  qed
qed

end

section \<open>The address cache between windows\<close>

lemma source_copy_cache: "source_copy P off n st = Ok st' \<Longrightarrow> d_acache st' = d_acache st"
  by (auto simp: source_copy_def bindR_eq_Ok split: option.splits if_splits)

lemma target_copy_cache: "target_copy t n st = Ok st' \<Longrightarrow> d_acache st' = d_acache st"
  by (auto simp: target_copy_def bindR_eq_Ok split: if_splits)

lemma exec_copy_cache:
  assumes "exec_copy P addr cw off b mode sz st = Ok st'" "unat mode < 9" "default_cache (d_acache st)"
  shows "default_cache (d_acache st')"
proof -
  from assms(1) obtain rest c a k where c: "AddressCache_decode (d_acache st) mode rest (cw + target_pos st) = Ok (c, a, k)"
    "d_acache st' = c"
    by (auto simp: exec_copy_def bindR_eq_Ok Let_def split: if_splits dest!: source_copy_cache target_copy_cache)
  from safeD(1) [OF cache_decode_safe [OF assms(3,2)] c(1)] c(2) show ?thesis by simp
qed

lemma execute_half_cache:
  assumes "execute_half_instruction P secs cw off b t s st = Ok st'" "t < 12" "t \<noteq> XD3_NOOP" "default_cache (d_acache st)"
  shows "default_cache (d_acache st')"
proof -
  from assms(1) obtain sz st1 where 1: "resolve_size (s_inst secs) s st = Ok (sz, st1)"
    "exec_sized P (s_data secs) (s_addr secs) cw off b t sz st1 = Ok st'"
    by (auto simp: execute_half_instruction_def bindR_eq_Ok)
  have "d_acache st1 = d_acache st" using 1(1) by (auto simp: resolve_size_def bindR_eq_Ok split: if_splits)
  then show ?thesis
    using 1(2) assms(2-) copy_mode [of t]
    by (auto simp: exec_sized_def exec_run_def exec_add_def bindR_eq_Ok Let_def split: if_splits intro: exec_copy_cache)
qed

lemma decode_step_cache:
  assumes "decode_step P secs cw off b st = Ok st'" "default_cache (d_acache st)"
  shows "default_cache (d_acache st')"
proof -
  define e where "e = table_entry (unat (s_inst secs ! inst_pos st))"
  from assms(1) obtain st1 where "if type1 e = XD3_NOOP then st1 = st\<lparr> inst_pos := inst_pos st + 1 \<rparr>
        else execute_half_instruction P secs cw off b (type1 e) (size1 e) (st\<lparr> inst_pos := inst_pos st + 1 \<rparr>) = Ok st1"
      "if type2 e = XD3_NOOP then st' = st1
        else execute_half_instruction P secs cw off b (type2 e) (size2 e) st1 = Ok st'"
    by (auto simp: decode_step_def bindR_eq_Ok index_at_def e_def Let_def split: if_splits)
  moreover have "type1 e < 12" "type2 e < 12" using table_types [of "unat (s_inst secs ! inst_pos st)"] by (simp_all add: e_def)
  ultimately show ?thesis
    using assms(2) execute_half_cache [of P secs cw off b "type1 e" "size1 e" _ st1]
      execute_half_cache [of P secs cw off b "type2 e" "size2 e" st1 st'] by (auto split: if_splits)
qed

lemma decode_insts_cache:
  "decode_insts P secs cw off b st = Ok st' \<Longrightarrow> default_cache (d_acache st) \<Longrightarrow> default_cache (d_acache st')"
proof (induction P secs cw off b st rule: decode_insts.induct)
  case (1 P secs cw off b st)
  then show ?case
    by (auto simp: decode_insts.simps [of P secs cw off b st] bindR_eq_Ok split: if_splits dest: decode_step_cache)
qed

lemma decode_window_cache:
  assumes "decode_window_with_cache adler P h secs src verify cbuf out cache = Ok st" "default_cache cache"
  shows "default_cache (d_acache st)"
proof -
  from assms(1) have "decode_insts P secs (copy_window_len h) (copy_window_offset h) (length out)
      \<lparr> inst_pos = 0, data_pos = 0, addr_pos = 0, d_acache = AddressCache_init cache, target_pos = 0,
        d_output = out, d_source = src, copy_buf = cbuf \<rparr> = Ok st"
    by (auto simp: decode_window_with_cache_def bindR_eq_Ok Let_def split: if_splits option.splits)
  from decode_insts_cache [OF this] show ?thesis using assms(2) by (simp add: cache_init_eq_new)
qed

section \<open>How much a stream can decode to\<close>

lemma FileHeader_decode_shorter: "FileHeader_decode r = Ok (h, r') \<Longrightarrow> length r' \<le> length r"
  by (auto simp: FileHeader_decode_def bindR_eq_Ok Let_def read_exact_def stream_read_usize_def
      dest!: stream_read_u64_shorter split: if_splits list.splits)

lemma decode_window_length:
  assumes "decode_window_with_cache adler P h secs src verify cbuf [] cache = Ok st"
  shows "of_nat (length (d_output st)) = target_window_len h"
  using assms by (auto simp: decode_window_with_cache_def bindR_eq_Ok Let_def split: if_splits option.splits)

lemma decode_window_consumes:
  assumes "StreamDecoder_decode_window cs adler P sd src out = Ok (True, sd', src', out')"
  shows "length (reader sd') < length (reader sd) \<and> (\<exists>T. out' = out @ T \<and> unat (of_nat (length T) :: u64) \<le> 2 ^ 24)"
proof -
  from assms obtain T where T: "out' = out @ T" "StreamDecoder_decode_window cs adler P sd src [] = Ok (True, sd', src', T)"
    using stream_decode_window_alone [OF assms] by blast
  from T(2) obtain sd1 wh r1 where 1: "read_header sd = Ok sd1" "WindowHeader_decode (reader sd1) = Ok (Some wh, r1)"
    "length (reader sd') \<le> length r1" "of_nat (length T) = target_window_len wh"
    by (auto simp: StreamDecoder_decode_window_def bindR_eq_Ok Let_def split: option.splits
        dest!: read_section_Ok decode_window_length)
  have "length (reader sd1) \<le> length (reader sd)"
    using 1(1) by (auto simp: read_header_def bindR_eq_Ok split: if_splits dest!: FileHeader_decode_shorter)
  moreover have "window_header_ok wh" "length r1 < length (reader sd1)" using WindowHeader_decode_Ok [OF 1(2)] by auto
  moreover have "unat (target_window_len wh) \<le> 2 ^ 24" if "target_window_len wh \<le> HARD_MAX_WINSIZE"
    using that by (simp add: word_le_nat_alt HARD_MAX_WINSIZE_def)
  ultimately show ?thesis using 1(3,4) T(1) by (auto simp: window_header_ok_def)
qed

lemma decode_all_bound:
  "decode_all cs adler P sd src out = Ok (sd', src', out') \<Longrightarrow> length out \<le> length out'
    \<and> (length out' < 2 ^ 63 \<longrightarrow> length out' \<le> length out + 2 ^ 24 * length (reader sd))"
proof (induction cs adler P sd src out rule: decode_all.induct)
  case (1 cs adler P sd src out)
  from 1(2) obtain more sd1 src1 out1 where
    step: "StreamDecoder_decode_window cs adler P sd src out = Ok (more, sd1, src1, out1)"
    and rest: "if more then decode_all cs adler P sd1 src1 out1 = Ok (sd', src', out') else out' = out1"
    by (subst (asm) decode_all.simps) (auto simp: bindR_eq_Ok split: if_splits)
  show ?case
  proof (cases more)
    case True
    from rest True have all: "decode_all cs adler P sd1 src1 out1 = Ok (sd', src', out')" by simp
    note IH = 1(1) [OF step refl refl refl True all]
    from decode_window_consumes [OF step [unfolded eqTrueI [OF True]]] obtain T where T: "out1 = out @ T"
      "unat (of_nat (length T) :: u64) \<le> 2 ^ 24" "length (reader sd1) < length (reader sd)" by blast
    have "length T \<le> 2 ^ 24" if "length out' < 2 ^ 63" using that IH T(1,2) by (simp add: unat_of_nat)
    then show ?thesis using IH T(1,3) by auto
  next
    case False
    then show ?thesis using decode_window_end rest step by fastforce
  qed
qed

section \<open>Properties\<close>

text \<open>
  C6: The window decoder is safe on any sections, even hostile ones, for any header whose copy
  window ends at least \<open>2 ^ 32\<close> below \<open>2 ^ 64\<close>. It panics only if the window that the header declares
  does not fit in the address space behind the output, that is, when both together have \<open>2 ^ 63\<close>
  bytes or more. If it accepts, the source is unchanged and the output has grown by exactly the
  declared number of bytes, with the declared checksum when checksums are verified.
\<close>

theorem decode_window_safe:
  assumes "unat (copy_window_offset h) + unat (copy_window_len h) + 2 ^ 32 \<le> 2 ^ 64" "default_cache cache"
  shows "case decode_window_with_cache adler slice_provider h secs src verify cbuf out cache of
      Panic \<Rightarrow> 2 ^ 63 \<le> length out + unat (target_window_len h)
    | Err e \<Rightarrow> True
    | Ok st \<Rightarrow> d_source st = src \<and> default_cache (d_acache st) \<and> (\<exists>T. d_output st = out @ T
        \<and> of_nat (length T) = target_window_len h \<and> (verify \<longrightarrow> wh_adler32 h \<in> {None, Some (adler T)}))"
proof (cases "length out + unat (target_window_len h) < 2 ^ 63")
  case True
  with safe_slice.decode_window_sound [OF assms(1) refl assms(2) True, of adler secs src verify cbuf] show ?thesis
    by (auto simp: safe_def split: res.splits)
qed (simp add: decode_window_with_cache_def vec_reserve_eq)

theorem decode_window_safe_witness:
  "case decode_window_with_cache adler32_simple slice_provider
      \<lparr> win_ind = 0, copy_window_len = 0, copy_window_offset = 0, enc_len = 9, target_window_len = 3,
        del_ind = 0, data_len = 3, inst_len = 1, addr_len = 0, wh_adler32 = Some 851975 \<rparr>
      \<lparr> s_data = [1, 2, 3], s_inst = [4], s_addr = [] \<rparr> [7] True [] [5] AddressCache_new of
      Panic \<Rightarrow> False
    | Err e \<Rightarrow> True
    | Ok st \<Rightarrow> d_source st = [7] \<and> default_cache (d_acache st) \<and> (\<exists>T. d_output st = [5] @ T
        \<and> of_nat (length T) = (3 :: u64) \<and> (True \<longrightarrow> Some 851975 \<in> {None, Some (adler32_simple T)}))"
  using decode_window_safe [where h = "\<lparr> win_ind = 0, copy_window_len = 0, copy_window_offset = 0, enc_len = 9,
        target_window_len = 3, del_ind = 0, data_len = 3, inst_len = 1, addr_len = 0, wh_adler32 = Some 851975 \<rparr>"
      and cache = AddressCache_new and adler = adler32_simple and src = "[7]" and verify = True
      and secs = "\<lparr> s_data = [1, 2, 3], s_inst = [4], s_addr = [] \<rparr>" and cbuf = "[]" and out = "[5]"] by (simp cong: res.case_cong)

text \<open>
  C7: Decoding a delta in memory panics only because of a header. If \<open>decode_memory\<close> panics on any
  bytes at all, then after some number of windows decoded without a panic the decoder stands before
  a header that asks for more than the address space: an application header or a section of
  \<open>2 ^ 63\<close> bytes or more, a copy window that ends within \<open>2 ^ 32\<close> of \<open>2 ^ 64\<close>, or a window that with
  the output before it has \<open>2 ^ 63\<close> bytes or more.
\<close>

theorem decode_memory_panics_only_on_header:
  assumes "decode_memory cs adler delta source = Panic"
  shows "\<exists>sd src out. decodes cs adler slice_provider (StreamDecoder_new delta True, source, []) (sd, src, out)
    \<and> crashing_header sd out"
  using assms
  by (intro safe_slice.panic_reachable [of source])
    (auto simp: decode_memory_def bindR_eq_Panic safe_slice.stream_ok_def StreamDecoder_new_def)

theorem decode_memory_panics_only_on_header_witness:
  "decode_memory pair_codecs adler32_simple (VCDIFF_MAGIC @ [VCD_APPHEADER] @ vint (2 ^ 63)) [1, 2, 3] = Panic
    \<and> (\<exists>sd src out. decodes pair_codecs adler32_simple slice_provider
         (StreamDecoder_new (VCDIFF_MAGIC @ [VCD_APPHEADER] @ vint (2 ^ 63)) True, [1, 2, 3], []) (sd, src, out) \<and> crashing_header sd out)"
proof -
  define d where "d = VCDIFF_MAGIC @ [VCD_APPHEADER] @ vint (2 ^ 63)"
  have "FileHeader_decode d = Panic" unfolding d_def by (rule file_header_decode_panics)
  then have "decode_memory pair_codecs adler32_simple d [1, 2, 3] = Panic"
    by (subst decode_memory_def, subst decode_all.simps)
      (simp add: StreamDecoder_decode_window_def read_header_def StreamDecoder_new_def)
  with decode_memory_panics_only_on_header [OF this] show ?thesis unfolding d_def by blast
qed

text \<open>
  C18: A delta decodes to at most \<open>2 ^ 24\<close> bytes per byte of the delta. Output of \<open>2 ^ 63\<close> bytes or
  more cannot exist in memory.
\<close>

theorem decode_memory_bounded:
  assumes "decode_memory cs adler delta source = Ok target" "length target < 2 ^ 63"
  shows "length target \<le> 2 ^ 24 * length delta"
  using assms by (auto simp: decode_memory_def bindR_eq_Ok StreamDecoder_new_def dest!: decode_all_bound)

theorem decode_memory_bounded_witness:
  "decode_memory pair_codecs adler32_simple (VCDIFF_MAGIC @ [0, 0, 9, 3, 0, 3, 1, 0, 1, 2, 3, 4]) [] = Ok [1, 2, 3]
    \<and> length [1, 2, 3 :: byte] \<le> 2 ^ 24 * length (VCDIFF_MAGIC @ [0, 0, 9, 3, 0, 3, 1, 0, 1, 2, 3, 4])"
proof -
  have 1: "decode_memory pair_codecs adler32_simple (VCDIFF_MAGIC @ [0, 0, 9, 3, 0, 3, 1, 0, 1, 2, 3, 4]) [] = Ok [1, 2, 3]"
    by code_simp
  then show ?thesis using decode_memory_bounded [OF 1] by simp
qed

text \<open>
  The condition on the copy window is needed: at an offset of \<open>2 ^ 64 - 1\<close> the end of the requested
  slice wraps to 0, passes the test against the length, and slicing panics.
\<close>

theorem source_slice_wraps: "source_slice slice_provider src (- 1) 1 = Panic"
  by (simp add: slice_provider_def slice_source_slice_def slice_range_def unat_gt_0)

end
