(* ===== verification/Inst_Iterator.thy ===== *)
theory Inst_Iterator
  imports Decoder_Safety
begin

text \<open>
  The instruction iterator of \<open>src/src/vcdiff/decoder.rs\<close>, which lists the instructions of a window
  without executing them. An item of the iterator is a \<open>Result\<close> (\<open>Inl\<close> an error, \<open>Inr\<close> an
  instruction) and the iterator goes on after an error, so \<open>resolve_half\<close> and \<open>iter_next\<close> return the
  updated iterator in both cases. The lemmas compare the listed instructions with what the window
  decoder executes.
\<close>

section \<open>Definitions\<close>

record InstructionIterator =
  it_inst_data :: "byte list"
  it_addr_data :: "byte list"
  it_inst_pos :: nat
  it_addr_pos :: nat
  it_acache :: AddressCache
  it_copy_window_len :: u64
  it_target_pos :: u64
  pending_second :: "(byte \<times> byte) option"

definition InstructionIterator_new :: "byte list \<Rightarrow> byte list \<Rightarrow> u64 \<Rightarrow> InstructionIterator" where
  "InstructionIterator_new inst_sec addr_sec cw_len =
     \<lparr> it_inst_data = inst_sec, it_addr_data = addr_sec, it_inst_pos = 0, it_addr_pos = 0,
       it_acache = AddressCache_new, it_copy_window_len = cw_len, it_target_pos = 0,
       pending_second = None \<rparr>"

definition iter_size :: "byte \<Rightarrow> InstructionIterator \<Rightarrow> ((DecodeError + u32) \<times> InstructionIterator, DecodeError) res" where
  "iter_size table_size it =
     (if table_size = 0 then
        bindR (slice_from (it_inst_data it) (it_inst_pos it)) (\<lambda>rest.
        case read_u32 rest of
          Ok (val, consumed) \<Rightarrow> Ok (Inr val, it\<lparr> it_inst_pos := it_inst_pos it + consumed \<rparr>)
        | Err e \<Rightarrow> Ok (Inl (InvalidInput ''size varint''), it)
        | Panic \<Rightarrow> Panic)
      else Ok (Inr (ucast table_size), it))"

definition iter_copy :: "byte \<Rightarrow> u32 \<Rightarrow> InstructionIterator
    \<Rightarrow> ((DecodeError + Instruction) \<times> InstructionIterator, DecodeError) res" where
  "iter_copy t sz it =
     (let mode = t - XD3_CPY; here = it_copy_window_len it + it_target_pos it in
      bindR (slice_from (it_addr_data it) (it_addr_pos it)) (\<lambda>rest.
      case AddressCache_decode (it_acache it) mode rest here of
        Ok (c, addr, consumed) \<Rightarrow>
          Ok (Inr (Copy sz addr mode), it\<lparr> it_acache := c, it_addr_pos := it_addr_pos it + consumed \<rparr>)
      | Err e \<Rightarrow> Ok (Inl (InvalidInput ''address''), it)
      | Panic \<Rightarrow> Panic))"

definition resolve_half :: "byte \<Rightarrow> byte \<Rightarrow> InstructionIterator
    \<Rightarrow> ((DecodeError + Instruction option) \<times> InstructionIterator, DecodeError) res" where
  "resolve_half t table_size it =
     (if t = XD3_NOOP then Ok (Inr None, it)
      else
      bindR (iter_size table_size it) (\<lambda>(size, it). case size of
        Inl e \<Rightarrow> Ok (Inl e, it)
      | Inr sz \<Rightarrow>
      bindR (if t = XD3_RUN then Ok (Inr (Run sz), it)
             else if t = XD3_ADD then Ok (Inr (Add sz), it)
             else iter_copy t sz it) (\<lambda>(inst, it). case inst of
        Inl e \<Rightarrow> Ok (Inl e, it)
      | Inr inst \<Rightarrow> Ok (Inr (Some inst), it\<lparr> it_target_pos := it_target_pos it + ucast sz \<rparr>))))"

text \<open>What bounds the iteration: two items per opcode left, and the pending half.\<close>

definition iter_left :: "InstructionIterator \<Rightarrow> nat" where
  "iter_left it = 2 * (length (it_inst_data it) - it_inst_pos it) + (if pending_second it = None then 0 else 1)"

lemma resolve_half_NOOP [simp]: "resolve_half XD3_NOOP s it = Ok (Inr None, it)"
  by (simp add: resolve_half_def)

definition iter_ahead :: "InstructionIterator \<Rightarrow> InstructionIterator \<Rightarrow> bool" where
  "iter_ahead it it' \<longleftrightarrow> it_inst_data it' = it_inst_data it \<and> it_addr_data it' = it_addr_data it
     \<and> it_copy_window_len it' = it_copy_window_len it \<and> pending_second it' = pending_second it
     \<and> it_inst_pos it \<le> it_inst_pos it'"

lemma iter_size_ahead: "iter_size s it = Ok (r, it') \<Longrightarrow> iter_ahead it it'"
  by (cases "read_u32 (drop (it_inst_pos it) (it_inst_data it))")
    (auto simp: iter_size_def iter_ahead_def slice_from_def split: if_splits)

lemma iter_copy_ahead: "iter_copy t sz it = Ok (r, it') \<Longrightarrow> iter_ahead it it'"
  by (cases "AddressCache_decode (it_acache it) (t - XD3_CPY) (drop (it_addr_pos it) (it_addr_data it))
        (it_copy_window_len it + it_target_pos it)")
    (auto simp: iter_copy_def iter_ahead_def slice_from_def Let_def split: if_splits)

lemma iter_ahead_target_pos [simp]: "iter_ahead it (it1\<lparr> it_target_pos := p \<rparr>) = iter_ahead it it1"
  by (simp add: iter_ahead_def)

lemma iter_ahead_refl [simp]: "iter_ahead it it"
  by (simp add: iter_ahead_def)

lemma resolve_half_ahead:
  assumes "resolve_half t s it = Ok (r, it')"
  shows "iter_ahead it it'"
proof (cases "t = XD3_NOOP")
  case False
  with assms obtain size it1 where 1: "iter_size s it = Ok (size, it1)"
    by (auto simp: resolve_half_def bindR_eq_Ok)
  show ?thesis
  proof (cases size)
    case (Inr sz)
    show ?thesis
      using assms False iter_size_ahead [OF 1] iter_copy_ahead [of t sz it1] 1 Inr
      by (cases "iter_copy t sz it1") (auto simp: resolve_half_def iter_ahead_def split: if_splits sum.splits)
  qed (use assms False 1 iter_size_ahead [OF 1] in \<open>simp add: resolve_half_def\<close>)
qed (use assms in simp)

text \<open>
  The half instruction \<open>next\<close> resolves: the pending second half, or the first half of the next
  opcode, whose second half becomes pending. \<open>None\<close> at the end of the section.
\<close>

definition iter_half :: "InstructionIterator
    \<Rightarrow> (((DecodeError + Instruction option) \<times> InstructionIterator) option, DecodeError) res" where
  "iter_half it =
     (case pending_second it of
        Some (t2, s2) \<Rightarrow> map_ok Some (resolve_half t2 s2 (it\<lparr> pending_second := None \<rparr>))
      | None \<Rightarrow>
     if length (it_inst_data it) \<le> it_inst_pos it then Ok None
     else
       bindR (index_at (it_inst_data it) (it_inst_pos it)) (\<lambda>opcode.
       let it = it\<lparr> it_inst_pos := it_inst_pos it + 1 \<rparr> in
       bindR (index_at default_code_table (unat opcode)) (\<lambda>entry.
       let it = (if type2 entry \<noteq> XD3_NOOP then it\<lparr> pending_second := Some (type2 entry, size2 entry) \<rparr> else it) in
       map_ok Some (resolve_half (type1 entry) (size1 entry) it))))"

lemma iter_half_left: "iter_half it = Ok (Some (r, it')) \<Longrightarrow> iter_left it' < iter_left it"
  by (auto simp: iter_half_def bindR_eq_Ok map_ok_eq_Ok Let_def iter_left_def iter_ahead_def less_Suc_eq_le diff_le_mono2 split: option.splits if_splits
      dest!: resolve_half_ahead)

function iter_next :: "InstructionIterator
    \<Rightarrow> ((DecodeError + Instruction) option \<times> InstructionIterator, DecodeError) res" where
  "iter_next it =
     bindR (iter_half it) (\<lambda>half. case half of
       None \<Rightarrow> Ok (None, it)
     | Some (Inr (Some inst), it) \<Rightarrow> Ok (Some (Inr inst), it)
     | Some (Inr None, it) \<Rightarrow> iter_next it
     | Some (Inl e, it) \<Rightarrow> Ok (Some (Inl e), it))"
  by pat_completeness auto
termination by (relation "measure iter_left") (auto dest!: iter_half_left)

declare iter_next.simps [simp del]

lemma iter_next_left: "iter_next it = Ok (Some x, it') \<Longrightarrow> iter_left it' < iter_left it"
proof (induction it rule: iter_next.induct)
  case (1 it)
  from 1(2) obtain half where half: "iter_half it = Ok half" by (subst (asm) iter_next.simps) (auto simp: bindR_eq_Ok)
  with 1(2) obtain r it1 where r: "half = Some (r, it1)"
    by (subst (asm) iter_next.simps) (auto split: option.splits)
  have lt: "iter_left it1 < iter_left it" using half r by (auto dest: iter_half_left)
  show ?case
  proof (cases "r = Inr None")
    case True
    then have "iter_next it1 = Ok (Some x, it')" using 1(2) half r by (simp add: iter_next.simps [of it])
    from 1(1) [OF half r refl True refl this] lt show ?thesis by simp
  next
    case False
    then show ?thesis using 1(2) half r lt by (auto simp: iter_next.simps [of it] split: sum.splits option.splits)
  qed
qed

text \<open>All items, as a \<open>for\<close> loop over the iterator sees them.\<close>

function iter_all :: "InstructionIterator \<Rightarrow> ((DecodeError + Instruction) list, DecodeError) res" where
  "iter_all it =
     (case iter_next it of
        Ok (Some item, it) \<Rightarrow> map_ok ((#) item) (iter_all it)
      | Ok (None, it) \<Rightarrow> Ok []
      | Err e \<Rightarrow> Err e
      | Panic \<Rightarrow> Panic)"
  by pat_completeness auto
termination by (relation "measure iter_left") (auto dest!: iter_next_left)

declare iter_all.simps [simp del]

lemma iter_all_half:
  "iter_half it = Ok None \<Longrightarrow> iter_all it = Ok []"
  "iter_half it = Ok (Some (Inr None, it')) \<Longrightarrow> iter_all it = iter_all it'"
  "iter_half it = Ok (Some (Inr (Some i), it')) \<Longrightarrow> iter_all it = map_ok ((#) (Inr i)) (iter_all it')"
  by (simp_all add: iter_all.simps [of it] iter_all.simps [of it'] iter_next.simps [of it])

section \<open>Listed instructions and executed instructions\<close>

text \<open>
  The instructions the window decoder executes, read off its own run: the instruction a half of an
  opcode amounts to in the state in which the decoder executes it, the address of a COPY from the
  decoder's cache and position and its mode from the code table, and so on along the loop.
\<close>

definition half_trace :: "Sections \<Rightarrow> u64 \<Rightarrow> byte \<Rightarrow> byte \<Rightarrow> 'p DecodeState \<Rightarrow> Instruction list" where
  "half_trace secs cw t s st =
     (if t = XD3_NOOP then []
      else case resolve_size (s_inst secs) s st of
        Ok (sz, st) \<Rightarrow>
          if t = XD3_RUN then [Run sz]
          else if t = XD3_ADD then [Add sz]
          else (case AddressCache_decode (d_acache st) (t - XD3_CPY) (drop (addr_pos st) (s_addr secs)) (cw + target_pos st) of
                  Ok (c, addr, k) \<Rightarrow> [Copy sz addr (t - XD3_CPY)]
                | _ \<Rightarrow> [])
      | _ \<Rightarrow> [])"

definition step_trace :: "'p SourceProvider \<Rightarrow> Sections \<Rightarrow> u64 \<Rightarrow> u64 \<Rightarrow> nat \<Rightarrow> 'p DecodeState \<Rightarrow> Instruction list" where
  "step_trace P secs cw off base st =
     (let e = table_entry (unat (s_inst secs ! inst_pos st)); st = st\<lparr> inst_pos := inst_pos st + 1 \<rparr> in
      half_trace secs cw (type1 e) (size1 e) st
      @ (case (if type1 e = XD3_NOOP then Ok st else execute_half_instruction P secs cw off base (type1 e) (size1 e) st) of
           Ok st \<Rightarrow> half_trace secs cw (type2 e) (size2 e) st
         | _ \<Rightarrow> []))"

function exec_trace :: "'p SourceProvider \<Rightarrow> Sections \<Rightarrow> u64 \<Rightarrow> u64 \<Rightarrow> nat \<Rightarrow> 'p DecodeState \<Rightarrow> Instruction list" where
  "exec_trace P secs cw off base st =
     (if inst_pos st < length (s_inst secs)
      then step_trace P secs cw off base st
        @ (case decode_step P secs cw off base st of Ok st \<Rightarrow> exec_trace P secs cw off base st | _ \<Rightarrow> [])
      else [])"
  by pat_completeness auto
termination
  by (relation "measure (\<lambda>(P, secs, l, off, b, st). length (s_inst secs) - inst_pos st)")
    (auto dest!: decode_step_pos)

declare exec_trace.simps [simp del]

definition window_trace :: "'p SourceProvider \<Rightarrow> WindowHeader \<Rightarrow> Sections \<Rightarrow> 'p \<Rightarrow> byte list \<Rightarrow> byte list \<Rightarrow> AddressCache \<Rightarrow> Instruction list" where
  "window_trace P h secs source cbuf output cache =
     exec_trace P secs (copy_window_len h) (copy_window_offset h) (length output)
       \<lparr> inst_pos = 0, data_pos = 0, addr_pos = 0, d_acache = AddressCache_init cache,
         target_pos = 0, d_output = output, d_source = source, copy_buf = cbuf \<rparr>"

text \<open>The output before the window plays no part in it.\<close>

lemma half_trace_onto: "half_trace secs cw t s (onto b st) = half_trace secs cw t s st"
  by (cases "resolve_size (s_inst secs) s st") (auto simp: half_trace_def resolve_size_onto)

lemma step_trace_onto: "step_trace P secs cw off (length b + k) (onto b st) = step_trace P secs cw off k st"
  by (auto simp: step_trace_def Let_def half_trace_onto execute_half_onto split: res.split)

lemma exec_trace_onto: "exec_trace P secs cw off (length b + k) (onto b st) = exec_trace P secs cw off k st"
proof (induction P secs cw off k st rule: exec_trace.induct)
  case (1 P secs cw off k st)
  then show ?case
    by (cases "decode_step P secs cw off k st")
      (simp_all add: exec_trace.simps [of P secs cw off _ "onto b st"] exec_trace.simps [of P secs cw off k st]
        step_trace_onto decode_step_onto)
qed

lemma window_trace_onto: "window_trace P h secs src cbuf out cache = window_trace P h secs src cbuf [] cache"
  using exec_trace_onto [of P secs "copy_window_len h" "copy_window_offset h" out 0
      "\<lparr> inst_pos = 0, data_pos = 0, addr_pos = 0, d_acache = AddressCache_init cache,
         target_pos = 0, d_output = [], d_source = src, copy_buf = cbuf \<rparr>"]
  by (simp add: window_trace_def onto_def)

text \<open>
  What an instruction means, given the source, the copy window and the data section: a position in
  the data section and the output so far, before and after. \<open>None\<close> when an operand is missing.
\<close>

fun replay :: "byte list \<Rightarrow> u64 \<Rightarrow> u64 \<Rightarrow> byte list \<Rightarrow> Instruction \<Rightarrow> nat \<times> byte list \<Rightarrow> (nat \<times> byte list) option" where
  "replay B cw off data (Run n) (p, out) =
     (if p < length data then Some (p + 1, out @ replicate (unat n) (data ! p)) else None)"
| "replay B cw off data (Add n) (p, out) =
     (if p + unat n \<le> length data then Some (p + unat n, out @ take (unat n) (drop p data)) else None)"
| "replay B cw off data (Copy n a m) (p, out) =
     (if a < cw then
        if a + ucast n \<le> cw \<and> (n = 0 \<or> unat (off + a) + unat n \<le> length B)
        then Some (p, out @ take (unat n) (drop (unat (off + a)) B)) else None
      else if n = 0 \<or> unat (a - cw) < length out
      then Some (p, self_copy (unat n) (unat (a - cw)) out) else None)"

fun replays :: "byte list \<Rightarrow> u64 \<Rightarrow> u64 \<Rightarrow> byte list \<Rightarrow> Instruction list \<Rightarrow> nat \<times> byte list \<Rightarrow> (nat \<times> byte list) option" where
  "replays B cw off data [] s = Some s"
| "replays B cw off data (i # is) s = Option.bind (replay B cw off data i s) (replays B cw off data is)"

lemma replays_append:
  "replays B cw off data (is @ js) s = Option.bind (replays B cw off data is s) (replays B cw off data js)"
  by (induction "is" arbitrary: s) (auto split: bind_split)

definition follows :: "Sections \<Rightarrow> u64 \<Rightarrow> byte list \<Rightarrow> InstructionIterator \<Rightarrow> byte list DecodeState \<Rightarrow> bool" where
  "follows secs cw B it st \<longleftrightarrow> it_inst_data it = s_inst secs \<and> it_addr_data it = s_addr secs
     \<and> it_copy_window_len it = cw \<and> it_inst_pos it = inst_pos st \<and> it_addr_pos it = addr_pos st
     \<and> it_acache it = d_acache st \<and> it_target_pos it = target_pos st \<and> d_source st = B"

lemma slice_copy_Ok:
  assumes "source_copy slice_provider off n st = Ok st'" "n < 2 ^ 32"
  shows "(n = 0 \<or> unat off + n \<le> length (d_source st)) \<and> d_output st' = d_output st @ take n (drop (unat off) (d_source st))
    \<and> d_source st' = d_source st \<and> d_acache st' = d_acache st \<and> addr_pos st' = addr_pos st
    \<and> inst_pos st' = inst_pos st \<and> data_pos st' = data_pos st \<and> target_pos st' = target_pos st"
proof -
  have "unat off \<le> unat (off + of_nat n) \<longleftrightarrow> unat (off + of_nat n) = unat off + n"
  proof (cases "unat off + n < 2 ^ 64")
    case True
    then show ?thesis by (simp add: unat_word_ariths unat_of_nat)
  next
    case False
    have "unat off < 2 ^ 64" using unsigned_less [of off] by simp
    moreover have "n < 2 ^ 64" using assms(2) by simp
    ultimately have "unat off + n - 2 ^ 64 < 2 ^ 64" by linarith
    then have "unat (off + of_nat n) = unat off + n - 2 ^ 64"
      using False assms(2) by (simp add: unat_word_ariths unat_of_nat mod_if [of "unat off + n"])
    then show ?thesis using False \<open>n < 2 ^ 64\<close> by linarith
  qed
  note range = this
  show ?thesis
  proof (cases "unat (off + of_nat n) \<le> length (d_source st)")
    case True
    then show ?thesis
      using assms(1) range by (auto simp: source_copy_def slice_provider_def slice_source_slice_def slice_range_def split: if_splits)
  next
    case False
    then show ?thesis
      using assms(1) by (auto simp: source_copy_def slice_provider_def slice_source_slice_def slice_read_source_def
          vec_resize_def Let_def split: if_splits)
  qed
qed

lemma push_from_Ok: "push_from n t out = Ok out' \<Longrightarrow> (n = 0 \<or> t < length out) \<and> out' = self_copy n t out"
  by (cases n) (auto simp: bindR_eq_Ok index_at_def push_from_eq split: if_splits)

lemma target_copy_Ok:
  assumes "target_copy t n st = Ok st'"
  shows "(n = 0 \<or> t < length (d_output st)) \<and> st' = st\<lparr> d_output := self_copy n t (d_output st) \<rparr>"
  using assms by (auto simp: target_copy_def self_copy_disjoint bindR_eq_Ok split: if_splits dest!: push_from_Ok)

lemma exec_copy_Ok:
  assumes "exec_copy P addrs cw off 0 m sz st = Ok st'"
  obtains c addr k st2 where "addr_pos st \<le> length addrs"
    "AddressCache_decode (d_acache st) m (drop (addr_pos st) addrs) (cw + target_pos st) = Ok (c, addr, k)"
    "\<not> (addr < cw \<and> cw < addr + ucast sz)" "st' = st2\<lparr> target_pos := target_pos st2 + ucast sz \<rparr>"
    "(if addr < cw then source_copy P (off + addr) (unat sz) (st\<lparr> d_acache := c, addr_pos := addr_pos st + k \<rparr>)
      else target_copy (unat (addr - cw)) (unat sz) (st\<lparr> d_acache := c, addr_pos := addr_pos st + k \<rparr>)) = Ok st2"
proof -
  from assms obtain c addr k where 1: "addr_pos st \<le> length addrs"
    "AddressCache_decode (d_acache st) m (drop (addr_pos st) addrs) (cw + target_pos st) = Ok (c, addr, k)"
    "(if addr < cw \<and> cw < addr + ucast sz then Err (InvalidInput ''COPY spans source/target boundary'')
      else bindR (if addr < cw
        then source_copy P (off + addr) (unat sz) (st\<lparr> d_acache := c, addr_pos := addr_pos st + k \<rparr>)
        else target_copy (0 + unat (addr - cw)) (unat sz) (st\<lparr> d_acache := c, addr_pos := addr_pos st + k \<rparr>))
        (\<lambda>st. Ok (st\<lparr> target_pos := target_pos st + ucast sz \<rparr>))) = Ok st'"
    unfolding exec_copy_def Let_def slice_from_def by (cases "addr_pos st \<le> length addrs") (auto simp: bindR_eq_Ok [of "map_err _ _"])
  then show ?thesis by (cases "addr < cw") (auto simp: bindR_eq_Ok split: if_splits intro: that)
qed

lemma half_follows:
  assumes "execute_half_instruction slice_provider secs cw off 0 t s st = Ok st'" "t \<noteq> XD3_NOOP" "follows secs cw B it st"
  shows "\<exists>i it'. half_trace secs cw t s st = [i]
    \<and> resolve_half t s it = Ok (Inr (Some i), it') \<and> follows secs cw B it' st' \<and> pending_second it' = pending_second it
    \<and> replay B cw off (s_data secs) i (data_pos st, d_output st) = Some (data_pos st', d_output st')"
proof -
  from assms(1) obtain sz st1 where 1: "resolve_size (s_inst secs) s st = Ok (sz, st1)"
    "exec_sized slice_provider (s_data secs) (s_addr secs) cw off 0 t sz st1 = Ok st'"
    by (auto simp: execute_half_instruction_def bindR_eq_Ok)
  let ?it1 = "it\<lparr> it_inst_pos := inst_pos st1 \<rparr>"
  have 2: "iter_size s it = Ok (Inr sz, ?it1)" "follows secs cw B ?it1 st1" "data_pos st1 = data_pos st" "d_output st1 = d_output st"
    using 1(1) assms(3) by (auto simp: resolve_size_def iter_size_def follows_def bindR_eq_Ok split: if_splits)
  note simps = resolve_half_def 2(1) assms(2) exec_sized_def follows_def
  show ?thesis
  proof (cases "t = XD3_RUN \<or> t = XD3_ADD")
    case True
    then show ?thesis
      using 1 2(2-) by (auto simp: simps half_trace_def exec_run_def exec_add_def slice_range_def Let_def split: if_splits)
  next
    case False
    then have cp: "exec_copy slice_provider (s_addr secs) cw off 0 (t - XD3_CPY) sz st1 = Ok st'" using 1(2) by (simp add: exec_sized_def)
    then obtain c addr k st2 where 3: "addr_pos st1 \<le> length (s_addr secs)"
      "AddressCache_decode (d_acache st1) (t - XD3_CPY) (drop (addr_pos st1) (s_addr secs)) (cw + target_pos st1) = Ok (c, addr, k)"
      "\<not> (addr < cw \<and> cw < addr + ucast sz)" "st' = st2\<lparr> target_pos := target_pos st2 + ucast sz \<rparr>"
      "(if addr < cw then source_copy slice_provider (off + addr) (unat sz) (st1\<lparr> d_acache := c, addr_pos := addr_pos st1 + k \<rparr>)
        else target_copy (unat (addr - cw)) (unat sz) (st1\<lparr> d_acache := c, addr_pos := addr_pos st1 + k \<rparr>)) = Ok st2"
      by (rule exec_copy_Ok)
    let ?it2 = "?it1\<lparr> it_acache := c, it_addr_pos := addr_pos st1 + k \<rparr>"
    have "iter_copy t sz ?it1 = Ok (Inr (Copy sz addr (t - XD3_CPY)), ?it2)"
      using 2(2) 3(1,2) by (auto simp: iter_copy_def follows_def slice_from_def Let_def)
    then have res: "resolve_half t s it = Ok (Inr (Some (Copy sz addr (t - XD3_CPY))), ?it2\<lparr> it_target_pos := target_pos st1 + ucast sz \<rparr>)"
      using False assms(2) 2(1,2) by (simp add: resolve_half_def follows_def)
    have tr: "half_trace secs cw t s st = [Copy sz addr (t - XD3_CPY)]"
      using False assms(2) 1(1) 3(2) by (simp add: half_trace_def)
    have sz: "unat sz < 2 ^ 32" using unsigned_less [of sz] by simp
    show ?thesis
    proof (cases "addr < cw")
      case True
      then show ?thesis
        using tr res 2(2-) 3(3-) slice_copy_Ok [OF _ sz, of "off + addr" "st1\<lparr> d_acache := c, addr_pos := addr_pos st1 + k \<rparr>" st2]
        by (auto simp: follows_def not_less unat_eq_0)
    next
      case False
      then show ?thesis
        using tr res 2(2-) 3(3-) target_copy_Ok [of "unat (addr - cw)" "unat sz" "st1\<lparr> d_acache := c, addr_pos := addr_pos st1 + k \<rparr>" st2]
        by (auto simp: follows_def unat_eq_0)
    qed
  qed
qed

lemma half_listed:
  assumes "iter_half it = map_ok Some (resolve_half t s it1)" "follows secs cw B it1 st1"
    and "if t = XD3_NOOP then st2 = st1 else execute_half_instruction slice_provider secs cw off 0 t s st1 = Ok st2"
  shows "\<exists>it2. iter_all it = map_ok ((@) (map Inr (half_trace secs cw t s st1))) (iter_all it2) \<and> follows secs cw B it2 st2
    \<and> pending_second it2 = pending_second it1
    \<and> replays B cw off (s_data secs) (half_trace secs cw t s st1) (data_pos st1, d_output st1) = Some (data_pos st2, d_output st2)"
proof (cases "t = XD3_NOOP")
  case True
  then have "iter_all it = iter_all it1" using assms(1) by (intro iter_all_half(2)) simp
  then show ?thesis
    using True assms(2,3) by (intro exI [of _ it1]) (cases "iter_all it1"; simp add: half_trace_def)
next
  case False
  with assms(3) half_follows [OF _ False assms(2), of off s st2] obtain i it2 where
    i: "half_trace secs cw t s st1 = [i]" "resolve_half t s it1 = Ok (Inr (Some i), it2)" "follows secs cw B it2 st2" "pending_second it2 = pending_second it1"
      "replay B cw off (s_data secs) i (data_pos st1, d_output st1) = Some (data_pos st2, d_output st2)" by metis
  then have "iter_all it = map_ok ((#) (Inr i)) (iter_all it2)" using assms(1) by (intro iter_all_half(3)) simp
  with i show ?thesis by (intro exI [of _ it2]) (cases "iter_all it2"; simp)
qed

lemma step_follows:
  assumes "decode_step slice_provider secs cw off 0 st = Ok st'" "follows secs cw B it st" "pending_second it = None"
  shows "\<exists>it'. iter_all it = map_ok ((@) (map Inr (step_trace slice_provider secs cw off 0 st))) (iter_all it')
    \<and> follows secs cw B it' st' \<and> pending_second it' = None
    \<and> replays B cw off (s_data secs) (step_trace slice_provider secs cw off 0 st) (data_pos st, d_output st) = Some (data_pos st', d_output st')"
proof -
  define e where "e = table_entry (unat (s_inst secs ! inst_pos st))"
  let ?st1 = "st\<lparr> inst_pos := inst_pos st + 1 \<rparr>"
  let ?it1 = "it\<lparr> it_inst_pos := it_inst_pos it + 1, pending_second := if type2 e = XD3_NOOP then None else Some (type2 e, size2 e) \<rparr>"
  from assms(1) obtain st1 where lt: "inst_pos st < length (s_inst secs)"
    and h1: "if type1 e = XD3_NOOP then st1 = ?st1
        else execute_half_instruction slice_provider secs cw off 0 (type1 e) (size1 e) ?st1 = Ok st1"
    and h2: "if type2 e = XD3_NOOP then st' = st1
        else execute_half_instruction slice_provider secs cw off 0 (type2 e) (size2 e) st1 = Ok st'"
    by (auto simp: decode_step_def bindR_eq_Ok index_at_def e_def Let_def split: if_splits)
  have it: "iter_half it = map_ok Some (resolve_half (type1 e) (size1 e) ?it1)"
    using lt assms(2,3) by (cases it) (simp add: iter_half_def follows_def e_def Let_def)
  have fol: "follows secs cw B ?it1 ?st1" using assms(2) by (simp add: follows_def)
  let ?is = "half_trace secs cw (type1 e) (size1 e) ?st1" and ?js = "half_trace secs cw (type2 e) (size2 e) st1"
  have tr: "step_trace slice_provider secs cw off 0 st = ?is @ ?js"
    using h1 by (auto simp: step_trace_def e_def Let_def)
  from half_listed [OF it fol h1] obtain it1 where 1: "iter_all it = map_ok ((@) (map Inr ?is)) (iter_all it1)" "follows secs cw B it1 st1"
      "pending_second it1 = pending_second ?it1"
      "replays B cw off (s_data secs) ?is (data_pos st, d_output st) = Some (data_pos st1, d_output st1)"
    by auto
  show ?thesis
  proof (cases "type2 e = XD3_NOOP")
    case True
    then show ?thesis using 1 h2 unfolding tr by (auto simp: half_trace_def [of _ _ XD3_NOOP])
  next
    case False
    then have it1: "iter_half it1 = map_ok Some (resolve_half (type2 e) (size2 e) (it1\<lparr> pending_second := None \<rparr>))"
      using 1(3) by (simp add: iter_half_def)
    have fol1: "follows secs cw B (it1\<lparr> pending_second := None \<rparr>) st1" using 1(2) by (simp add: follows_def)
    from half_listed [OF it1 fol1 h2] obtain it2 where 2: "iter_all it1 = map_ok ((@) (map Inr ?js)) (iter_all it2)" "follows secs cw B it2 st'"
        "pending_second it2 = None"
        "replays B cw off (s_data secs) ?js (data_pos st1, d_output st1) = Some (data_pos st', d_output st')"
      by auto
    with 1 show ?thesis
      unfolding tr by (intro exI [of _ it2]) (cases "iter_all it2"; simp add: replays_append)
  qed
qed

lemma insts_follow:
  "decode_insts slice_provider secs cw off 0 st = Ok st' \<Longrightarrow> follows secs cw B it st \<Longrightarrow> pending_second it = None \<Longrightarrow>
    iter_all it = Ok (map Inr (exec_trace slice_provider secs cw off 0 st))
      \<and> replays B cw off (s_data secs) (exec_trace slice_provider secs cw off 0 st) (data_pos st, d_output st) = Some (data_pos st', d_output st')
      \<and> d_source st' = B"
proof (induction "length (s_inst secs) - inst_pos st" arbitrary: st it rule: less_induct)
  case less
  show ?case
  proof (cases "inst_pos st < length (s_inst secs)")
    case True
    from less.prems(1) True obtain st1 where 1: "decode_step slice_provider secs cw off 0 st = Ok st1"
      "decode_insts slice_provider secs cw off 0 st1 = Ok st'"
      by (subst (asm) decode_insts.simps) (auto simp: bindR_eq_Ok)
    let ?is = "step_trace slice_provider secs cw off 0 st" and ?js = "exec_trace slice_provider secs cw off 0 st1"
    from step_follows [OF 1(1) less.prems(2,3)] obtain it1 where
      2: "iter_all it = map_ok ((@) (map Inr ?is)) (iter_all it1)" "follows secs cw B it1 st1" "pending_second it1 = None"
        "replays B cw off (s_data secs) ?is (data_pos st, d_output st) = Some (data_pos st1, d_output st1)" by blast
    have tr: "exec_trace slice_provider secs cw off 0 st = ?is @ ?js"
      using True 1(1) by (simp add: exec_trace.simps [of _ _ _ _ _ st])
    have "length (s_inst secs) - inst_pos st1 < length (s_inst secs) - inst_pos st" using decode_step_pos [OF 1(1)] True by simp
    from less.hyps [OF this 1(2) 2(2,3)] 2 show ?thesis by (simp add: tr replays_append)
  next
    case False
    then have "exec_trace slice_provider secs cw off 0 st = []" by (simp add: exec_trace.simps)
    moreover have "iter_half it = Ok None" "st' = st"
      using False less.prems by (auto simp: iter_half_def follows_def decode_insts.simps [of _ _ _ _ _ st])
    ultimately show ?thesis using less.prems(2) by (simp add: iter_all_half follows_def)
  qed
qed

section \<open>The iterator on any bytes\<close>

definition iter_ok :: "InstructionIterator \<Rightarrow> bool" where
  "iter_ok it \<longleftrightarrow> it_inst_pos it \<le> length (it_inst_data it) \<and> it_addr_pos it \<le> length (it_addr_data it)
     \<and> default_cache (it_acache it) \<and> (\<forall>t s. pending_second it = Some (t, s) \<longrightarrow> t < 12)"

lemma returns_map_ok [wp]: "returns (map_ok f m) Q \<longleftrightarrow> returns m (\<lambda>x. Q (f x))"
  by (cases m) (simp_all add: returns_def)

lemma iter_size_returns: "iter_ok it \<Longrightarrow> returns (iter_size s it) (\<lambda>(r, it'). iter_ok it')"
  using read_u32_safe [of "drop (it_inst_pos it) (it_inst_data it)"]
  by (auto simp: iter_size_def iter_ok_def wp safe_def split: res.splits)

lemma iter_copy_returns:
  assumes "iter_ok it" "unat (t - XD3_CPY) < 9"
  shows "returns (iter_copy t sz it) (\<lambda>(r, it'). iter_ok it')"
  using cache_decode_safe [OF _ assms(2), of "it_acache it" "drop (it_addr_pos it) (it_addr_data it)"
      "it_copy_window_len it + it_target_pos it"] assms(1)
  by (auto simp: iter_copy_def iter_ok_def wp safe_def Let_def split: res.splits)

lemma resolve_half_returns:
  assumes "iter_ok it" "t < 12"
  shows "returns (resolve_half t s it) (\<lambda>(r, it'). iter_ok it')"
proof -
  have upd: "iter_ok (it1\<lparr> it_target_pos := p \<rparr>) = iter_ok it1" for it1 p by (simp add: iter_ok_def)
  have copy: "returns (iter_copy t sz it1) (\<lambda>(r, it'). iter_ok it')"
    if "iter_ok it1" "t \<noteq> XD3_NOOP" "t \<noteq> XD3_ADD" "t \<noteq> XD3_RUN" for sz it1
    using iter_copy_returns [OF that(1) copy_mode [OF that(2-) assms(2)]] .
  show ?thesis
    unfolding resolve_half_def returns_if returns_bind
    by (auto simp: wp upd assms(1) split: sum.splits
        intro!: returns_mono [OF iter_size_returns [OF assms(1)]] returns_mono [OF copy])
qed

lemma iter_half_returns: "iter_ok it \<Longrightarrow> returns (iter_half it) (\<lambda>r. \<forall>x it'. r = Some (x, it') \<longrightarrow> iter_ok it')"
  using table_types
  by (auto simp: iter_half_def wp Let_def iter_ok_def [of it] split: option.splits
      intro!: returns_mono [OF resolve_half_returns] simp: iter_ok_def)

lemma iter_next_returns: "iter_ok it \<Longrightarrow> returns (iter_next it) (\<lambda>(x, it'). iter_ok it')"
proof (induction it rule: iter_next.induct)
  case (1 it)
  show ?case
    unfolding iter_next.simps [of it] returns_bind
    by (rule returns_mono [OF iter_half_returns [OF 1(2)]])
      (use 1 in \<open>auto simp: wp split: option.splits sum.splits\<close>)
qed

lemma iter_all_total: "iter_ok it \<Longrightarrow> returns (iter_all it) (\<lambda>items. length items \<le> iter_left it)"
proof (induction it rule: iter_all.induct)
  case (1 it)
  from iter_next_returns [OF 1(2)] obtain x it1 where x: "iter_next it = Ok (x, it1)" "iter_ok it1"
    by (auto elim!: returnsE)
  show ?case
  proof (cases x)
    case (Some i)
    with x 1(1) [of "(Some i, it1)"] have "returns (iter_all it1) (\<lambda>items. length items \<le> iter_left it1)" by simp
    then show ?thesis
      using x Some iter_next_left [of it i it1]
      by (auto simp: iter_all.simps [of it] wp elim!: returns_mono)
  qed (use x in \<open>simp add: iter_all.simps [of it] wp\<close>)
qed

lemma window_listed:
  assumes "decode_window_with_cache adler slice_provider h secs B verify cbuf out cache = Ok st" "default_cache cache"
  shows "iter_all (InstructionIterator_new (s_inst secs) (s_addr secs) (copy_window_len h))
      = Ok (map Inr (window_trace slice_provider h secs B cbuf out cache))
    \<and> (\<exists>T p. d_output st = out @ T
      \<and> replays B (copy_window_len h) (copy_window_offset h) (s_data secs) (window_trace slice_provider h secs B cbuf out cache) (0, [])
        = Some (p, T))
    \<and> d_source st = B"
proof -
  let ?st = "\<lparr> inst_pos = 0, data_pos = 0, addr_pos = 0, d_acache = AddressCache_init cache,
      target_pos = 0, d_output = [], d_source = B, copy_buf = cbuf \<rparr>"
  from decode_window_alone [OF assms(1)] obtain st0 where
    st0: "decode_window_with_cache adler slice_provider h secs B verify cbuf [] cache = Ok st0" "st = onto out st0" by blast
  then have "decode_insts slice_provider secs (copy_window_len h) (copy_window_offset h) 0 ?st = Ok st0"
    by (auto simp: decode_window_with_cache_def bindR_eq_Ok Let_def split: if_splits option.splits)
  moreover have "follows secs (copy_window_len h) B (InstructionIterator_new (s_inst secs) (s_addr secs) (copy_window_len h)) ?st"
    using assms(2) by (simp add: follows_def InstructionIterator_new_def cache_init_eq_new)
  ultimately show ?thesis
    using insts_follow [of secs "copy_window_len h" "copy_window_offset h" ?st st0 B] st0(2)
    unfolding window_trace_onto [of _ h secs B cbuf out] by (simp add: InstructionIterator_new_def window_trace_def)
qed

section \<open>Properties\<close>

text \<open>
  C9: The iterator lists exactly what the decoder executes. Whenever the window decoder accepts the
  sections of a window, the iterator over the same instruction and address sections yields no
  error, and the instructions it yields are those the decoder executed, in order, with their sizes
  and with the address and the address mode of every COPY; given the source, the copy window and
  the data section, they denote the bytes the decoder appended.
\<close>

theorem iterator_lists_executed:
  assumes "decode_window_with_cache adler slice_provider h secs B verify cbuf out cache = Ok st" "default_cache cache"
  shows "iter_all (InstructionIterator_new (s_inst secs) (s_addr secs) (copy_window_len h))
      = Ok (map Inr (window_trace slice_provider h secs B cbuf out cache))
    \<and> (\<exists>T p. d_output st = out @ T
      \<and> replays B (copy_window_len h) (copy_window_offset h) (s_data secs) (window_trace slice_provider h secs B cbuf out cache) (0, [])
        = Some (p, T))"
  using window_listed [OF assms] by blast

theorem iterator_lists_executed_witness:
  "(\<exists>st. decode_window_with_cache adler32_simple slice_provider
       \<lparr> win_ind = 1, copy_window_len = 4, copy_window_offset = 1, enc_len = 9, target_window_len = 7,
         del_ind = 0, data_len = 3, inst_len = 2, addr_len = 1, wh_adler32 = None \<rparr>
       \<lparr> s_data = [1, 2, 3], s_inst = [4, 20], s_addr = [0] \<rparr> [9, 8, 7, 6, 5] True [] [] AddressCache_new = Ok st
     \<and> iter_all (InstructionIterator_new [4, 20] [0] 4) = Ok [Inr (Add 3), Inr (Copy 4 0 0)]
     \<and> (\<exists>T p. d_output st = [] @ T \<and> replays [9, 8, 7, 6, 5] 4 1 [1, 2, 3] [Add 3, Copy 4 0 0] (0, []) = Some (p, T)))"
    (is "\<exists>st. decode_window_with_cache _ _ ?h ?secs ?B _ _ _ _ = Ok st \<and> _")
proof -
  have "case decode_window_with_cache adler32_simple slice_provider ?h ?secs ?B True [] [] AddressCache_new of Ok st \<Rightarrow> True | _ \<Rightarrow> False"
    by code_simp
  then obtain st where st: "decode_window_with_cache adler32_simple slice_provider ?h ?secs ?B True [] [] AddressCache_new = Ok st"
    by (auto split: res.splits)
  have "window_trace slice_provider ?h ?secs ?B [] [] AddressCache_new = [Add 3, Copy 4 0 0]" by code_simp
  with iterator_lists_executed [OF st default_cache_new] st show ?thesis by auto
qed

text \<open>
  C34: The iterator is total. On any instruction and address bytes it ends without a panic, and it
  yields at most two items per byte of the instruction section, errors included.
\<close>

theorem iterator_total:
  "\<exists>items. iter_all (InstructionIterator_new inst_sec addr_sec cw_len) = Ok items \<and> length items \<le> 2 * length inst_sec"
  using iter_all_total [of "InstructionIterator_new inst_sec addr_sec cw_len"]
  by (auto simp: iter_ok_def InstructionIterator_new_def iter_left_def elim!: returnsE)

end
