(* ===== verification/Cli_Print.thy ===== *)
theory Cli_Print
  imports Cli_Recode Inst_Iterator
begin

text \<open>
  The print commands of \<open>src/src/cli.rs\<close>: the headers of a delta, and for \<open>delta\<close> also its
  instructions, as text on standard output. A step that succeeds returns the text printed so far;
  an error carries the text printed before it. Lossy conversion of the application header to UTF-8
  is a parameter.
\<close>

section \<open>Text\<close>

definition ascii :: "string \<Rightarrow> byte list" where
  "ascii s = map of_char s"

definition line :: "byte list \<Rightarrow> byte list" where
  "line bs = bs @ [10]"

text \<open>The formats \<open>{}\<close>, \<open>{:06}\<close>, \<open>{:6}\<close>, \<open>{:<6}\<close> and \<open>{:08X}\<close> of an unsigned number.\<close>

definition fmt :: "nat \<Rightarrow> byte list" where
  "fmt n = map of_nat (dec n)"

definition fmt_zero6 :: "nat \<Rightarrow> byte list" where
  "fmt_zero6 n = replicate (6 - length (fmt n)) 48 @ fmt n"

definition fmt_right6 :: "nat \<Rightarrow> byte list" where
  "fmt_right6 n = replicate (6 - length (fmt n)) 32 @ fmt n"

definition fmt_left6 :: "nat \<Rightarrow> byte list" where
  "fmt_left6 n = fmt n @ replicate (6 - length (fmt n)) 32"

fun hex :: "nat \<Rightarrow> byte list" where
  "hex n = (if n < 16 then [if n < 10 then of_nat (48 + n) else of_nat (55 + n)] else hex (n div 16) @ hex (n mod 16))"

declare hex.simps [simp del]

definition fmt_hex8 :: "nat \<Rightarrow> byte list" where
  "fmt_hex8 n = replicate (8 - length (hex n)) 48 @ hex n"

section \<open>Headers\<close>

definition header_size :: "FileHeader \<Rightarrow> nat" where
  "header_size hdr =
     (let hdr_size = 5;
          hdr_size = (if hdr_ind hdr AND VCD_SECONDARY \<noteq> 0 then hdr_size + 1 else hdr_size) in
      if hdr_ind hdr AND VCD_APPHEADER \<noteq> 0 then
        (case app_header hdr of
           Some data \<Rightarrow> hdr_size + sizeof_usize (of_nat (length data)) + length data
         | None \<Rightarrow> hdr_size + 1)
      else hdr_size)"

definition header_flags :: "FileHeader \<Rightarrow> byte list" where
  "header_flags hdr =
     (let s = (if hdr_ind hdr AND VCD_SECONDARY \<noteq> 0 then ascii ''VCD_SECONDARY '' else [])
            @ (if hdr_ind hdr AND VCD_CODETABLE \<noteq> 0 then ascii ''VCD_CODETABLE '' else [])
            @ (if hdr_ind hdr AND VCD_APPHEADER \<noteq> 0 then ascii ''VCD_APPHEADER '' else []) in
      if s = [] then ascii ''none'' else s)"

definition secondary_line :: "FileHeader \<Rightarrow> byte list" where
  "secondary_line hdr = line (ascii ''VCDIFF secondary compressor:  '' @ (case secondary_id hdr of
     None \<Rightarrow> ascii ''none''
   | Some i \<Rightarrow>
       if i = VCD_LZMA_ID then ascii ''lzma''
       else if i = VCD_DJW_ID then ascii ''djw''
       else if i = VCD_FGK_ID then ascii ''fgk''
       else if i = 3 then ascii ''zlib''
       else ascii ''unknown (id='' @ fmt (unat i) @ ascii '')''))"

definition print_file_header :: "(byte list \<Rightarrow> byte list) \<Rightarrow> FileHeader \<Rightarrow> byte list" where
  "print_file_header lossy hdr =
     line (ascii ''VCDIFF version:               0'')
     @ line (ascii ''VCDIFF header size:           '' @ fmt (header_size hdr))
     @ line (ascii ''VCDIFF header indicator:      '' @ header_flags hdr)
     @ secondary_line hdr
     @ (case app_header hdr of
          Some data \<Rightarrow>
            if hdr_ind hdr AND VCD_APPHEADER \<noteq> 0 \<and> data \<noteq> []
            then line (ascii ''VCDIFF application header:    '' @ lossy data) else []
        | None \<Rightarrow> [])"

definition window_flags :: "WindowHeader \<Rightarrow> byte list" where
  "window_flags wh =
     (let s = (if win_ind wh AND VCD_SOURCE \<noteq> 0 then ascii ''VCD_SOURCE '' else [])
            @ (if win_ind wh AND VCD_TARGET \<noteq> 0 then ascii ''VCD_TARGET '' else [])
            @ (if win_ind wh AND VCD_ADLER32 \<noteq> 0 then ascii ''VCD_ADLER32 '' else []) in
      if s = [] then ascii ''none'' else s)"

definition delta_flags :: "WindowHeader \<Rightarrow> byte list" where
  "delta_flags wh = (if del_ind wh AND VCD_DATACOMP \<noteq> 0 then ascii ''VCD_DATACOMP '' else [])
     @ (if del_ind wh AND VCD_INSTCOMP \<noteq> 0 then ascii ''VCD_INSTCOMP '' else [])
     @ (if del_ind wh AND VCD_ADDRCOMP \<noteq> 0 then ascii ''VCD_ADDRCOMP '' else [])"

definition print_window_header :: "u64 \<Rightarrow> u64 \<Rightarrow> WindowHeader \<Rightarrow> byte list" where
  "print_window_header window_num target_offset wh =
     (if 0 < window_num then line [] else [])
     @ line (ascii ''VCDIFF window number:         '' @ fmt (unat window_num))
     @ line (ascii ''VCDIFF window indicator:      '' @ window_flags wh)
     @ (case wh_adler32 wh of
          Some cksum \<Rightarrow> line (ascii ''VCDIFF adler32 checksum:      '' @ fmt_hex8 (unat cksum))
        | None \<Rightarrow> [])
     @ (if del_ind wh \<noteq> 0 then line (ascii ''VCDIFF delta indicator:       '' @ delta_flags wh) else [])
     @ (if 0 < target_offset then line (ascii ''VCDIFF window at offset:      '' @ fmt (unat target_offset)) else [])
     @ (if has_source wh \<or> has_target wh
        then line (ascii ''VCDIFF copy window length:    '' @ fmt (unat (copy_window_len wh)))
          @ line (ascii ''VCDIFF copy window offset:    '' @ fmt (unat (copy_window_offset wh)))
        else [])
     @ line (ascii ''VCDIFF delta encoding length: '' @ fmt (unat (enc_len wh)))
     @ line (ascii ''VCDIFF target window length:  '' @ fmt (unat (target_window_len wh)))
     @ line (ascii ''VCDIFF data section length:   '' @ fmt (unat (data_len wh)))
     @ line (ascii ''VCDIFF inst section length:   '' @ fmt (unat (WindowHeader.inst_len wh)))
     @ line (ascii ''VCDIFF addr section length:   '' @ fmt (unat (addr_len wh)))"

section \<open>Instructions\<close>

definition address_text :: "u64 \<Rightarrow> u64 \<Rightarrow> u64 \<Rightarrow> byte list" where
  "address_text cw_len cw_offset addr =
     (if cw_len \<le> addr then ascii ''T@'' @ fmt_left6 (unat (addr - cw_len))
      else ascii ''S@'' @ fmt_left6 (unat (cw_offset + addr)))"

fun inst_line :: "u64 \<Rightarrow> u64 \<Rightarrow> u64 \<Rightarrow> Instruction \<Rightarrow> byte list" where
  "inst_line cw_len cw_offset offset (Add n) = line (ascii ''  '' @ fmt_zero6 (unat offset) @ ascii ''     ADD  '' @ fmt_right6 (unat n))"
| "inst_line cw_len cw_offset offset (Copy n addr m) =
     line (ascii ''  '' @ fmt_zero6 (unat offset) @ ascii ''     CPY  '' @ fmt_right6 (unat n) @ ascii '' ''
       @ address_text cw_len cw_offset addr)"
| "inst_line cw_len cw_offset offset (Run n) = line (ascii ''  '' @ fmt_zero6 (unat offset) @ ascii ''     RUN  '' @ fmt_right6 (unat n))"

fun inst_span :: "Instruction \<Rightarrow> u32" where
  "inst_span (Add n) = n"
| "inst_span (Copy n addr m) = n"
| "inst_span (Run n) = n"

text \<open>The loop over the iterator; it stops at the first error.\<close>

fun print_insts :: "u64 \<Rightarrow> u64 \<Rightarrow> u64 \<Rightarrow> (DecodeError + Instruction) list \<Rightarrow> byte list \<Rightarrow> (byte list, byte list) res" where
  "print_insts cw_len cw_offset offset [] out = Ok out"
| "print_insts cw_len cw_offset offset (Inr inst # items) out =
     print_insts cw_len cw_offset (offset + ucast (inst_span inst)) items (out @ inst_line cw_len cw_offset offset inst)"
| "print_insts cw_len cw_offset offset (Inl e # items) out = Err out"

definition print_window_insts :: "Codecs \<Rightarrow> byte option \<Rightarrow> u64 \<Rightarrow> WindowHeader \<Rightarrow> byte list \<Rightarrow> byte list
    \<Rightarrow> (byte list \<times> byte list, byte list) res" where
  "print_window_insts cs sid target_offset wh r out =
     bindR (map_err (\<lambda>e. out) (read_raw wh r)) (\<lambda>((data, inst, addr), r).
     bindR (if del_ind wh \<noteq> 0
            then map_err (\<lambda>e. out) (map_ok (\<lambda>(d, i, a). (i, a)) (decompress_sections cs data inst addr (del_ind wh) sid))
            else Ok (inst, addr)) (\<lambda>(inst, addr).
     let out = out @ line (ascii ''  Offset Code Type1 Size1  @Addr1 + Type2 Size2 @Addr2'');
         cw_len = (if has_source wh \<or> has_target wh then copy_window_len wh else 0) in
     bindR (map_err (\<lambda>e. out) (iter_all (InstructionIterator_new inst addr cw_len))) (\<lambda>items.
     bindR (print_insts cw_len (copy_window_offset wh) target_offset items out) (\<lambda>out.
     Ok (out, r)))))"

text \<open>
  Skipping the sections in pieces of at most \<open>BUF_SIZE\<close>. The buffer is no longer than the sections,
  and the rest never is, so the size of a piece is the lesser of the rest and \<open>BUF_SIZE\<close>.
\<close>

definition BUF_SIZE :: nat where "BUF_SIZE = 64 * 1024"

function skip_pieces :: "nat \<Rightarrow> byte list \<Rightarrow> (byte list, io_error) res" where
  "skip_pieces remaining r =
     (if 0 < remaining then
        let to_read = min remaining BUF_SIZE in
        bindR (read_exact r to_read) (\<lambda>(bs, r). skip_pieces (remaining - to_read) r)
      else Ok r)"
  by pat_completeness auto
termination by (relation "measure fst") (auto simp: BUF_SIZE_def)

declare skip_pieces.simps [simp del]

definition skip_sections :: "WindowHeader \<Rightarrow> byte list \<Rightarrow> (byte list, io_error) res" where
  "skip_sections wh r = skip_pieces (unat (data_len wh + WindowHeader.inst_len wh + addr_len wh)) r"

section \<open>The command\<close>

lemma skip_pieces_shorter: "skip_pieces n r = Ok r' \<Longrightarrow> length r' \<le> length r"
proof (induction n r rule: skip_pieces.induct)
  case (1 n r)
  show ?case
  proof (cases "0 < n")
    case True
    with 1(2) obtain bs r1 where r1: "read_exact r (min n BUF_SIZE) = Ok (bs, r1)" "skip_pieces (n - min n BUF_SIZE) r1 = Ok r'"
      by (auto simp: skip_pieces.simps [of n r] bindR_eq_Ok Let_def)
    with 1(1) [OF True refl r1(1) refl r1(2)] show ?thesis by (auto simp: read_exact_def split: if_splits)
  qed (use 1(2) in \<open>simp add: skip_pieces.simps [of 0 r]\<close>)
qed

lemma print_window_insts_shorter: "print_window_insts cs sid off wh r out = Ok (out', r') \<Longrightarrow> length r' \<le> length r"
  by (auto simp: print_window_insts_def bindR_eq_Ok Let_def dest!: read_raw_shorter)

function print_windows :: "Codecs \<Rightarrow> Command \<Rightarrow> byte option \<Rightarrow> u64 \<Rightarrow> u64 \<Rightarrow> byte list \<Rightarrow> byte list
    \<Rightarrow> (byte list, byte list) res" where
  "print_windows cs command sid window_num target_offset r out =
     bindR (map_err (\<lambda>e. out) (WindowHeader_decode r)) (\<lambda>(wh_opt, r). case wh_opt of
       None \<Rightarrow> Ok out
     | Some wh \<Rightarrow>
     let out = out @ print_window_header window_num target_offset wh in
     bindR (if command = CPrintDelta then print_window_insts cs sid target_offset wh r out
            else map_ok (\<lambda>r. (out, r)) (map_err (\<lambda>e. out) (skip_sections wh r))) (\<lambda>(out, r).
     if command = CPrintHdr then Ok out
     else print_windows cs command sid (window_num + 1) (target_offset + target_window_len wh) r out))"
  by pat_completeness auto
termination
  by (relation "measure (\<lambda>(cs, c, s, n, t, r, out). length r)")
    (auto simp: map_ok_eq_Ok skip_sections_def split: if_splits
      dest!: WindowHeader_decode_Ok print_window_insts_shorter skip_pieces_shorter)

declare print_windows.simps [simp del]

definition print_delta :: "Codecs \<Rightarrow> (byte list \<Rightarrow> byte list) \<Rightarrow> Command \<Rightarrow> byte list \<Rightarrow> (byte list, byte list) res" where
  "print_delta cs lossy command data =
     bindR (map_err (\<lambda>e. []) (FileHeader_decode data)) (\<lambda>(hdr, r).
     print_windows cs command (secondary_id hdr) 0 0 r (print_file_header lossy hdr))"

definition cmd_print :: "Codecs \<Rightarrow> (byte list \<Rightarrow> byte list) \<Rightarrow> Options \<Rightarrow> world \<Rightarrow> (world, failure) res" where
  "cmd_print cs lossy opts w = (case o_input_file opts of
     None \<Rightarrow> Err (Failed w)
   | Some path \<Rightarrow>
     bindR (map_err (\<lambda>e. Failed w) (fs_read path w)) (\<lambda>data.
     case print_delta cs lossy (o_command opts) data of
       Ok out \<Rightarrow> Ok (put_output ToStdout out w)
     | Err out \<Rightarrow> Err (Failed (put_output ToStdout out w))
     | Panic \<Rightarrow> Err (Panicked ToStdout w)))"

section \<open>What is printed\<close>

fun listing :: "u64 \<Rightarrow> u64 \<Rightarrow> u64 \<Rightarrow> Instruction list \<Rightarrow> byte list" where
  "listing cw_len cw_offset offset [] = []"
| "listing cw_len cw_offset offset (i # is) =
     inst_line cw_len cw_offset offset i @ listing cw_len cw_offset (offset + ucast (inst_span i)) is"

fun reports :: "u64 \<Rightarrow> u64 \<Rightarrow> (WindowHeader \<times> Instruction list) list \<Rightarrow> byte list" where
  "reports n off [] = []"
| "reports n off ((wh, is) # ws) = print_window_header n off wh
     @ line (ascii ''  Offset Code Type1 Size1  @Addr1 + Type2 Size2 @Addr2'')
     @ listing (copy_window_len wh) (copy_window_offset wh) off is
     @ reports (n + 1) (off + target_window_len wh) ws"

lemma print_insts_listing: "print_insts cw off0 off (map Inr is) out = Ok (out @ listing cw off0 off is)"
  by (induction "is" arbitrary: off out) simp_all

text \<open>
  What the stream decoder did, window by window, read off its own calls of \<open>decode_window\<close>: the window
  header, the sections it decompressed, the instructions it executed and the bytes it appended.
\<close>

record window_run =
  wr_header :: WindowHeader
  wr_sections :: Sections
  wr_insts :: "Instruction list"
  wr_bytes :: "byte list"

function decode_log :: "Codecs \<Rightarrow> (byte list \<Rightarrow> u32) \<Rightarrow> 'p SourceProvider \<Rightarrow> StreamDecoder \<Rightarrow> 'p \<Rightarrow> byte list \<Rightarrow> window_run list" where
  "decode_log cs adler P sd source output =
     (case (WindowHeader_decode (reader sd), StreamDecoder_decode_window cs adler P sd source output) of
        (Ok (Some wh, r), Ok (True, sd', source', output')) \<Rightarrow>
          (case select_sections cs sd' (del_ind wh) of
             Ok secs \<Rightarrow> [\<lparr> wr_header = wh, wr_sections = secs,
               wr_insts = window_trace P wh secs source (sd_copy_buf sd) output (sd_acache sd),
               wr_bytes = drop (length output) output' \<rparr>]
           | _ \<Rightarrow> [])
          @ decode_log cs adler P sd' source' output'
      | _ \<Rightarrow> [])"
  by pat_completeness auto
termination
  by (relation "measures [\<lambda>(cs, adler, P, sd, s, out). if sd_file_header sd = None then 1 else 0,
        \<lambda>(cs, adler, P, sd, s, out). length (reader sd)]")
    (auto dest!: decode_window_shorter [OF sym])

declare decode_log.simps [simp del]

definition replayed :: "byte list \<Rightarrow> window_run \<Rightarrow> bool" where
  "replayed source v \<longleftrightarrow> (\<exists>p. replays source (copy_window_len (wr_header v)) (copy_window_offset (wr_header v))
     (s_data (wr_sections v)) (wr_insts v) (0, []) = Some (p, wr_bytes v))"

abbreviation logged :: "window_run list \<Rightarrow> (WindowHeader \<times> Instruction list) list" where
  "logged \<equiv> map (\<lambda>v. (wr_header v, wr_insts v))"

lemma print_window_step:
  assumes "StreamDecoder_decode_window cs adler slice_provider sd src out = Ok (True, sd1, src1, out1)"
    and "sd_file_header sd \<noteq> None" "default_cache (sd_acache sd)"
  shows "\<exists>v r. decode_log cs adler slice_provider sd src out = v # decode_log cs adler slice_provider sd1 src out1
    \<and> WindowHeader_decode (reader sd) = Ok (Some (wr_header v), r) \<and> out1 = out @ wr_bytes v \<and> replayed src v
    \<and> (\<forall>off pre. print_window_insts cs (sd_secondary_id sd) off (wr_header v) r pre
        = Ok (pre @ line (ascii ''  Offset Code Type1 Size1  @Addr1 + Type2 Size2 @Addr2'')
            @ listing (copy_window_len (wr_header v)) (copy_window_offset (wr_header v)) off (wr_insts v), reader sd1))
    \<and> sd_file_header sd1 \<noteq> None \<and> default_cache (sd_acache sd1) \<and> sd_secondary_id sd1 = sd_secondary_id sd \<and> src1 = src"
proof -
  obtain wh r d i a r1 secs st where p: "WindowHeader_decode (reader sd) = Ok (Some wh, r)" "\<not> has_target wh"
    "read_raw wh r = Ok ((d, i, a), r1)" "decompress_sections cs d i a (del_ind wh) (sd_secondary_id sd) = Ok secs"
    "decode_window_with_cache adler slice_provider wh (case secs of (d, i, a) \<Rightarrow> \<lparr> s_data = d, s_inst = i, s_addr = a \<rparr>) src
      (sd_verify_checksum sd) (sd_copy_buf sd) out (sd_acache sd) = Ok st"
    "sd1 = sd\<lparr> data_buf := d, inst_buf := i, addr_buf := a, reader := r1, sd_copy_buf := copy_buf st, sd_acache := d_acache st \<rparr>"
    "src1 = d_source st" "out1 = d_output st"
    using stream_window_parts [OF assms(1,2)] by blast
  obtain rd ri ra where secs: "secs = (rd, ri, ra)" by (cases secs) auto
  define v where "v = (let secs = \<lparr> s_data = rd, s_inst = ri, s_addr = ra \<rparr> in
    \<lparr> wr_header = wh, wr_sections = secs, wr_insts = window_trace slice_provider wh secs src (sd_copy_buf sd) out (sd_acache sd),
      wr_bytes = drop (length out) out1 \<rparr>)"
  have ex: "iter_all (InstructionIterator_new ri ra (copy_window_len wh)) = Ok (map Inr (wr_insts v))" "out1 = out @ wr_bytes v"
    "replayed src v" "d_source st = src"
    using window_listed [OF p(5) assms(3)] secs p(8) by (auto simp: v_def replayed_def Let_def)
  have "select_sections cs sd1 (del_ind wh) = Ok (wr_sections v)"
    using p(4,6) secs by (simp add: select_sections_eq v_def Let_def)
  then have log: "decode_log cs adler slice_provider sd src out = v # decode_log cs adler slice_provider sd1 src out1"
    using p(1,7) assms(1) ex(4) by (subst decode_log.simps) (simp add: v_def Let_def)
  have cw: "(if has_source wh \<or> has_target wh then copy_window_len wh else 0) = copy_window_len wh"
    using WindowHeader_decode_Ok [OF p(1)] by (auto simp: window_header_ok_def)
  have raw: "(if del_ind wh \<noteq> 0 then map_err (\<lambda>e. pre) (map_ok (\<lambda>(d, i, a). (i, a))
      (decompress_sections cs d i a (del_ind wh) (sd_secondary_id sd))) else Ok (i, a)) = Ok (ri, ra)" for pre :: "byte list"
    using p(4) secs by (auto simp: decompress_sections_def)
  have "print_window_insts cs (sd_secondary_id sd) off wh r pre
      = Ok (pre @ line (ascii ''  Offset Code Type1 Size1  @Addr1 + Type2 Size2 @Addr2'')
          @ listing (copy_window_len wh) (copy_window_offset wh) off (wr_insts v), reader sd1)" for off pre
    unfolding print_window_insts_def p(3) map_err.simps bindR.simps prod.case raw cw Let_def ex(1) print_insts_listing
    using p(6) by simp
  moreover have "default_cache (d_acache st)" using decode_window_cache [OF p(5) assms(3)] .
  moreover have "wr_header v = wh" by (simp add: v_def Let_def)
  ultimately show ?thesis
    using log p(1,6,7) ex(2-) assms(2) by (intro exI [of _ v] exI [of _ r]) simp
qed

lemma print_windows_reports:
  "decode_all cs adler slice_provider sd src out = Ok (sdE, srcE, outE) \<Longrightarrow> sd_file_header sd \<noteq> None \<Longrightarrow> default_cache (sd_acache sd) \<Longrightarrow>
    (\<forall>n off pre. print_windows cs CPrintDelta (sd_secondary_id sd) n off (reader sd) pre
        = Ok (pre @ reports n off (logged (decode_log cs adler slice_provider sd src out))))
      \<and> list_all (replayed src) (decode_log cs adler slice_provider sd src out)
      \<and> outE = out @ concat (map wr_bytes (decode_log cs adler slice_provider sd src out))"
proof (induction cs adler "slice_provider" sd src out rule: decode_all.induct)
  case (1 cs adler sd src out)
  from 1(2) obtain m sd1 src1 out1 where step: "StreamDecoder_decode_window cs adler slice_provider sd src out = Ok (m, sd1, src1, out1)"
    and rest: "if m then decode_all cs adler slice_provider sd1 src1 out1 = Ok (sdE, srcE, outE) else (sd1, src1, out1) = (sdE, srcE, outE)"
    by (subst (asm) decode_all.simps) (auto simp: bindR_eq_Ok split: if_splits)
  show ?case
  proof (cases m)
    case False
    with stream_end(2) [OF 1(3), of cs adler slice_provider src out sd1 src1 out1] step rest have e: "reader sd = []" "outE = out" by auto
    then have wh: "WindowHeader_decode (reader sd) = Ok (None, [])" by (simp add: WindowHeader_decode_None [THEN iffD2])
    then have "decode_log cs adler slice_provider sd src out = []" by (subst decode_log.simps) simp
    moreover have "print_windows cs CPrintDelta (sd_secondary_id sd) n off (reader sd) pre = Ok pre" for n off pre
      by (subst print_windows.simps) (simp add: wh)
    ultimately show ?thesis using e by simp
  next
    case True
    note step = step [unfolded eqTrueI [OF True]]
    from print_window_step [OF step 1(3,4)] obtain v r where
      w: "decode_log cs adler slice_provider sd src out = v # decode_log cs adler slice_provider sd1 src out1"
        "WindowHeader_decode (reader sd) = Ok (Some (wr_header v), r)" "out1 = out @ wr_bytes v" "replayed src v"
        "\<forall>off pre. print_window_insts cs (sd_secondary_id sd) off (wr_header v) r pre
          = Ok (pre @ line (ascii ''  Offset Code Type1 Size1  @Addr1 + Type2 Size2 @Addr2'')
              @ listing (copy_window_len (wr_header v)) (copy_window_offset (wr_header v)) off (wr_insts v), reader sd1)"
        "sd_file_header sd1 \<noteq> None" "default_cache (sd_acache sd1)" "sd_secondary_id sd1 = sd_secondary_id sd" "src1 = src" by blast
    have "decode_all cs adler slice_provider sd1 src1 out1 = Ok (sdE, srcE, outE)" using rest True by simp
    note ih = 1(1) [OF step refl refl refl _ this w(6,7)]
    have "print_windows cs CPrintDelta (sd_secondary_id sd) n off (reader sd) pre
        = Ok (pre @ reports n off (logged (v # decode_log cs adler slice_provider sd1 src out1)))" for n off pre
      using w(2,5,8,9) ih by (subst print_windows.simps) (simp add: Let_def)
    then show ?thesis unfolding w(1) using w(3,4,9) ih by simp
  qed
qed

section \<open>Properties\<close>

text \<open>
  C10: What \<open>delta\<close> prints is what the decoder does. On the file of any delta that decodes with some
  source, the command succeeds, changes no file, and prints the file header and one report per
  window the decoder decoded, with the header of the window and the instructions the decoder executed
  in it, in order and with running offsets; replayed on the source and on the data section of the
  window as the decoder decompressed it, these instructions give the bytes the decoder appended,
  and the bytes of all windows are the decoded target.
\<close>

theorem print_delta_lists:
  assumes "decode_memory cs adler delta source = Ok target"
    and "o_command opts = CPrintDelta" and "o_input_file opts = Some path" and "files w path = Some delta"
  shows "\<exists>hdr r log. FileHeader_decode delta = Ok (hdr, r)
    \<and> log = decode_log cs adler slice_provider (opened hdr r) source []
    \<and> cmd_print cs lossy opts w = Ok (w\<lparr> stdout_data := stdout_data w @ print_file_header lossy hdr
        @ reports 0 0 (map (\<lambda>v. (wr_header v, wr_insts v)) log) \<rparr>)
    \<and> list_all (replayed source) log
    \<and> target = concat (map wr_bytes log)"
proof -
  from decode_memory_opened [OF assms(1)] obtain hdr r sdE srcE where hdr: "FileHeader_decode delta = Ok (hdr, r)"
    and dec: "decode_all cs adler slice_provider (opened hdr r) source [] = Ok (sdE, srcE, target)" by blast
  define log where "log = decode_log cs adler slice_provider (opened hdr r) source []"
  have log: "\<forall>n off pre. print_windows cs CPrintDelta (secondary_id hdr) n off r pre = Ok (pre @ reports n off (logged log))"
      "list_all (replayed source) log" "target = concat (map wr_bytes log)"
    using print_windows_reports [OF dec] by (auto simp: log_def)
  have "cmd_print cs lossy opts w = Ok (w\<lparr> stdout_data := stdout_data w @ print_file_header lossy hdr @ reports 0 0 (logged log) \<rparr>)"
    using assms(2-4) hdr log(1) by (simp add: cmd_print_def fs_read_def print_delta_def)
  with hdr log(2,3) log_def show ?thesis by blast
qed

theorem print_delta_lists_witness:
  "\<exists>hdr r log. FileHeader_decode (VCDIFF_MAGIC @ [0, 0, 9, 3, 0, 3, 1, 0, 1, 2, 3, 4]) = Ok (hdr, r)
    \<and> log = decode_log pair_codecs adler32_simple slice_provider (opened hdr r) [] []
    \<and> cmd_print pair_codecs (\<lambda>bs. bs)
        (resolve_plain \<lparr> cli_command = CmdConfig, cli_force = False, cli_quiet = False, cli_verbose = 0, cli_json_output = False \<rparr>
          CPrintDelta (Some ''d''))
        \<lparr> files = [''d'' \<mapsto> VCDIFF_MAGIC @ [0, 0, 9, 3, 0, 3, 1, 0, 1, 2, 3, 4]], writable = (\<lambda>p. True), stdin_data = [], stdout_data = [] \<rparr>
      = Ok \<lparr> files = [''d'' \<mapsto> VCDIFF_MAGIC @ [0, 0, 9, 3, 0, 3, 1, 0, 1, 2, 3, 4]], writable = (\<lambda>p. True), stdin_data = [],
          stdout_data = print_file_header (\<lambda>bs. bs) hdr @ reports 0 0 (map (\<lambda>v. (wr_header v, wr_insts v)) log) \<rparr>
    \<and> list_all (replayed []) log
    \<and> [1, 2, 3] = concat (map wr_bytes log)"
proof -
  have "decode_memory pair_codecs adler32_simple (VCDIFF_MAGIC @ [0, 0, 9, 3, 0, 3, 1, 0, 1, 2, 3, 4]) [] = Ok [1, 2, 3]" by code_simp
  from print_delta_lists [OF this, of "resolve_plain \<lparr> cli_command = CmdConfig, cli_force = False, cli_quiet = False, cli_verbose = 0,
        cli_json_output = False \<rparr> CPrintDelta (Some ''d'')" "''d''"
      "\<lparr> files = [''d'' \<mapsto> VCDIFF_MAGIC @ [0, 0, 9, 3, 0, 3, 1, 0, 1, 2, 3, 4]], writable = (\<lambda>p. True), stdin_data = [], stdout_data = [] \<rparr>"
      "\<lambda>bs. bs"]
  show ?thesis by (simp add: resolve_plain_def)
qed

end
