(* ===== verification/Cli_Run.thy ===== *)
theory Cli_Run
  imports Cli_Print
begin

text \<open>
  The entry point \<open>run\<close> of \<open>src/src/cli.rs\<close>: options, the limit on the window size, and the dispatch to
  the commands. The exit status is read off the result: \<open>Ok\<close> is 0, \<open>Err\<close> is 1, or 101 for a panic. What
  every command may change, whether it succeeds, fails or panics, is a contract they share, from
  which it follows for \<open>run\<close>.
\<close>

section \<open>Definitions\<close>

text \<open>Standard output takes the place of a named output file, unless the run is quiet.\<close>

definition override_output :: "Options \<Rightarrow> Options" where
  "override_output opts =
     (if o_use_stdout opts \<and> o_output_file opts \<noteq> None \<and> \<not> o_quiet opts then opts\<lparr> o_output_file := None \<rparr> else opts)"

text \<open>\<open>cmd_config\<close> prints to standard error and succeeds.\<close>

definition run :: "Cpu \<Rightarrow> Codecs \<Rightarrow> (byte list \<Rightarrow> u32) \<Rightarrow> (byte list \<Rightarrow> byte list list) \<Rightarrow> (byte list \<Rightarrow> byte list) \<Rightarrow> Cli \<Rightarrow> world
    \<Rightarrow> (world, failure) res option" where
  "run cpu cs adler chop lossy cli w =
     (let opts = resolve_options cli in
      if XD3_HARDMAXWINSIZE < o_input_window_size opts then Some (Err (Failed w))
      else
        let opts = override_output opts in
        case o_command opts of
          CEncode \<Rightarrow> cmd_encode cpu cs adler chop opts w
        | CDecode \<Rightarrow> Some (cmd_decode cs adler opts w)
        | CConfig \<Rightarrow> Some (Ok w)
        | CPrintHdr \<Rightarrow> Some (cmd_print cs lossy opts w)
        | CPrintHdrs \<Rightarrow> Some (cmd_print cs lossy opts w)
        | CPrintDelta \<Rightarrow> Some (cmd_print cs lossy opts w)
        | CRecode \<Rightarrow> Some (cmd_recode cs opts w)
        | CMerge \<Rightarrow> cmd_merge cpu cs adler opts w)"

section \<open>What a command may change\<close>

definition frame :: "Options \<Rightarrow> world \<Rightarrow> world \<Rightarrow> bool" where
  "frame opts w w' \<longleftrightarrow> writable w' = writable w \<and> (\<exists>bs. stdout_data w' = stdout_data w @ bs)
     \<and> (\<forall>p. files w' p \<noteq> files w p \<longrightarrow> o_output_file opts = Some p \<and> (files w p = None \<or> o_force opts))"

text \<open>
  The worlds a result can leave. A command that failed or panicked once its output was open may have
  written any bytes there. \<open>Panic\<close> itself says nothing of the world; no command has it as its result.
\<close>

fun leaves :: "(world, failure) res \<Rightarrow> world \<Rightarrow> bool" where
  "leaves (Ok w) w' \<longleftrightarrow> w' = w"
| "leaves (Err (Failed w)) w' \<longleftrightarrow> w' = w"
| "leaves (Err (FailedWriting output w)) w' \<longleftrightarrow> (\<exists>bs. w' = put_output output bs w)"
| "leaves (Err (Panicked output w)) w' \<longleftrightarrow> (\<exists>bs. w' = put_output output bs w)"
| "leaves Panic w' \<longleftrightarrow> True"

lemma frame_refl [simp]: "frame opts w w"
  by (simp add: frame_def)

lemma frame_drain [simp]: "frame opts w (drain_input opts w') \<longleftrightarrow> frame opts w w'"
  by (simp add: frame_def drain_input_def split: option.split)

lemma frame_stdout [simp]: "frame opts w (w\<lparr> stdout_data := stdout_data w @ bs \<rparr>)"
  by (auto simp: frame_def)

lemma open_output_frame:
  "open_output opts w = Ok (out, w1) \<Longrightarrow> frame opts w w1 \<and> frame opts w (put_output out bs w1) \<and> frame opts w (put_output out bs (drain_input opts w1))"
  "open_output opts w \<noteq> Panic" "open_output opts w = Err e \<Longrightarrow> e = Failed w"
  by (auto simp: open_output_def create_output_def fs_create_def fs_append_def frame_def drain_input_def map_err_eq_Err map_ok_eq_Ok
      split: if_splits option.splits)

lemma create_output_frame:
  "o_output_file opts = Some path \<Longrightarrow> create_output opts path w = Ok w1 \<Longrightarrow> frame opts w (fs_append path bs w1)"
  "create_output opts path w \<noteq> Panic" "create_output opts path w = Err e \<Longrightarrow> e = Failed w"
  by (auto simp: create_output_def fs_create_def fs_append_def frame_def split: if_splits)

text \<open>The same along a sequence of calls.\<close>

definition fails_in_frame :: "Options \<Rightarrow> world \<Rightarrow> ('a, failure) res \<Rightarrow> bool" where
  "fails_in_frame opts w m \<longleftrightarrow> m \<noteq> Panic \<and> (\<forall>e w'. m = Err e \<longrightarrow> leaves (Err e) w' \<longrightarrow> frame opts w w')"

definition keeps_frame :: "Options \<Rightarrow> world \<Rightarrow> (world, failure) res option \<Rightarrow> bool" where
  "keeps_frame opts w m \<longleftrightarrow> (\<forall>r w'. m = Some r \<longrightarrow> leaves r w' \<longrightarrow> frame opts w w')"

named_theorems framing

lemma keeps_frame_simps [simp]:
  "keeps_frame opts w (Some (Ok w')) \<longleftrightarrow> frame opts w w'" "keeps_frame opts w (Some (Err (Failed w'))) \<longleftrightarrow> frame opts w w'"
  by (auto simp: keeps_frame_def)

lemma keeps_frame_bindO [framing]:
  assumes "\<And>r. m = Some r \<Longrightarrow> fails_in_frame opts w r" "\<And>x. m = Some (Ok x) \<Longrightarrow> keeps_frame opts w (f x)"
  shows "keeps_frame opts w (bindO m f)"
  using assms unfolding keeps_frame_def fails_in_frame_def by (cases "(m, f)" rule: bindO.cases) auto

lemma keeps_frame_bindR [framing]:
  assumes "fails_in_frame opts w m" "\<And>x. m = Ok x \<Longrightarrow> keeps_frame opts w (Some (f x))"
  shows "keeps_frame opts w (Some (bindR m f))"
  using assms unfolding keeps_frame_def fails_in_frame_def by (cases m) auto

lemma keeps_frame_map_ok [framing]:
  assumes "fails_in_frame opts w m" "\<And>x. m = Ok x \<Longrightarrow> frame opts w (f x)"
  shows "keeps_frame opts w (Some (map_ok f m))"
  using assms unfolding keeps_frame_def fails_in_frame_def by (cases m) auto

lemma fails_writing [framing]: "(\<And>bs. frame opts w (put_output out bs w1)) \<Longrightarrow> fails_in_frame opts w (writing out w1 m)"
  by (cases m) (auto simp: fails_in_frame_def)

lemma fails_failing [framing]: "frame opts w w1 \<Longrightarrow> fails_in_frame opts w (failing w1 m)"
  by (cases m) (auto simp: fails_in_frame_def)

lemma fails_Ok [simp]: "fails_in_frame opts w (Ok x)"
  by (simp add: fails_in_frame_def)

lemma fails_early:
  assumes "m \<noteq> Panic" "\<And>e. m = Err e \<Longrightarrow> e = Failed w"
  shows "fails_in_frame opts w m"
  using assms by (auto simp: fails_in_frame_def)

lemma fs_read_fails [framing]: "fails_in_frame opts w (map_err (\<lambda>e. Failed w) (fs_read path w))"
  by (auto simp: fails_in_frame_def fs_read_def split: option.splits)

lemma source_data_fails [framing]: "fails_in_frame opts w (source_data opts w)"
  by (rule fails_early) (auto simp: source_data_def fs_read_def split: option.splits)

lemma open_input_fails [framing]: "fails_in_frame opts w (open_input opts w)"
  by (rule fails_early) (auto simp: open_input_def fs_read_def split: option.splits)

lemma outputs_fail [framing]:
  "fails_in_frame opts w (open_output opts w)" "fails_in_frame opts w (create_output opts path w)"
  by (rule fails_early; use open_output_frame(2,3) create_output_frame(2,3) in blast)+

lemma merge_chain_fails [framing]: "fails_in_frame opts w (merge_chain cs adler opts w i ps s)"
proof (induction ps arbitrary: i s)
  case (Cons p ps)
  then show ?case
    by (cases "files w p"; cases "o_source_file opts"; cases i)
      (auto simp: fs_read_def fails_in_frame_def split: option.splits bindR_split elim!: failing.elims)
qed (simp add: fails_in_frame_def)

locale file_command =
  fixes cmd :: "Options \<Rightarrow> world \<Rightarrow> (world, failure) res option"
  assumes touches: "cmd opts w = Some r \<Longrightarrow> leaves r w' \<Longrightarrow> frame opts w w'"
begin

lemma overridden:
  assumes "cmd (override_output opts) w = Some r" "leaves r w'"
  shows "frame opts w w'"
  using touches [OF assms] by (auto simp: override_output_def frame_def split: if_splits)

lemma keeps_existing:
  assumes "cmd opts w = Some r" "leaves r w'" "\<not> o_force opts" "files w p = Some bs"
  shows "files w' p = Some bs"
  using touches [OF assms(1,2)] assms(3,4) by (metis frame_def option.distinct(1))

end

lemma cmd_encode_framed: "keeps_frame opts w (cmd_encode cpu cs adler chop opts w)"
  unfolding cmd_encode_def Let_def
  by (intro framing) (auto simp: open_output_frame intro!: framing split: prod.splits)

lemma cmd_decode_framed: "keeps_frame opts w (Some (cmd_decode cs adler opts w))"
  unfolding cmd_decode_def Let_def
  by (intro framing) (auto simp: open_output_frame intro!: framing split: prod.splits if_splits)

lemma cmd_print_framed: "keeps_frame opts w (Some (cmd_print cs lossy opts w))"
  by (auto simp: cmd_print_def keeps_frame_def fs_read_def split: option.splits res.splits)

lemma cmd_recode_framed: "keeps_frame opts w (Some (cmd_recode cs opts w))"
  unfolding cmd_recode_def Let_def
  by (cases "o_input_file opts") (auto simp: open_output_frame intro!: framing split: prod.splits)

lemma cmd_merge_framed: "keeps_frame opts w (cmd_merge cpu cs adler opts w)"
  unfolding cmd_merge_def Let_def
  by (auto simp: create_output_frame intro!: framing split: prod.splits option.splits)

interpretation encode_command: file_command "cmd_encode cpu cs adler chop" for cpu cs adler chop
  by unfold_locales (use cmd_encode_framed in \<open>auto simp: keeps_frame_def\<close>)

interpretation decode_command: file_command "\<lambda>opts w. Some (cmd_decode cs adler opts w)" for cs adler
  by unfold_locales (use cmd_decode_framed in \<open>auto simp: keeps_frame_def\<close>)

interpretation print_command: file_command "\<lambda>opts w. Some (cmd_print cs lossy opts w)" for cs lossy
  by unfold_locales (use cmd_print_framed in \<open>auto simp: keeps_frame_def\<close>)

interpretation recode_command: file_command "\<lambda>opts w. Some (cmd_recode cs opts w)" for cs
  by unfold_locales (use cmd_recode_framed in \<open>auto simp: keeps_frame_def\<close>)

interpretation merge_command: file_command "cmd_merge cpu cs adler" for cpu cs adler
  by unfold_locales (use cmd_merge_framed in \<open>auto simp: keeps_frame_def\<close>)

lemmas commands_overridden = encode_command.overridden decode_command.overridden print_command.overridden
  recode_command.overridden merge_command.overridden

lemma override_command [simp]: "o_command (override_output opts) = o_command opts"
  by (simp add: override_output_def)

lemma resolve_force [simp]: "o_force (resolve_options cli) = cli_force cli"
  by (simp add: resolve_options_def resolve_encode_def resolve_decode_def resolve_plain_def resolve_recode_def resolve_merge_def
      Let_def split: Cmd.split prod.split)

section \<open>Properties\<close>

text \<open>
  C15: No run touches a file it was not told to write. Whatever the command, its arguments and the
  contents of the files, and whether the program succeeds, fails before or in the middle of writing
  its output, or panics: the only file that can differ when it is over is the output file it was
  given; that file was absent before or \<open>--force\<close> was given; and what was on standard output before
  is still there.
\<close>

theorem run_writes_only_output:
  assumes "run cpu cs adler chop lossy cli w = Some r" and "leaves r w'"
  shows "(\<forall>p. files w' p \<noteq> files w p \<longrightarrow> o_output_file (resolve_options cli) = Some p \<and> (files w p = None \<or> cli_force cli))
    \<and> (\<exists>bs. stdout_data w' = stdout_data w @ bs)"
proof -
  have "frame (resolve_options cli) w w'"
    using assms
    by (cases "o_command (resolve_options cli)") (auto simp: run_def Let_def intro: commands_overridden split: if_splits)
  then show ?thesis by (simp add: frame_def)
qed

theorem run_writes_only_output_witness:
  "\<exists>w'. run Aarch64 pair_codecs adler32_simple (\<lambda>bs. [bs]) (\<lambda>bs. bs)
      \<lparr> cli_command = CmdRecode \<lparr> ra_input = Some ''d'', ra_output = Some ''o'', ra_stdout = False, ra_secondary = SecArgNone,
          ra_app_header = None, ra_drop_app_header = True, ra_input_pos = None, ra_output_pos = None \<rparr>,
        cli_force = False, cli_quiet = False, cli_verbose = 0, cli_json_output = False \<rparr>
      \<lparr> files = [''d'' \<mapsto> VCDIFF_MAGIC @ [4, 1, 65]], writable = (\<lambda>p. True), stdin_data = [], stdout_data = [] \<rparr> = Some (Ok w')
    \<and> files w' ''o'' = Some (VCDIFF_MAGIC @ [0]) \<and> files w' ''d'' = Some (VCDIFF_MAGIC @ [4, 1, 65])"
proof -
  let ?cli = "\<lparr> cli_command = CmdRecode \<lparr> ra_input = Some ''d'', ra_output = Some ''o'', ra_stdout = False, ra_secondary = SecArgNone,
          ra_app_header = None, ra_drop_app_header = True, ra_input_pos = None, ra_output_pos = None \<rparr>,
        cli_force = False, cli_quiet = False, cli_verbose = 0, cli_json_output = False \<rparr>"
  let ?w = "\<lparr> files = [''d'' \<mapsto> VCDIFF_MAGIC @ [4, 1, 65]], writable = (\<lambda>p. True), stdin_data = [], stdout_data = [] \<rparr>"
  let ?run = "run Aarch64 pair_codecs adler32_simple (\<lambda>bs. [bs]) (\<lambda>bs. bs) ?cli ?w"
  have "FileHeader_decode (VCDIFF_MAGIC @ [4, 1, 65]) = Ok (\<lparr> hdr_ind = 4, secondary_id = None, app_header = Some [65] \<rparr>, [])"
    and "WindowHeader_decode [] = Ok (None, [])" by code_simp+
  moreover have "recode_windows pair_codecs None None [] out = bindR (map_err Io (WindowHeader_decode [])) (\<lambda>(wh, r). Ok out)" for out
    by (subst recode_windows.simps) (simp add: calculation(2))
  ultimately have "\<exists>w'. ?run = Some (Ok w') \<and> files w' ''o'' = Some (VCDIFF_MAGIC @ [0])"
    by (simp add: run_def resolve_options_def resolve_recode_def option_or_def XD3_HARDMAXWINSIZE_def XD3_DEFAULT_WINSIZE_def
        override_output_def cmd_recode_def fs_read_def open_output_def create_output_def fs_create_def input_data_def
        build_compress_options_def recode_header_def FileHeader_default_def FileHeader_encode_def write_all_def fs_append_def
        Let_def SecondaryCompression_backend_def)
  then obtain w' where w': "?run = Some (Ok w')" "files w' ''o'' = Some (VCDIFF_MAGIC @ [0])" by blast
  have "files w' ''d'' = files ?w ''d''"
    using run_writes_only_output [OF w'(1), of w', THEN conjunct1, THEN spec, of "''d''"]
    by (simp add: resolve_options_def resolve_recode_def option_or_def split: if_splits)
  with w' show ?thesis by auto
qed

text \<open>
  Under \<open>--check-only\<close> nothing should be written, but \<open>encode\<close> has created its output file by then:
  a file that was there is emptied, and the status is 0.
\<close>

theorem encode_check_only_truncates:
  assumes "o_no_output opts" "source_data opts w = Ok source" "o_input_file opts = Some tp" "files w tp = Some target"
    and "o_output_file opts = Some path" "\<not> o_use_stdout opts" "writable w path" "o_force opts"
  shows "cmd_encode cpu cs adler chop opts w = Some (Ok (w\<lparr> files := (files w)(path \<mapsto> []) \<rparr>))"
  using assms by (simp add: cmd_encode_def open_output_def create_output_def fs_create_def open_input_def fs_read_def drain_input_def)

section \<open>Returning\<close>

lemma caught_eq_Ok [simp]: "failing w m = Ok x \<longleftrightarrow> m = Ok x" "writing out w m = Ok x \<longleftrightarrow> m = Ok x"
  by (cases m; simp)+

lemma bindO_returns: "\<exists>r. m = Some r \<Longrightarrow> (\<And>x. m = Some (Ok x) \<Longrightarrow> \<exists>r. f x = Some r) \<Longrightarrow> \<exists>r. bindO m f = Some r"
  by (cases "(m, f)" rule: bindO.cases) auto

lemma fresh_encoder:
  "DeltaEncoder_new cpu cs w source opts = Ok d \<Longrightarrow> de_opts d = opts \<and> de_buffer d = []"
  by (auto simp: DeltaEncoder_new_def bindR_eq_Ok)

lemma feed_returns:
  assumes "DeltaEncoder_new cpu cs w source opts = Ok d" "co_window_size opts \<noteq> 0"
  shows "\<exists>r. write_target cpu cs adler d target = Some r" "\<exists>r. write_targets cpu cs adler d pieces = Some r"
  using fresh_encoder [OF assms(1)] assms(2) write_target_returns [of d cpu cs adler] write_targets_concat [of d cpu cs adler pieces]
  by simp_all

lemma cmd_encode_returns:
  assumes "o_input_window_size opts \<noteq> 0"
  shows "\<exists>r. cmd_encode cpu cs adler chop opts w = Some r"
proof -
  have "co_window_size (build_compress_options opts) \<noteq> 0" using assms by (simp add: build_compress_options_def)
  from feed_returns(2) [OF _ this]
  have "\<exists>r. map_option (writing out w1) (write_targets cpu cs adler d pieces) = Some r"
    if "DeltaEncoder_new cpu cs [] source (build_compress_options opts) = Ok d" for out w1 d source pieces
    using that by fastforce
  then show ?thesis
    unfolding cmd_encode_def Let_def
    by (intro bindO_returns) (auto intro!: bindO_returns split: prod.splits)
qed

lemma cmd_merge_returns:
  assumes "o_input_window_size opts \<noteq> 0"
  shows "\<exists>r. cmd_merge cpu cs adler opts w = Some r"
proof -
  have "co_window_size (build_compress_options opts) \<noteq> 0" using assms by (simp add: build_compress_options_def)
  from feed_returns(1) [OF _ this]
  have "\<exists>r. map_option (failing w) (write_target cpu cs adler d target) = Some r"
    if "DeltaEncoder_new cpu cs [] source (build_compress_options opts) = Ok d" for d source target
    using that by fastforce
  then show ?thesis
    unfolding cmd_merge_def Let_def by (auto intro!: bindO_returns split: prod.splits option.splits)
qed

text \<open>
  C37: Every run ends. Whatever the command, the arguments, the files and the standard input, the
  program returns, unless it was given a window size of 0.
\<close>

theorem run_returns:
  assumes "o_input_window_size (resolve_options cli) \<noteq> 0"
  shows "\<exists>r. run cpu cs adler chop lossy cli w = Some r"
proof -
  have "o_input_window_size (override_output (resolve_options cli)) \<noteq> 0" using assms by (simp add: override_output_def)
  then show ?thesis
    using cmd_encode_returns cmd_merge_returns by (simp add: run_def Let_def split: Command.split)
qed

theorem run_returns_witness:
  "\<exists>r. run Aarch64 pair_codecs adler32_simple (\<lambda>bs. [bs]) (\<lambda>bs. bs)
      \<lparr> cli_command = CmdMerge \<lparr> ma_source = None, ma_patches = [''p''], ma_last_patch = Some ''q'', ma_output = None,
          ma_output_pos = None, ma_stdout = True, ma_tuning = EncodeTuningArgs_default \<rparr>,
        cli_force = False, cli_quiet = False, cli_verbose = 0, cli_json_output = False \<rparr>
      \<lparr> files = [''p'' \<mapsto> [0]], writable = (\<lambda>p. True), stdin_data = [], stdout_data = [] \<rparr> = Some r"
  by (rule run_returns)
    (simp add: resolve_options_def resolve_merge_def Let_def EncodeTuningArgs_default_def XD3_DEFAULT_WINSIZE_def)

text \<open>With a window size of 0, which \<open>run\<close> lets through, \<open>encode\<close> of any input that is not empty never returns.\<close>

theorem encode_zero_window_hangs:
  assumes "o_input_window_size opts = 0" "\<not> o_no_output opts" "chop_ok chop"
    and "source_data opts w = Ok source" "length source < 2 ^ 63" "secondary_ok cs (co_secondary (build_compress_options opts))"
    and "o_input_file opts = Some tp" "files w tp = Some target" "target \<noteq> []"
    and "can_write opts w" "o_use_stdout opts \<or> o_output_file opts \<noteq> Some tp"
  shows "cmd_encode cpu cs adler chop opts w = None"
proof -
  have "co_window_size (build_compress_options opts) = 0" using assms(1) by (simp add: build_compress_options_def)
  from zero_write_loops [OF this assms(5,6), of cpu "[]" adler] obtain d where
    d: "DeltaEncoder_new cpu cs [] source (build_compress_options opts) = Ok d" "\<And>data. write_target cpu cs adler d data = None" by blast
  have "concat (chop target) = target" using assms(3) by (simp add: chop_ok_def)
  with assms(9) obtain p ps where "chop target = p # ps" by (cases "chop target") auto
  moreover obtain out w1 where "open_output opts w = Ok (out, w1)" "files w1 tp = Some target"
    using open_output_ok [OF assms(10,7,8,11)] by blast
  ultimately show ?thesis using d assms(2,4,7,8) by (simp add: cmd_encode_def)
qed

section \<open>Encoding and decoding\<close>

lemma delivered_override [simp]: "delivered (override_output opts) = delivered opts"
  by (auto simp: override_output_def delivered_def fun_eq_iff)

lemma can_write_override [simp]: "can_write (override_output opts) w = can_write opts w"
  by (auto simp: override_output_def can_write_def)

lemma override_fields [simp]:
  "o_input_file (override_output opts) = o_input_file opts" "source_data (override_output opts) = source_data opts"
  "o_no_output (override_output opts) = o_no_output opts" "o_use_stdout (override_output opts) = o_use_stdout opts"
  "build_compress_options (override_output opts) = build_compress_options opts"
  by (simp_all add: override_output_def source_data_def build_compress_options_def fun_eq_iff split: option.split)

lemma override_output_file [simp]: "\<not> o_use_stdout opts \<Longrightarrow> o_output_file (override_output opts) = o_output_file opts"
  by (simp add: override_output_def)

lemma run_encode:
  assumes "o_command opts = CEncode" "opts = resolve_options cli"
    and "encodable cs (build_compress_options opts) source target" "chop_ok chop" "\<not> o_no_output opts"
    and "source_data opts w = Ok source" "o_input_file opts = Some tp" "files w tp = Some target"
    and "can_write opts w" "o_use_stdout opts \<or> o_output_file opts \<noteq> Some tp"
  shows "\<exists>delta. run cpu cs adler chop lossy cli w = Some (Ok (delivered opts delta w))
    \<and> decode_memory cs adler delta source = Ok target"
proof -
  have "o_input_window_size opts \<le> XD3_HARDMAXWINSIZE"
    using assms(3) by (simp add: encodable_def build_compress_options_def XD3_HARDMAXWINSIZE_def)
  moreover have "o_use_stdout opts \<or> o_output_file (override_output opts) \<noteq> Some tp" using assms(10) by auto
  ultimately show ?thesis
    using cmd_encode_ok [of cs "override_output opts" source target chop w tp cpu adler] assms by (simp add: run_def)
qed

lemma run_decode:
  assumes "o_command opts = CDecode" "opts = resolve_options cli" "o_input_window_size opts \<le> XD3_HARDMAXWINSIZE"
    and "decode_memory cs adler delta source = Ok target" "\<not> o_no_output opts"
    and "source_data opts w = Ok source" "o_input_file opts = Some dp" "files w dp = Some delta"
    and "can_write opts w" "o_use_stdout opts \<or> o_output_file opts \<noteq> Some dp"
  shows "run cpu cs adler chop lossy cli w = Some (Ok (delivered opts target w))"
proof -
  have "o_use_stdout opts \<or> o_output_file (override_output opts) \<noteq> Some dp" using assms(10) by auto
  then show ?thesis
    using cmd_decode_ok [of cs adler delta source target "override_output opts" w dp] assms by (simp add: run_def)
qed

end
