(* ===== verification/Spec2Isabelle.thy ===== *)
theory Spec2Isabelle
  imports Cli_Run
begin

text \<open>
  A verification of oxidelta, a VCDIFF (RFC 3284) delta encoder and decoder in Rust.

  \<^bold>\<open>The program.\<close> A delta is a file header and a sequence of windows; a window has a header and three
  sections, with literal bytes, opcodes and addresses. To encode, a target is cut into windows, a
  match engine finds runs and repetitions of source and target bytes in each, an optimiser rewrites
  the instructions, a window encoder packs them into the sections, a backend may compress the
  sections, and a stream encoder writes the result. To decode, a stream decoder reads headers and
  sections and executes the instructions against the source. The library offers this as functions
  on memory, as a streaming encoder and decoder, and on files; the command line is a client of it.

  \<^bold>\<open>The theories,\<close> in the order of the imports, with the files under \<open>src/src\<close> they model.

  \<^item> \<open>Oxi_Prelude\<close>: machine words, the type \<open>res\<close> of results that are a value, an error or a panic,
    slices, readers and writers, and two collections of rules: \<open>wp\<close> for "returns a value such that"
    and \<open>sp\<close> for "does not panic and a value is such that".
  \<^item> \<open>Varint\<close> (\<open>vcdiff/varint.rs\<close>), \<open>Address_Cache\<close> (\<open>vcdiff/address_cache.rs\<close>), \<open>Code_Table\<close>
    (\<open>vcdiff/code_table.rs\<close>), \<open>Vcd_Header\<close> (\<open>vcdiff/header.rs\<close>), \<open>Secondary\<close>
    (\<open>compress/secondary.rs\<close>): the parts of the format. Round trips of integers, addresses, headers
    and sections; the opcode chooser against the table; safety of the readers on any bytes.
  \<^item> \<open>Vcd_Encoder\<close> (\<open>vcdiff/encoder.rs\<close>) and \<open>Vcd_Decoder\<close> (\<open>vcdiff/decoder.rs\<close>): window and stream
    encoder and decoder. \<open>Window_Codec\<close> gives a window an abstract meaning, a list of ADD, COPY and
    RUN operations applied to a source, and shows that encoder and decoder both implement it;
    \<open>Stream_Codec\<close> lifts this to whole streams. \<open>Decoder_Safety\<close> runs the decoder on hostile input,
    with the loop over windows as an inductive step relation (of \<open>Compress_Decoder\<close>). \<open>Inst_Iterator\<close>
    models the instruction iterator of the same file and shows that it lists what the decoder
    executes, read off the decoder's own run.
  \<^item> \<open>Rolling\<close> (\<open>hash/config.rs\<close> and the checksums of \<open>hash/rolling.rs\<close>), \<open>Match_Kernels\<close> (the scalar
    and SIMD kernels of \<open>hash/rolling.rs\<close>), \<open>Hash_Table\<close> (\<open>hash/table.rs\<close>), \<open>Matching\<close>
    (\<open>hash/matching.rs\<close>): the match engine. \<open>Match_Extend\<close> and \<open>Match_Scan\<close> prove that every match it
    reports is one and that its instructions cover the target, whatever the hash tables hold.
  \<^item> \<open>Engine\<close> (\<open>engine.rs\<close>), \<open>Pipeline\<close> (\<open>compress/pipeline.rs\<close>), \<open>Compress_Decoder\<close>
    (\<open>compress/decoder.rs\<close>), \<open>Compress_Encoder\<close> (\<open>compress/encoder.rs\<close>): the functions on memory and
    the streaming interface, with the round trips from target to delta and back.
  \<^item> \<open>File_Io\<close> (\<open>io.rs\<close>) and the command line of \<open>cli.rs\<close>: \<open>Cli_Options\<close> (sizes, arguments, options),
    \<open>Cli_Commands\<close> (\<open>encode\<close>, \<open>decode\<close>, \<open>merge\<close>), \<open>Cli_Recode\<close> (\<open>recode\<close>), \<open>Cli_Print\<close> (\<open>header\<close>,
    \<open>headers\<close>, \<open>delta\<close>) and \<open>Cli_Run\<close> (\<open>run\<close>). This theory holds the property that spans two runs.

  \<^bold>\<open>State and operations.\<close> A Rust struct is a record with its fields, an enum a datatype, a function or
  method a definition of the same name, with the type in front where two types share a method
  (\<open>AddressCache_encode\<close> is \<open>AddressCache::encode\<close>). A method on \<open>&mut self\<close> takes the record and
  returns it updated; a reader is the list of bytes left, a writer the list of bytes written.
  Integers are words of their width and wrap, as in a release build; lengths of buffers in memory
  are natural numbers. \<open>Err\<close> is an error that the code returns; an index out of range, an oversized
  allocation and a failed assertion are \<open>Panic\<close>, also where the source reads unchecked. Files and the
  standard streams are a \<open>world\<close>.

  \<^bold>\<open>Interfaces.\<close> The locales are the contracts between components: \<open>address_codec\<close> (what the window
  codec needs of the address cache), \<open>lossless_backend\<close> (a compressor), \<open>source_provider\<close> and
  \<open>safe_provider\<close> (where the decoder reads the source), \<open>source_data\<close> (where the match engine does),
  \<open>position_index\<close> (a hash table), \<open>block_compare\<close> and \<open>block_rcompare\<close> (a kernel's compare of one
  block) and \<open>file_command\<close> (what a command may change). Each is interpreted on the model's own
  definitions in the theory that provides them.

  \<^bold>\<open>Parameters.\<close> Code that is not part of the repository is an argument of the definitions: the LZMA and
  zlib codecs (\<open>Codecs\<close>; where a property says \<open>secondary_ok\<close>, they are assumed to undo themselves and
  the one in use, at the level in use, to report no errors), Adler-32
  and SHA-256 (any functions), the lossy conversion to UTF-8 (any function), the sizes of reads
  (\<open>chop\<close>, assumed to deliver all bytes), and the CPU, which selects the kernels. \<open>pair_codecs\<close> is a
  concrete instance of the codecs for the witnesses.

  \<^bold>\<open>Loops.\<close> All loops are total functions, with a measure where the recursion is not structural, and
  without fuel, except the window loops of the encoders, which do not end for a window size of 0:
  these are partial functions into \<open>option\<close>, \<open>None\<close> stands for not returning, and it is proved when
  they return.

  \<^bold>\<open>Bounds.\<close> The round trips hold for window sizes from 1 to \<open>2 ^ 24\<close> bytes, which is the limit of the
  decoder, and for sources and targets below \<open>2 ^ 63\<close> bytes, which is the limit of an allocation: the
  decoder reserves room for every window behind the output so far and panics beyond it. At a level
  above 0 the streaming encoder needs windows that are safe to merge (\<open>merge_safe\<close>): the optimiser
  merges adjacent RUNs of different bytes and copies across the end of the source, as \<open>Pipeline\<close>
  shows. \<open>Engine\<close> does not use the optimiser and needs no such condition.

  \<^bold>\<open>Not modelled.\<close> Parsing of the argument vector by clap, the logger, and all output to standard error,
  which includes everything the command \<open>config\<close> prints and the JSON statistics: they have no effect
  on files or results. The texts that errors display as. Prefetch hints, which have no effect at all.
  The capacities of buffers, other than requests beyond the limit of an allocation, and the thread
  pool of the parallel encoder, whose windows are independent. Errors of the operating system other
  than a missing or an unwritable file. How many bytes of a result a command that failed or
  panicked while writing had put into its output: any number of any bytes is allowed for. \<open>main.rs\<close> and \<open>lib.rs\<close>, which only call and re-export, and the examples,
  benchmarks, fuzz targets and tests, which are clients.
\<close>

section \<open>From one command to the next\<close>

text \<open>
  C4: Two runs of the program. \<open>oxidelta encode\<close> of a target file against an optional source file
  writes a delta file and changes nothing else; \<open>oxidelta decode\<close> of that file against the same
  source, on a machine with any other CPU, writes a file with the bytes of the target. The paths may
  come as options or as positional arguments, the reads may return pieces of any sizes, and
  existing outputs are overwritten under \<open>--force\<close>. Options and contents must be such that the
  encoder round-trips them (\<open>encodable\<close>): window sizes from 1 byte to 16 MiB, files that fit in
  memory, a codec that undoes itself and reports no errors or none, and at a level above 0, such as
  the default 6, windows that are safe to merge (\<open>merge_safe\<close>): in no window of the target is a run of
  8 or more equal bytes directly followed by such a run of another byte, nor the last 4 bytes of
  the source by the first 4 bytes of the window. The output can be written and is not the input.
\<close>

theorem cli_roundtrip:
  assumes "cli_command cli1 = CmdEncode ea" and "cli_command cli2 = CmdDecode da"
    and "encodable cs (build_compress_options (resolve_options cli1)) source target" and "chop_ok chop"
    and "case ea_source ea of Some sp \<Rightarrow> files w sp = Some source \<and> sp \<noteq> dp | None \<Rightarrow> source = []" and "da_source da = ea_source ea"
    and "option_or (ea_input ea) (ea_input_pos ea) = Some tp" and "files w tp = Some target"
    and "option_or (ea_output ea) (ea_output_pos ea) = Some dp" and "tp \<noteq> dp" and "\<not> ea_stdout ea" and "\<not> ea_no_output ea"
    and "writable w dp" and "files w dp = None \<or> cli_force cli1"
    and "option_or (da_input da) (da_input_pos da) = Some dp" and "\<not> da_stdout da" and "\<not> da_no_output da"
    and "option_or (da_output da) (da_output_pos da) = Some op" and "op \<noteq> dp"
    and "writable w op" and "files w op = None \<or> cli_force cli2"
  shows "\<exists>delta. run cpu1 cs adler chop lossy cli1 w = Some (Ok (w\<lparr> files := (files w)(dp \<mapsto> delta) \<rparr>))
    \<and> run cpu2 cs adler chop lossy cli2 (w\<lparr> files := (files w)(dp \<mapsto> delta) \<rparr>)
      = Some (Ok (w\<lparr> files := (files w)(dp \<mapsto> delta, op \<mapsto> target) \<rparr>))"
proof -
  let ?o1 = "resolve_options cli1" and ?o2 = "resolve_options cli2"
  note args = resolve_options_def resolve_encode_def resolve_decode_def Let_def source_file can_write_def delivered_def
  have "\<exists>delta. run cpu1 cs adler chop lossy cli1 w = Some (Ok (delivered ?o1 delta w))
    \<and> decode_memory cs adler delta source = Ok target"
    by (rule run_encode [OF _ refl assms(3,4), where tp = tp])
      (use assms(1,5-14) in \<open>auto simp: args split: option.splits\<close>)
  then obtain delta where delta: "run cpu1 cs adler chop lossy cli1 w = Some (Ok (w\<lparr> files := (files w)(dp \<mapsto> delta) \<rparr>))"
      "decode_memory cs adler delta source = Ok target"
    using assms(1,9,11) by (auto simp: args)
  have "run cpu2 cs adler chop lossy cli2 (w\<lparr> files := (files w)(dp \<mapsto> delta) \<rparr>)
      = Some (Ok (delivered ?o2 target (w\<lparr> files := (files w)(dp \<mapsto> delta) \<rparr>)))"
    by (rule run_decode [OF _ refl _ delta(2), where dp = dp])
      (use assms(2,5,6,15-21) in \<open>auto simp: args XD3_HARDMAXWINSIZE_def XD3_DEFAULT_WINSIZE_def split: option.splits\<close>)
  also have "delivered ?o2 target (w\<lparr> files := (files w)(dp \<mapsto> delta) \<rparr>) = w\<lparr> files := (files w)(dp \<mapsto> delta, op \<mapsto> target) \<rparr>"
    using assms(2,16,18) by (simp add: args)
  finally show ?thesis using delta(1) by blast
qed

theorem cli_roundtrip_witness:
  "\<exists>delta. run (X86_64 True True) pair_codecs adler32_simple (\<lambda>bs. map (\<lambda>b. [b]) bs) (\<lambda>bs. bs)
      \<lparr> cli_command = CmdEncode \<lparr> ea_source = Some ''s'', ea_input = None, ea_output = Some ''d'', ea_stdout = False, ea_no_output = False,
          ea_tuning = EncodeTuningArgs_default\<lparr> ta_secondary := SecArgLzma \<rparr>, ea_input_pos = Some ''t'', ea_output_pos = None \<rparr>,
        cli_force = False, cli_quiet = False, cli_verbose = 0, cli_json_output = False \<rparr>
      \<lparr> files = [''s'' \<mapsto> [1, 2], ''t'' \<mapsto> [1, 2, 3]], writable = (\<lambda>p. True), stdin_data = [], stdout_data = [] \<rparr>
      = Some (Ok \<lparr> files = [''s'' \<mapsto> [1, 2], ''t'' \<mapsto> [1, 2, 3], ''d'' \<mapsto> delta], writable = (\<lambda>p. True), stdin_data = [], stdout_data = [] \<rparr>)
    \<and> run Aarch64 pair_codecs adler32_simple (\<lambda>bs. map (\<lambda>b. [b]) bs) (\<lambda>bs. bs)
      \<lparr> cli_command = CmdDecode \<lparr> da_source = Some ''s'', da_input = Some ''d'', da_output = None, da_stdout = False, da_no_checksum = False,
          da_no_output = False, da_input_pos = None, da_output_pos = Some ''t'' \<rparr>,
        cli_force = True, cli_quiet = False, cli_verbose = 0, cli_json_output = False \<rparr>
      \<lparr> files = [''s'' \<mapsto> [1, 2], ''t'' \<mapsto> [1, 2, 3], ''d'' \<mapsto> delta], writable = (\<lambda>p. True), stdin_data = [], stdout_data = [] \<rparr>
      = Some (Ok \<lparr> files = [''s'' \<mapsto> [1, 2], ''t'' \<mapsto> [1, 2, 3], ''d'' \<mapsto> delta, ''t'' \<mapsto> [1, 2, 3]], writable = (\<lambda>p. True),
          stdin_data = [], stdout_data = [] \<rparr>)"
proof -
  let ?e = "\<lparr> ea_source = Some ''s'', ea_input = None, ea_output = Some ''d'', ea_stdout = False, ea_no_output = False,
          ea_tuning = EncodeTuningArgs_default\<lparr> ta_secondary := SecArgLzma \<rparr>, ea_input_pos = Some ''t'', ea_output_pos = None \<rparr>"
  let ?d = "\<lparr> da_source = Some ''s'', da_input = Some ''d'', da_output = None, da_stdout = False, da_no_checksum = False,
          da_no_output = False, da_input_pos = None, da_output_pos = Some ''t'' \<rparr>"
  let ?c1 = "\<lparr> cli_command = CmdEncode ?e, cli_force = False, cli_quiet = False, cli_verbose = 0, cli_json_output = False \<rparr>"
  let ?c2 = "\<lparr> cli_command = CmdDecode ?d, cli_force = True, cli_quiet = False, cli_verbose = 0, cli_json_output = False \<rparr>"
  let ?w = "\<lparr> files = [''s'' \<mapsto> [1, 2], ''t'' \<mapsto> [1, 2, 3]], writable = (\<lambda>p. True), stdin_data = [], stdout_data = [] \<rparr>"
  let ?chop = "\<lambda>bs. map (\<lambda>b. [b]) bs :: byte list list"
  have "encodable pair_codecs (build_compress_options (resolve_options ?c1)) [1, 2] [1, 2, 3]"
    by (rule encodable_short)
      (simp_all add: resolve_options_def resolve_encode_def Let_def EncodeTuningArgs_default_def build_compress_options_def
        XD3_DEFAULT_WINSIZE_def MIN_RUN_def C_MIN_MATCH_def pair_codecs_ok)
  moreover have "chop_ok ?chop" by (auto simp: chop_ok_def)
  ultimately show ?thesis
    using cli_roundtrip [of ?c1 ?e ?c2 ?d pair_codecs "[1, 2]" "[1, 2, 3]" ?chop ?w "''d''" "''t''" "''t''" "X86_64 True True" adler32_simple
        "\<lambda>bs. bs" Aarch64]
    by (simp add: option_or_def)
qed

end
